(* ===== verification/Prelude.thy ===== *)
theory Prelude
  imports Main "HOL-Library.Word"
begin

unbundle bit_operations_syntax

text \<open>
  The vocabulary shared by the component theories.

  \<^item> C's integer types of \<^verbatim>\<open>src/types.h\<close>: \<open>uchar\<close>, \<open>ushort\<close> and \<open>uint\<close> are words of 8,
    16 and 32 bits.
  \<^item> Kernel code is a function of type \<open>('s, 'a) km\<close>: it takes the state and a schedule and
    yields an outcome. It can return a value, fail (a call of \<^verbatim>\<open>panic\<close>, or an access outside
    an object, which C leaves undefined) or still be asleep. The schedule is a list of state
    changes: the \<open>k\<close>-th call of \<^verbatim>\<open>sleep\<close> runs the \<open>k\<close>-th entry, which stands for everything the
    rest of the system does until the sleeper runs again. When the schedule is exhausted the
    caller has not been woken yet.
  \<^item> \<open>keeps I m\<close> says that \<open>m\<close> preserves \<open>I\<close>, whatever it returns and wherever it sleeps, as
    long as the rest of the system preserves \<open>I\<close> too. Its rules (\<open>keeps_rules\<close>) follow the
    structure of the code.
  \<^item> Objects in memory are lists of bytes; \<open>le16\<close> and \<open>le32\<close> lay out integers in the byte
    order of the machine (little endian) and \<open>rd16\<close> and \<open>rd32\<close> read them back.
\<close>

section \<open>Machine integers\<close>

type_synonym uchar = "8 word"
type_synonym ushort = "16 word"
type_synonym uint32 = "32 word"
type_synonym bytes = "8 word list"

named_theorems km_defs \<open>definitions of the basic kernel actions\<close>
named_theorems keeps_rules \<open>structural rules for invariant preservation\<close>
named_theorems byte_simps \<open>reading back what was laid out in memory\<close>

section \<open>Kernel actions\<close>

datatype fault = Panic string | OutOfBounds string

datatype chan = Chan string nat

datatype ('s, 'a) outcome =
    Ret 'a 's "('s \<Rightarrow> 's) list"
  | Fail fault
  | Asleep chan 's

type_synonym 's sched = "('s \<Rightarrow> 's) list"
type_synonym ('s, 'a) km = "'s \<Rightarrow> ('s \<Rightarrow> 's) list \<Rightarrow> ('s, 'a) outcome"

definition ret :: "'a \<Rightarrow> ('s, 'a) km" where
  "ret a s sch = Ret a s sch"

definition bnd :: "('s, 'a) km \<Rightarrow> ('a \<Rightarrow> ('s, 'b) km) \<Rightarrow> ('s, 'b) km" where
  "bnd m f s sch =
     (case m s sch of Ret a s' sch' \<Rightarrow> f a s' sch' | Fail e \<Rightarrow> Fail e | Asleep c s' \<Rightarrow> Asleep c s')"

definition thn :: "('s, 'a) km \<Rightarrow> ('s, 'b) km \<Rightarrow> ('s, 'b) km" where
  "thn m n = bnd m (\<lambda>_. n)"

definition gets :: "('s \<Rightarrow> 'a) \<Rightarrow> ('s, 'a) km" where
  "gets f s sch = Ret (f s) s sch"

definition upd :: "('s \<Rightarrow> 's) \<Rightarrow> ('s, unit) km" where
  "upd f s sch = Ret () (f s) sch"

definition failk :: "fault \<Rightarrow> ('s, 'a) km" where
  "failk e s sch = Fail e"

definition panic :: "string \<Rightarrow> ('s, 'a) km" where
  "panic msg = failk (Panic msg)"

definition oob :: "string \<Rightarrow> ('s, 'a) km" where
  "oob what = failk (OutOfBounds what)"

definition sleepk :: "chan \<Rightarrow> ('s, unit) km" where
  "sleepk c s sch = (case sch of [] \<Rightarrow> Asleep c s | f # fs \<Rightarrow> Ret () (f s) fs)"

text \<open>A check that the code makes, or that C demands, before going on.\<close>

definition requirek :: "bool \<Rightarrow> fault \<Rightarrow> ('s, unit) km" where
  "requirek b e = (if b then ret () else failk e)"

fun seqk :: "('s, unit) km list \<Rightarrow> ('s, unit) km" where
  "seqk [] = ret ()"
| "seqk (m # ms) = thn m (seqk ms)"

lemmas [km_defs] = ret_def bnd_def thn_def gets_def upd_def failk_def panic_def oob_def
  sleepk_def requirek_def

lemma ret_app [simp]: "ret a s sch = Ret a s sch" by (simp add: ret_def)
lemma gets_app [simp]: "gets f s sch = Ret (f s) s sch" by (simp add: gets_def)
lemma upd_app [simp]: "upd f s sch = Ret () (f s) sch" by (simp add: upd_def)
lemma failk_app [simp]: "failk e s sch = Fail e" by (simp add: failk_def)
lemma panic_app [simp]: "panic msg s sch = Fail (Panic msg)" by (simp add: panic_def)
lemma oob_app [simp]: "oob w s sch = Fail (OutOfBounds w)" by (simp add: oob_def)
lemma sleepk_Nil [simp]: "sleepk c s [] = Asleep c s" by (simp add: sleepk_def)
lemma sleepk_Cons [simp]: "sleepk c s (f # fs) = Ret () (f s) fs" by (simp add: sleepk_def)
lemma requirek_app [simp]:
  "requirek b e s sch = (if b then Ret () s sch else Fail e)"
  by (simp add: requirek_def)
lemma bnd_app [simp]:
  "bnd m f s sch =
     (case m s sch of Ret a s' sch' \<Rightarrow> f a s' sch' | Fail e \<Rightarrow> Fail e | Asleep c s' \<Rightarrow> Asleep c s')"
  by (simp add: bnd_def)
lemma thn_app [simp]:
  "thn m n s sch =
     (case m s sch of Ret a s' sch' \<Rightarrow> n s' sch' | Fail e \<Rightarrow> Fail e | Asleep c s' \<Rightarrow> Asleep c s')"
  by (simp add: thn_def)

lemma bnd_assoc: "bnd (bnd m f) g = bnd m (\<lambda>x. bnd (f x) g)"
  by (rule ext, rule ext) (simp split: outcome.split)

lemma bnd_ret_left [simp]: "bnd (ret a) f = f a"
  by (rule ext, rule ext) simp

lemma bnd_ret_right [simp]: "bnd m ret = m"
  by (rule ext, rule ext) (simp split: outcome.split)

lemma bnd_Ret_iff:
  "bnd m f s sch = Ret b t sch'' \<longleftrightarrow>
     (\<exists>a s' sch'. m s sch = Ret a s' sch' \<and> f a s' sch' = Ret b t sch'')"
  by (simp split: outcome.split)

section \<open>Preservation of an invariant\<close>

definition env_keeps :: "('s \<Rightarrow> bool) \<Rightarrow> 's sched \<Rightarrow> bool" where
  "env_keeps I sch \<longleftrightarrow> (\<forall>f\<in>set sch. \<forall>s. I s \<longrightarrow> I (f s))"

definition okafter :: "('s \<Rightarrow> bool) \<Rightarrow> ('s, 'a) outcome \<Rightarrow> bool" where
  "okafter I r = (case r of Ret a s sch \<Rightarrow> I s \<and> env_keeps I sch | Fail e \<Rightarrow> True | Asleep c s \<Rightarrow> I s)"

definition keeps :: "('s \<Rightarrow> bool) \<Rightarrow> ('s, 'a) km \<Rightarrow> bool" where
  "keeps I m \<longleftrightarrow> (\<forall>s sch. I s \<longrightarrow> env_keeps I sch \<longrightarrow> okafter I (m s sch))"

lemma env_keeps_Nil [simp]: "env_keeps I []"
  by (simp add: env_keeps_def)

lemma env_keeps_Cons [simp]:
  "env_keeps I (f # fs) \<longleftrightarrow> (\<forall>s. I s \<longrightarrow> I (f s)) \<and> env_keeps I fs"
  by (auto simp: env_keeps_def)

lemma okafter_simps [simp]:
  "okafter I (Ret a s sch) \<longleftrightarrow> I s \<and> env_keeps I sch"
  "okafter I (Fail e)"
  "okafter I (Asleep c s) \<longleftrightarrow> I s"
  by (simp_all add: okafter_def)

lemma keepsI: "(\<And>s sch. I s \<Longrightarrow> env_keeps I sch \<Longrightarrow> okafter I (m s sch)) \<Longrightarrow> keeps I m"
  by (simp add: keeps_def)

lemma keepsD: "keeps I m \<Longrightarrow> I s \<Longrightarrow> env_keeps I sch \<Longrightarrow> okafter I (m s sch)"
  by (simp add: keeps_def)

lemma keeps_Ret:
  "keeps I m \<Longrightarrow> I s \<Longrightarrow> env_keeps I sch \<Longrightarrow> m s sch = Ret a s' sch' \<Longrightarrow> I s' \<and> env_keeps I sch'"
  using keepsD [of I m s sch] by simp

lemma keeps_ret [keeps_rules]: "keeps I (ret a)"
  by (simp add: keeps_def)

lemma keeps_gets [keeps_rules]: "keeps I (gets f)"
  by (simp add: keeps_def)

lemma keeps_upd: "(\<And>s. I s \<Longrightarrow> I (f s)) \<Longrightarrow> keeps I (upd f)"
  by (simp add: keeps_def)

lemma keeps_failk [keeps_rules]: "keeps I (failk e)"
  by (simp add: keeps_def)

lemma keeps_panic [keeps_rules]: "keeps I (panic e)"
  by (simp add: keeps_def)

lemma keeps_oob [keeps_rules]: "keeps I (oob e)"
  by (simp add: keeps_def)

lemma keeps_requirek [keeps_rules]: "keeps I (requirek b e)"
  by (simp add: keeps_def)

lemma keeps_sleepk [keeps_rules]: "keeps I (sleepk c)"
  by (auto simp: keeps_def sleepk_def split: list.split)

lemma keeps_bnd [keeps_rules]:
  assumes m: "keeps I m" and f: "\<And>a. keeps I (f a)"
  shows "keeps I (bnd m f)"
proof (rule keepsI)
  fix s sch assume "I s" and "env_keeps I sch"
  with m have "okafter I (m s sch)" by (rule keepsD)
  then show "okafter I (bnd m f s sch)"
    by (cases "m s sch") (auto intro: keepsD [OF f])
qed

lemma keeps_thn [keeps_rules]: "keeps I m \<Longrightarrow> keeps I n \<Longrightarrow> keeps I (thn m n)"
  unfolding thn_def by (rule keeps_bnd)

lemma keeps_if [keeps_rules]:
  "(b \<Longrightarrow> keeps I m) \<Longrightarrow> (\<not> b \<Longrightarrow> keeps I n) \<Longrightarrow> keeps I (if b then m else n)"
  by simp

lemma keeps_case_option [keeps_rules]:
  "(x = None \<Longrightarrow> keeps I m) \<Longrightarrow> (\<And>a. x = Some a \<Longrightarrow> keeps I (f a)) \<Longrightarrow>
   keeps I (case x of None \<Rightarrow> m | Some a \<Rightarrow> f a)"
  by (cases x) simp_all

lemma keeps_let [keeps_rules]: "(\<And>x. keeps I (f x)) \<Longrightarrow> keeps I (let x = a in f x)"
  by simp

lemma keeps_seqk [keeps_rules]: "(\<And>m. m \<in> set ms \<Longrightarrow> keeps I m) \<Longrightarrow> keeps I (seqk ms)"
  by (induction ms) (auto intro: keeps_ret keeps_thn)

section \<open>Objects in memory\<close>

definition le16 :: "ushort \<Rightarrow> bytes" where
  "le16 w = [ucast w, ucast (drop_bit 8 w)]"

definition le32 :: "uint32 \<Rightarrow> bytes" where
  "le32 w = [ucast w, ucast (drop_bit 8 w), ucast (drop_bit 16 w), ucast (drop_bit 24 w)]"

definition mk16 :: "uchar \<Rightarrow> uchar \<Rightarrow> ushort" where
  "mk16 a b = ucast a OR push_bit 8 (ucast b)"

definition mk32 :: "uchar \<Rightarrow> uchar \<Rightarrow> uchar \<Rightarrow> uchar \<Rightarrow> uint32" where
  "mk32 a b c d = ucast a OR push_bit 8 (ucast b) OR push_bit 16 (ucast c) OR push_bit 24 (ucast d)"

definition rd16 :: "bytes \<Rightarrow> nat \<Rightarrow> ushort" where
  "rd16 bs i = mk16 (bs ! i) (bs ! Suc i)"

definition rd32 :: "bytes \<Rightarrow> nat \<Rightarrow> uint32" where
  "rd32 bs i = mk32 (bs ! i) (bs ! (i + 1)) (bs ! (i + 2)) (bs ! (i + 3))"

lemma length_le16 [simp]: "length (le16 w) = 2" by (simp add: le16_def)
lemma length_le32 [simp]: "length (le32 w) = 4" by (simp add: le32_def)

lemma mk16_bytes [simp]: "mk16 (ucast w) (ucast (drop_bit 8 w)) = w"
  by (rule bit_word_eqI) (auto simp: mk16_def bit_simps)

lemma mk32_bytes [simp]:
  "mk32 (ucast w) (ucast (drop_bit 8 w)) (ucast (drop_bit 16 w)) (ucast (drop_bit 24 w)) = w"
proof (rule bit_word_eqI)
  fix n assume "n < LENGTH(32)"
  then consider "n < 8" | "8 \<le> n" "n < 16" | "16 \<le> n" "n < 24" | "24 \<le> n" "n < 32"
    by fastforce
  then show "bit (mk32 (ucast w) (ucast (drop_bit 8 w)) (ucast (drop_bit 16 w))
      (ucast (drop_bit 24 w))) n = bit w n"
    by cases (auto simp: mk32_def bit_simps)
qed

lemma rd16_le16 [byte_simps]: "rd16 (le16 w) 0 = w"
  by (simp add: rd16_def le16_def)

lemma rd32_le32 [byte_simps]: "rd32 (le32 w) 0 = w"
  by (simp add: rd32_def le32_def)

lemma mk16_inj [simp]: "ucast (mk16 a b) = a" "ucast (drop_bit 8 (mk16 a b)) = b"
  by (rule bit_word_eqI; auto simp: mk16_def bit_simps dest: bit_imp_le_length)+

text \<open>\<open>memmove(p + off, data, n)\<close> on the object holding \<open>p\<close>.\<close>

definition splice_at :: "nat \<Rightarrow> 'a list \<Rightarrow> 'a list \<Rightarrow> 'a list" where
  "splice_at off new old = take off old @ new @ drop (off + length new) old"

lemma length_splice_at [simp]:
  "off + length new \<le> length old \<Longrightarrow> length (splice_at off new old) = length old"
  by (simp add: splice_at_def)

lemma take_drop_splice_at [simp]:
  "off + length new \<le> length old \<Longrightarrow> take (length new) (drop off (splice_at off new old)) = new"
  by (simp add: splice_at_def)

lemma nth_splice_at:
  "off + length new \<le> length old \<Longrightarrow> i < length old \<Longrightarrow>
   splice_at off new old ! i = (if off \<le> i \<and> i < off + length new then new ! (i - off) else old ! i)"
  by (auto simp: splice_at_def nth_append min_def)

section \<open>Byte-addressed memory\<close>

type_synonym memory = "uint32 \<Rightarrow> uchar"

definition mstore :: "uint32 \<Rightarrow> bytes \<Rightarrow> memory \<Rightarrow> memory" where
  "mstore a bs m = (\<lambda>x. if unat (x - a) < length bs then bs ! unat (x - a) else m x)"

definition mload :: "uint32 \<Rightarrow> nat \<Rightarrow> memory \<Rightarrow> bytes" where
  "mload a n m = map (\<lambda>i. m (a + of_nat i)) [0..<n]"

definition mload32 :: "uint32 \<Rightarrow> memory \<Rightarrow> uint32" where
  "mload32 a m = rd32 (mload a 4 m) 0"

lemma length_mload [simp]: "length (mload a n m) = n"
  by (simp add: mload_def)

lemma unat_of_nat_word: "n < 2 ^ 32 \<Longrightarrow> unat (of_nat n :: uint32) = n"
  by (simp add: unat_of_nat take_bit_eq_mod)

lemma mload_mstore: "length bs \<le> 2 ^ 32 \<Longrightarrow> mload a (length bs) (mstore a bs m) = bs"
  by (rule nth_equalityI) (auto simp: mload_def mstore_def unat_of_nat_word)

lemma mload_mstore_other:
  assumes "\<And>i. i < n \<Longrightarrow> length bs \<le> unat (a + of_nat i - b)"
  shows "mload a n (mstore b bs m) = mload a n m"
  using assms by (fastforce simp: mload_def mstore_def dest: leD)

lemma mload32_mstore [simp]: "mload32 a (mstore a (le32 w) m) = w"
  using mload_mstore [of "le32 w" a m] by (simp add: mload32_def rd32_le32)

section \<open>Locks of a component\<close>

text \<open>
  The kernel code of one processor as it sees a spin lock: \<^verbatim>\<open>acquire\<close> panics when the lock is
  already held by this processor and \<^verbatim>\<open>release\<close> panics when it is not. The rest of the system
  runs only where the schedule says so, that is, inside \<^verbatim>\<open>sleep\<close>.
\<close>

definition lock_acquire :: "('s \<Rightarrow> bool) \<Rightarrow> ((bool \<Rightarrow> bool) \<Rightarrow> 's \<Rightarrow> 's) \<Rightarrow> ('s, unit) km" where
  "lock_acquire held put = bnd (gets held) (\<lambda>l. if l then panic ''acquire'' else upd (put (\<lambda>_. True)))"

definition lock_release :: "('s \<Rightarrow> bool) \<Rightarrow> ((bool \<Rightarrow> bool) \<Rightarrow> 's \<Rightarrow> 's) \<Rightarrow> ('s, unit) km" where
  "lock_release held put = bnd (gets held) (\<lambda>l. if l then upd (put (\<lambda>_. False)) else panic ''release'')"

lemma lock_acquire_app [simp]:
  "lock_acquire held put s sch = (if held s then Fail (Panic ''acquire'') else Ret () (put (\<lambda>_. True) s) sch)"
  by (simp add: lock_acquire_def)

lemma lock_release_app [simp]:
  "lock_release held put s sch = (if held s then Ret () (put (\<lambda>_. False) s) sch else Fail (Panic ''release''))"
  by (simp add: lock_release_def)

text \<open>Running an action of a component inside a larger state.\<close>

definition zoom :: "('s \<Rightarrow> 't) \<Rightarrow> (('t \<Rightarrow> 't) \<Rightarrow> 's \<Rightarrow> 's) \<Rightarrow> ('t, 'a) km \<Rightarrow> ('s, 'a) km" where
  "zoom get put m s sch =
     (case m (get s) [] of
        Ret a t _ \<Rightarrow> Ret a (put (\<lambda>_. t) s) sch
      | Fail e \<Rightarrow> Fail e
      | Asleep c t \<Rightarrow> Asleep c (put (\<lambda>_. t) s))"

text \<open>The state change that a whole action of the rest of the system makes.\<close>

definition run_env :: "('s, 'a) km \<Rightarrow> 's \<Rightarrow> 's" where
  "run_env m s = (case m s [] of Ret a s' sch \<Rightarrow> s' | Fail e \<Rightarrow> s | Asleep c s' \<Rightarrow> s')"

section \<open>Searching a table\<close>

text \<open>The loop \<^verbatim>\<open>for(i = 0; i < n; i++) if(P(t[i])) break;\<close>: the first index that qualifies.\<close>

fun find_idx :: "('a \<Rightarrow> bool) \<Rightarrow> 'a list \<Rightarrow> nat option" where
  "find_idx P [] = None"
| "find_idx P (x # xs) = (if P x then Some 0 else map_option Suc (find_idx P xs))"

lemma find_idx_None_iff: "find_idx P xs = None \<longleftrightarrow> (\<forall>x\<in>set xs. \<not> P x)"
  by (induction xs) auto

lemma find_idx_SomeD:
  "find_idx P xs = Some i \<Longrightarrow> i < length xs \<and> P (xs ! i) \<and> (\<forall>j<i. \<not> P (xs ! j))"
proof (induction xs arbitrary: i)
  case Nil
  then show ?case by simp
next
  case (Cons x xs)
  show ?case
  proof (cases "P x")
    case True
    with Cons.prems show ?thesis by simp
  next
    case False
    with Cons.prems obtain k where "find_idx P xs = Some k" "i = Suc k" by auto
    with Cons.IH [of k] False show ?thesis by (auto simp: less_Suc_eq_0_disj)
  qed
qed

lemma find_idx_Some_iff:
  "find_idx P xs = Some i \<longleftrightarrow> i < length xs \<and> P (xs ! i) \<and> (\<forall>j<i. \<not> P (xs ! j))"
proof
  assume r: "i < length xs \<and> P (xs ! i) \<and> (\<forall>j<i. \<not> P (xs ! j))"
  then have "find_idx P xs \<noteq> None" by (auto simp: find_idx_None_iff)
  then obtain k where k: "find_idx P xs = Some k" by blast
  with find_idx_SomeD [OF k] r have "k = i" by (metis linorder_neqE_nat)
  with k show "find_idx P xs = Some i" by simp
qed (rule find_idx_SomeD)

lemma find_idx_ex: "i < length xs \<Longrightarrow> P (xs ! i) \<Longrightarrow> \<exists>k. find_idx P xs = Some k"
  by (metis find_idx_None_iff not_None_eq nth_mem)

lemma nth_upd: "j < length xs \<Longrightarrow> xs[i := v] ! j = (if i = j then v else xs ! j)"
  by auto

section \<open>Ring buffers\<close>

text \<open>A counter of 32 bits that is reduced modulo a buffer size that divides \<open>2 ^ 32\<close> keeps running around
  the buffer when it wraps.\<close>

lemma ring_mod:
  assumes "N dvd 4294967296"
  shows "unat (w + of_nat k :: uint32) mod N = (unat w + k) mod N"
proof -
  have "unat (w + of_nat k :: uint32) = (unat w + k) mod 4294967296"
    by (simp add: unat_word_ariths unat_of_nat take_bit_eq_mod mod_add_right_eq)
  then show ?thesis using mod_mod_cancel [OF assms, of "unat w + k"] by simp
qed

lemma mod_distinct: "k < m \<Longrightarrow> m < k + N \<Longrightarrow> (r + k) mod N \<noteq> (r + m) mod (N :: nat)"
proof
  assume k: "k < m" "m < k + N" "(r + k) mod N = (r + m) mod N"
  then have "N dvd (r + m) - (r + k)" using mod_eq_dvd_iff_nat [of "r + k" "r + m" N] by (simp only: add_le_cancel_left less_imp_le simp_thms)
  then have "N dvd m - k" by simp
  then show False using k(1,2) dvd_imp_le [of N "m - k"] by linarith
qed

end
