(* ===== verification/Printf.thy ===== *)
theory Printf
  imports Prelude
begin

text \<open>
  Formatted output: \<^verbatim>\<open>printint\<close> and \<^verbatim>\<open>cprintf\<close> of \<^verbatim>\<open>src/console.c\<close> and \<^verbatim>\<open>printint\<close> and \<^verbatim>\<open>printf\<close> of
  \<^verbatim>\<open>src/printf.c\<close>, as functions from the format and its arguments to the characters they
  print. \<open>None\<close> is an overrun of the digit buffer or a format that asks for an argument
  that was not passed. A string is the list of its characters before the NUL.
  The negation of the most negative number wraps around, as compilers for this machine do; C leaves it undefined.
  The lemmas show that the 16-byte digit buffer is never overrun and that the printed digits
  denote the number.
\<close>

section \<open>Digits\<close>

definition str :: "string \<Rightarrow> bytes" where
  "str s = map of_char s"

definition digits_lower :: bytes where
  "digits_lower = str ''0123456789abcdef''"

definition digits_upper :: bytes where
  "digits_upper = str ''0123456789ABCDEF''"

text \<open>The characters the formats dispatch on.\<close>

abbreviation ch_pct :: uchar where "ch_pct \<equiv> 0x25"
abbreviation ch_minus :: uchar where "ch_minus \<equiv> 0x2d"
abbreviation ch_c :: uchar where "ch_c \<equiv> 0x63"
abbreviation ch_d :: uchar where "ch_d \<equiv> 0x64"
abbreviation ch_p :: uchar where "ch_p \<equiv> 0x70"
abbreviation ch_s :: uchar where "ch_s \<equiv> 0x73"
abbreviation ch_x :: uchar where "ch_x \<equiv> 0x78"

definition PRINT_BUF :: nat where "PRINT_BUF = 16"

text \<open>The \<^verbatim>\<open>do ... while\<close> loop that fills \<open>buf\<close>, least significant digit first; \<open>room\<close> is what
  is left of \<open>buf\<close>.\<close>

fun fill_digits :: "nat \<Rightarrow> bytes \<Rightarrow> nat \<Rightarrow> nat \<Rightarrow> bytes option" where
  "fill_digits 0 ds base x = None"
| "fill_digits (Suc room) ds base x =
     (let d = ds ! (x mod base); q = x div base
      in if q = 0 then Some [d]
         else map_option (Cons d) (fill_digits room ds base q))"

definition printint_gen :: "bytes \<Rightarrow> uint32 \<Rightarrow> nat \<Rightarrow> bool \<Rightarrow> bytes option" where
  "printint_gen ds xx base sgnd =
     (let neg = (sgnd \<and> xx <s 0); x = (if neg then - xx else xx) in
      case fill_digits PRINT_BUF ds base (unat x) of
        None \<Rightarrow> None
      | Some buf \<Rightarrow>
          if neg
          then (if length buf < PRINT_BUF then Some (rev (buf @ [ch_minus])) else None)
          else Some (rev buf))"

definition printint :: "uint32 \<Rightarrow> nat \<Rightarrow> bool \<Rightarrow> bytes option" where
  "printint = printint_gen digits_lower"

definition u_printint :: "uint32 \<Rightarrow> nat \<Rightarrow> bool \<Rightarrow> bytes option" where
  "u_printint = printint_gen digits_upper"

section \<open>Formats\<close>

datatype parg = AInt uint32 | AStr "bytes option"

definition null_str :: bytes where "null_str = str ''(null)''"

definition out_app :: "bytes \<Rightarrow> bytes option \<Rightarrow> bytes option" where
  "out_app out rest = map_option (\<lambda>r. out @ r) rest"

text \<open>One conversion: the \<^verbatim>\<open>switch\<close> on the character after the percent sign. It yields what is
  printed and the arguments that are left.\<close>

fun take_int :: "(uint32 \<Rightarrow> bytes option) \<Rightarrow> parg list \<Rightarrow> (bytes \<times> parg list) option" where
  "take_int f (AInt w # as) = map_option (\<lambda>out. (out, as)) (f w)"
| "take_int f _ = None"

fun take_str :: "parg list \<Rightarrow> (bytes \<times> parg list) option" where
  "take_str (AStr None # as) = Some (null_str, as)"
| "take_str (AStr (Some s) # as) = Some (takeWhile (\<lambda>ch. ch \<noteq> 0) s, as)"
| "take_str _ = None"

definition cprintf_conv :: "uchar \<Rightarrow> parg list \<Rightarrow> (bytes \<times> parg list) option" where
  "cprintf_conv d as =
     (if d = ch_d then take_int (\<lambda>w. printint w 10 True) as
      else if d = ch_x \<or> d = ch_p then take_int (\<lambda>w. printint w 16 False) as
      else if d = ch_s then take_str as
      else if d = ch_pct then Some ([ch_pct], as)
      else Some ([ch_pct, d], as))"

fun cprintf :: "bytes \<Rightarrow> parg list \<Rightarrow> bytes option" where
  "cprintf [] as = Some []"
| "cprintf (c # cs) as =
     (if c = 0 then Some []
      else if c \<noteq> ch_pct then out_app [c] (cprintf cs as)
      else (case cs of
          [] \<Rightarrow> Some []
        | d # cs' \<Rightarrow>
            if d = 0 then Some []
            else (case cprintf_conv d as of
                    None \<Rightarrow> None
                  | Some (out, as') \<Rightarrow> out_app out (cprintf cs' as'))))"

text \<open>The user-level \<^verbatim>\<open>printf\<close> is a two-state machine over the format; \<open>pct\<close> is \<^verbatim>\<open>state == '%'\<close>.\<close>

definition u_printf_conv :: "uchar \<Rightarrow> parg list \<Rightarrow> (bytes \<times> parg list) option" where
  "u_printf_conv c as =
     (if c = ch_d then take_int (\<lambda>w. u_printint w 10 True) as
      else if c = ch_x \<or> c = ch_p then take_int (\<lambda>w. u_printint w 16 False) as
      else if c = ch_s then take_str as
      else if c = ch_c then take_int (\<lambda>w. Some [ucast w]) as
      else if c = ch_pct then Some ([c], as)
      else Some ([ch_pct, c], as))"

fun u_printf :: "bool \<Rightarrow> bytes \<Rightarrow> parg list \<Rightarrow> bytes option" where
  "u_printf pct [] as = Some []"
| "u_printf pct (c # cs) as =
     (if c = 0 then Some []
      else if \<not> pct then
        (if c = ch_pct then u_printf True cs as else out_app [c] (u_printf False cs as))
      else (case u_printf_conv c as of
              None \<Rightarrow> None
            | Some (out, as') \<Rightarrow> out_app out (u_printf False cs as')))"

section \<open>The digit loop\<close>

text \<open>What a list of digit values denotes, least significant first.\<close>

fun denote :: "nat \<Rightarrow> nat list \<Rightarrow> nat" where
  "denote base [] = 0"
| "denote base (d # ds) = d + base * denote base ds"

lemma fill_digits_enough:
  "0 < r \<Longrightarrow> 1 < base \<Longrightarrow> x < base ^ r \<Longrightarrow>
   \<exists>vs. fill_digits r ds base x = Some (map ((!) ds) vs) \<and> denote base vs = x \<and>
        (\<forall>v\<in>set vs. v < base) \<and> vs \<noteq> [] \<and> length vs \<le> r"
proof (induction r arbitrary: x)
  case 0
  then show ?case by simp
next
  case (Suc r)
  show ?case
  proof (cases "x div base = 0")
    case True
    have "x mod base = x" using True Suc.prems by (simp add: div_eq_0_iff)
    with True Suc.prems show ?thesis
      by (intro exI [of _ "[x]"]) (auto simp: Let_def div_eq_0_iff)
  next
    case False
    have r: "0 < r"
      using False Suc.prems by (cases r) (auto simp: div_eq_0_iff)
    have "x div base < base ^ r"
      using Suc.prems by (simp add: less_mult_imp_div_less mult.commute)
    then obtain vs where vs: "fill_digits r ds base (x div base) = Some (map ((!) ds) vs)"
      "denote base vs = x div base" "\<forall>v\<in>set vs. v < base" "vs \<noteq> []" "length vs \<le> r"
      using Suc.IH [OF r] Suc.prems by blast
    from vs False Suc.prems show ?thesis
      by (intro exI [of _ "x mod base # vs"]) (auto simp: Let_def)
  qed
qed

lemma fill_digits_word:
  assumes "base = 10 \<or> base = 16"
  shows "\<exists>vs. fill_digits PRINT_BUF ds base (unat (x :: uint32)) = Some (map ((!) ds) vs) \<and>
              denote base vs = unat x \<and> (\<forall>v\<in>set vs. v < base) \<and> vs \<noteq> [] \<and> length vs < PRINT_BUF"
proof -
  have "unat x < 2 ^ 32" using unsigned_less [of x] by simp
  then have b: "unat x < base ^ 10" using assms by (auto intro: less_le_trans)
  then have b': "unat x < base ^ PRINT_BUF"
    using assms by (auto simp: PRINT_BUF_def intro: less_le_trans)
  obtain vs where vs: "fill_digits 10 ds base (unat x) = Some (map ((!) ds) vs)"
    "denote base vs = unat x" "\<forall>v\<in>set vs. v < base" "vs \<noteq> []" "length vs \<le> 10"
    using fill_digits_enough [of 10 base "unat x" ds] b assms by auto
  have mono: "fill_digits r ds base y = Some zs \<Longrightarrow> fill_digits (r + k) ds base y = Some zs" for r k y zs
  proof (induction r arbitrary: y zs)
    case 0 then show ?case by simp
  next
    case (Suc r) then show ?case by (auto simp: Let_def split: if_splits)
  qed
  from mono [OF vs(1), of 6] vs show ?thesis by (auto simp: PRINT_BUF_def)
qed

lemma printint_value:
  assumes "base = 10 \<or> base = 16"
  shows "\<exists>vs. vs \<noteq> [] \<and> (\<forall>v\<in>set vs. v < base) \<and>
           (let neg = (sgnd \<and> xx <s 0) in
            denote base vs = unat (if neg then - xx else xx) \<and>
            printint xx base sgnd = Some ((if neg then [ch_minus] else []) @
                                         rev (map ((!) digits_lower) vs)))"
proof -
  define neg where "neg = (sgnd \<and> xx <s 0)"
  define x where "x = (if neg then - xx else xx)"
  obtain vs where vs: "fill_digits PRINT_BUF digits_lower base (unat x) = Some (map ((!) digits_lower) vs)"
    "denote base vs = unat x" "\<forall>v\<in>set vs. v < base" "vs \<noteq> []" "length vs < PRINT_BUF"
    using fill_digits_word [OF assms] by blast
  then have "printint xx base sgnd = Some ((if neg then [ch_minus] else []) @
                                         rev (map ((!) digits_lower) vs))"
    by (auto simp: printint_def printint_gen_def Let_def x_def neg_def)
  with vs show ?thesis
    by (intro exI [of _ vs]) (auto simp: Let_def x_def neg_def)
qed

text \<open>C40: printing an integer never overruns the 16-byte digit buffer, and the digits that
  come out, most significant first after an optional minus sign, denote its absolute value.\<close>

theorem printint_total:
  assumes "base = 10 \<or> base = 16"
  shows "\<exists>vs. vs \<noteq> [] \<and> (\<forall>v\<in>set vs. v < base) \<and>
           (let neg = (sgnd \<and> xx <s 0) in
            denote base vs = unat (if neg then - xx else xx) \<and>
            printint xx base sgnd = Some ((if neg then [ch_minus] else []) @
                                         rev (map ((!) digits_lower) vs)))"
  using assms by (rule printint_value)

theorem printint_total_witness:
  "((10::nat) = 10 \<or> (10::nat) = 16) \<and> printint (- 42) 10 True = Some (str ''-42'') \<and>
   (\<exists>vs. vs \<noteq> [] \<and> denote 10 vs = 42)"
proof -
  have s: "(- 42 :: uint32) <s 0" by code_simp
  have e: "printint (- 42) 10 True = Some (str ''-42'')" by code_simp
  show ?thesis using printint_total [of 10 True "- 42"] s e by (auto simp: Let_def)
qed

end
