(* ===== verification/Kalloc.thy ===== *)
theory Kalloc
  imports Prelude
begin

text \<open>
  \<^verbatim>\<open>src/kalloc.c\<close>: the physical page allocator. The free pages form a linked list whose links are
  stored in the first word of each free page. The address \<open>kend\<close> (the linker's \<^verbatim>\<open>end\<close>, the first
  address after the kernel) is a parameter.

  \<open>free_pages\<close> relates the list in memory to a list of page addresses. The locale
  \<open>page_allocator\<close> is the contract that clients rely on: an allocated page was free and is not
  free any more, and freeing a page makes it the next one allocated.
\<close>

section \<open>Layout of memory\<close>

definition PGSIZE :: uint32 where "PGSIZE = 4096"
definition KERNBASE :: uint32 where "KERNBASE = 0x80000000"
definition PHYSTOP :: uint32 where "PHYSTOP = 0x20000000"

definition V2P :: "uint32 \<Rightarrow> uint32" where "V2P a = a - KERNBASE"
definition P2V :: "uint32 \<Rightarrow> uint32" where "P2V a = a + KERNBASE"

definition PGROUNDUP :: "uint32 \<Rightarrow> uint32" where "PGROUNDUP sz = (sz + PGSIZE - 1) AND NOT (PGSIZE - 1)"
definition PGROUNDDOWN :: "uint32 \<Rightarrow> uint32" where "PGROUNDDOWN a = a AND NOT (PGSIZE - 1)"

section \<open>The allocator\<close>

record kmem =
  km_lock :: bool
  use_lock :: bool
  freelist :: uint32
  mem :: memory

abbreviation acquire_kmem :: "(kmem, unit) km" where
  "acquire_kmem \<equiv> lock_acquire km_lock km_lock_update"
abbreviation release_kmem :: "(kmem, unit) km" where
  "release_kmem \<equiv> lock_release km_lock km_lock_update"

definition when_locking :: "(kmem, unit) km \<Rightarrow> (kmem, unit) km" where
  "when_locking m = bnd (gets use_lock) (\<lambda>b. if b then m else ret ())"

definition kfree :: "uint32 \<Rightarrow> uint32 \<Rightarrow> (kmem, unit) km" where
  "kfree kend v =
     (if v mod PGSIZE \<noteq> 0 \<or> v < kend \<or> V2P v \<ge> PHYSTOP then panic ''kfree''
      else seqk [
        upd (\<lambda>k. k\<lparr>mem := mstore v (replicate (unat PGSIZE) 1) (mem k)\<rparr>),
        when_locking acquire_kmem,
        upd (\<lambda>k. k\<lparr>mem := mstore v (le32 (freelist k)) (mem k)\<rparr>),
        upd (\<lambda>k. k\<lparr>freelist := v\<rparr>),
        when_locking release_kmem])"

definition kalloc :: "(kmem, uint32) km" where
  "kalloc =
     thn (when_locking acquire_kmem)
     (bnd (gets freelist) (\<lambda>r.
      thn (if r \<noteq> 0 then upd (\<lambda>k. k\<lparr>freelist := mload32 r (mem k)\<rparr>) else ret ())
      (thn (when_locking release_kmem)
       (ret r))))"

text \<open>The loop of \<open>freerange\<close>: \<open>p + PGSIZE <= vend\<close> compares pointers, so the addition is on
  machine words; \<open>n\<close> bounds the iterations by the number of pages of the address space.\<close>

fun freerange_loop :: "nat \<Rightarrow> uint32 \<Rightarrow> uint32 \<Rightarrow> uint32 \<Rightarrow> (kmem, unit) km" where
  "freerange_loop 0 kend p vend = ret ()"
| "freerange_loop (Suc n) kend p vend =
     (if p + PGSIZE \<le> vend then thn (kfree kend p) (freerange_loop n kend (p + PGSIZE) vend)
      else ret ())"

definition freerange :: "uint32 \<Rightarrow> uint32 \<Rightarrow> uint32 \<Rightarrow> (kmem, unit) km" where
  "freerange kend vstart vend = freerange_loop (2 ^ 20) kend (PGROUNDUP vstart) vend"

definition kinit1 :: "uint32 \<Rightarrow> uint32 \<Rightarrow> uint32 \<Rightarrow> (kmem, unit) km" where
  "kinit1 kend vstart vend = seqk [
     upd (\<lambda>k. k\<lparr>km_lock := False\<rparr>),
     upd (\<lambda>k. k\<lparr>use_lock := False\<rparr>),
     freerange kend vstart vend]"

definition kinit2 :: "uint32 \<Rightarrow> uint32 \<Rightarrow> uint32 \<Rightarrow> (kmem, unit) km" where
  "kinit2 kend vstart vend = seqk [
     freerange kend vstart vend,
     upd (\<lambda>k. k\<lparr>use_lock := True\<rparr>)]"

section \<open>The list of free pages\<close>

fun chain :: "memory \<Rightarrow> uint32 \<Rightarrow> uint32 list \<Rightarrow> bool" where
  "chain m a [] \<longleftrightarrow> a = 0"
| "chain m a (p # ps) \<longleftrightarrow> a = p \<and> p \<noteq> 0 \<and> chain m (mload32 p m) ps"

definition valid_page :: "uint32 \<Rightarrow> uint32 \<Rightarrow> bool" where
  "valid_page kend p \<longleftrightarrow> p mod PGSIZE = 0 \<and> kend \<le> p \<and> V2P p < PHYSTOP"

definition free_pages :: "uint32 \<Rightarrow> kmem \<Rightarrow> uint32 list \<Rightarrow> bool" where
  "free_pages kend k ps \<longleftrightarrow>
     chain (mem k) (freelist k) ps \<and> distinct ps \<and> (\<forall>p\<in>set ps. valid_page kend p) \<and> \<not> km_lock k"

lemma chain_det: "chain m a ps \<Longrightarrow> chain m a qs \<Longrightarrow> ps = qs"
proof (induction ps arbitrary: a qs)
  case Nil
  then show ?case by (cases qs) auto
next
  case (Cons p ps)
  then show ?case by (cases qs) auto
qed

text \<open>Stores into a page leave the links of the other pages alone.\<close>

lemma aligned_iff: "(p :: uint32) mod 4096 = 0 \<longleftrightarrow> unat p mod 4096 = 0"
proof -
  have "p mod 4096 = 0 \<longleftrightarrow> unat (p mod 4096) = 0" by (rule unat_eq_0 [symmetric])
  then show ?thesis by (simp add: unat_mod_distrib)
qed

lemma pages_apart:
  assumes "p mod 4096 = 0" "v mod 4096 = 0" "p \<noteq> (v :: uint32)" "i < 4096"
  shows "4096 \<le> unat (p + of_nat i - v)"
proof -
  obtain a b where ab: "unat p = 4096 * a" "unat v = 4096 * b"
    using assms unfolding aligned_iff by (metis mod_0_imp_dvd dvdE)
  have lt: "unat p < 2 ^ LENGTH(32)" "unat v < 2 ^ LENGTH(32)" by (rule unsigned_less)+
  have ne: "a \<noteq> b" using ab assms(3) by (metis unsigned_word_eqI)
  have pi: "unat (p + of_nat i) = 4096 * a + i"
    using lt ab assms(4) by (simp add: unat_plus_if' unat_of_nat_word)
  show ?thesis
    using lt ab ne assms(4) by (auto simp: unat_sub_if' pi)
qed

lemma mload32_other_page:
  assumes "valid_page kend p" "valid_page kend v" "p \<noteq> v" "length bs \<le> 4096"
  shows "mload32 p (mstore v bs m) = mload32 p m"
proof -
  have "length bs \<le> unat (p + of_nat i - v)" if "i < 4" for i
    using pages_apart [of p v i] assms that by (simp add: valid_page_def PGSIZE_def)
  then show ?thesis by (simp add: mload32_def mload_mstore_other)
qed

lemma chain_mstore:
  assumes "valid_page kend v" "v \<notin> set ps" "\<forall>p\<in>set ps. valid_page kend p" "length bs \<le> 4096"
  shows "chain (mstore v bs m) a ps \<longleftrightarrow> chain m a ps"
  using assms
proof (induction ps arbitrary: a)
  case Nil
  then show ?case by simp
next
  case (Cons p ps)
  have "mload32 p (mstore v bs m) = mload32 p m"
    using Cons.prems by (intro mload32_other_page) auto
  with Cons show ?case by auto
qed

definition after_kfree :: "uint32 \<Rightarrow> kmem \<Rightarrow> kmem" where
  "after_kfree v k =
     k\<lparr>mem := mstore v (le32 (freelist k)) (mstore v (replicate 4096 1) (mem k)), freelist := v\<rparr>"

lemma kfree_run:
  assumes "valid_page kend v" "\<not> km_lock k"
  shows "kfree kend v k sch = Ret () (after_kfree v k) sch"
proof -
  have "\<not> (v mod PGSIZE \<noteq> 0 \<or> v < kend \<or> V2P v \<ge> PHYSTOP)"
    using assms by (auto simp: valid_page_def)
  then show ?thesis
    using assms(2) by (auto simp: kfree_def when_locking_def after_kfree_def PGSIZE_def)
qed

lemma kfree_free_pages:
  assumes fp: "free_pages kend k ps" and v: "valid_page kend v" "v \<noteq> 0" "v \<notin> set ps"
  shows "kfree kend v k sch = Ret () (after_kfree v k) sch \<and> free_pages kend (after_kfree v k) (v # ps)"
proof -
  have nl: "\<not> km_lock k" and ch: "chain (mem k) (freelist k) ps"
    and va: "\<forall>p\<in>set ps. valid_page kend p" and di: "distinct ps"
    using fp by (auto simp: free_pages_def)
  have "chain (mstore v (replicate 4096 1) (mem k)) (freelist k) ps"
    using chain_mstore [OF v(1,3) va, of "replicate 4096 1"] ch by simp
  then have "chain (mem (after_kfree v k)) (freelist k) ps"
    using chain_mstore [OF v(1,3) va, of "le32 (freelist k)"] by (simp add: after_kfree_def)
  then show ?thesis
    using kfree_run [OF v(1) nl] v va di nl by (simp add: free_pages_def after_kfree_def)
qed

lemma kfree_panics:
  "\<not> valid_page kend v \<Longrightarrow> kfree kend v k sch = Fail (Panic ''kfree'')"
proof -
  assume "\<not> valid_page kend v"
  then have "v mod PGSIZE \<noteq> 0 \<or> v < kend \<or> V2P v \<ge> PHYSTOP"
    unfolding valid_page_def by (metis not_less)
  then show ?thesis unfolding kfree_def by (simp only: if_True panic_app)
qed

lemma kalloc_run:
  assumes "\<not> km_lock k"
  shows "kalloc k sch =
     (if freelist k = 0 then Ret 0 k sch
      else Ret (freelist k) (k\<lparr>freelist := mload32 (freelist k) (mem k)\<rparr>) sch)"
proof (cases "use_lock k")
  case True
  then show ?thesis
    using assms by (cases k) (auto simp: kalloc_def when_locking_def)
next
  case False
  then show ?thesis
    using assms by (cases k) (auto simp: kalloc_def when_locking_def)
qed

lemma kalloc_free_pages:
  assumes fp: "free_pages kend k ps"
  shows "case ps of
      [] \<Rightarrow> kalloc k sch = Ret 0 k sch
    | p # ps' \<Rightarrow> \<exists>k'. kalloc k sch = Ret p k' sch \<and> free_pages kend k' ps' \<and> mem k' = mem k"
proof (cases ps)
  case Nil
  with fp show ?thesis by (simp add: free_pages_def kalloc_run)
next
  case (Cons p ps')
  with fp show ?thesis by (simp add: free_pages_def kalloc_run)
qed

section \<open>The contract of a page allocator\<close>

text \<open>A client that allocates \<open>n\<close> pages one after the other.\<close>

fun alloc_n :: "('k, uint32) km \<Rightarrow> nat \<Rightarrow> ('k, uint32 list) km" where
  "alloc_n alloc 0 = ret []"
| "alloc_n alloc (Suc n) = bnd alloc (\<lambda>p. bnd (alloc_n alloc n) (\<lambda>ps. ret (p # ps)))"

locale page_allocator =
  fixes pages :: "'k \<Rightarrow> uint32 list \<Rightarrow> bool"
    and alloc :: "('k, uint32) km"
    and release_page :: "uint32 \<Rightarrow> ('k, unit) km"
    and is_page :: "uint32 \<Rightarrow> bool"
  assumes page_nonzero: "pages k ps \<Longrightarrow> p \<in> set ps \<Longrightarrow> p \<noteq> 0"
    and pages_valid: "pages k ps \<Longrightarrow> distinct ps \<and> (\<forall>p\<in>set ps. is_page p)"
    and alloc_none: "pages k [] \<Longrightarrow> alloc k sch = Ret 0 k sch"
    and alloc_some: "pages k (p # ps) \<Longrightarrow> \<exists>k'. alloc k sch = Ret p k' sch \<and> pages k' ps"
    and release_ok: "pages k ps \<Longrightarrow> is_page v \<Longrightarrow> v \<noteq> 0 \<Longrightarrow> v \<notin> set ps \<Longrightarrow>
      \<exists>k'. release_page v k sch = Ret () k' sch \<and> pages k' (v # ps)"
begin

lemma alloc_n_distinct:
  "pages k ps \<Longrightarrow> n \<le> length ps \<Longrightarrow>
   \<exists>k'. alloc_n alloc n k sch = Ret (take n ps) k' sch \<and> pages k' (drop n ps)"
proof (induction n arbitrary: k ps)
  case 0
  then show ?case by simp
next
  case (Suc n)
  then obtain p ps' where ps: "ps = p # ps'" by (cases ps) auto
  with Suc.prems obtain k1 where k1: "alloc k sch = Ret p k1 sch" "pages k1 ps'"
    using alloc_some by blast
  then obtain k2 where "alloc_n alloc n k1 sch = Ret (take n ps') k2 sch" "pages k2 (drop n ps')"
    using Suc.IH [OF k1(2)] Suc.prems ps by auto
  with k1 ps show ?case by auto
qed

lemma realloc_same:
  assumes "pages k ps" "is_page v" "v \<noteq> 0" "v \<notin> set ps"
  shows "\<exists>k'. bnd (release_page v) (\<lambda>_. alloc) k sch = Ret v k' sch \<and> pages k' ps"
proof -
  obtain k1 where k1: "release_page v k sch = Ret () k1 sch" "pages k1 (v # ps)"
    using release_ok [OF assms] by blast
  with alloc_some [OF k1(2), of sch] show ?thesis by auto
qed

end

interpretation kpages: page_allocator "free_pages kend" kalloc "kfree kend" "valid_page kend" for kend
proof unfold_locales
  fix k ps p v sch
  show "p \<noteq> 0" if "free_pages kend k ps" "p \<in> set ps"
  proof -
    have "chain m a qs \<Longrightarrow> p \<in> set qs \<Longrightarrow> p \<noteq> 0" for m a qs
      by (induction m a qs rule: chain.induct) auto
    with that show ?thesis by (auto simp: free_pages_def)
  qed
  show "distinct ps \<and> (\<forall>p\<in>set ps. valid_page kend p)" if "free_pages kend k ps"
    using that by (simp add: free_pages_def)
  show "kalloc k sch = Ret 0 k sch" if "free_pages kend k []"
    using kalloc_free_pages [OF that] by simp
  show "\<exists>k'. kalloc k sch = Ret p k' sch \<and> free_pages kend k' ps" if "free_pages kend k (p # ps)"
    using kalloc_free_pages [OF that] by auto
  show "\<exists>k'. kfree kend v k sch = Ret () k' sch \<and> free_pages kend k' (v # ps)"
    if "free_pages kend k ps" "valid_page kend v" "v \<noteq> 0" "v \<notin> set ps"
    using kfree_free_pages [OF that] by blast
qed

section \<open>Properties\<close>

text \<open>C27: as long as there are free pages, successive calls of \<open>kalloc\<close> return distinct valid pages,
  namely the first pages of the free list, and none of them is free afterwards.\<close>

theorem kalloc_distinct_pages:
  assumes "free_pages kend k ps" "n \<le> length ps"
  shows "\<exists>k'. alloc_n kalloc n k sch = Ret (take n ps) k' sch \<and> free_pages kend k' (drop n ps) \<and>
           distinct (take n ps) \<and> set (take n ps) \<inter> set (drop n ps) = {} \<and>
           (\<forall>p\<in>set (take n ps). valid_page kend p)"
proof -
  have "distinct ps" "\<forall>p\<in>set ps. valid_page kend p"
    using kpages.pages_valid [OF assms(1)] by auto
  with kpages.alloc_n_distinct [OF assms, of sch] show ?thesis
    by (auto simp: set_take_disj_set_drop_if_distinct dest: in_set_takeD)
qed

definition page_state :: kmem where
  "page_state = \<lparr>km_lock = False, use_lock = True, freelist = 0, mem = (\<lambda>_. 0)\<rparr>"

lemma page_state_free: "free_pages 0x80100000 page_state []"
  by (simp add: free_pages_def page_state_def)

theorem kalloc_distinct_pages_witness:
  "\<exists>k k'. free_pages 0x80100000 k [0x80101000] \<and> alloc_n kalloc 1 k [] = Ret [0x80101000] k' [] \<and>
          free_pages 0x80100000 k' []"
proof -
  have v: "valid_page 0x80100000 0x80101000"
    by (simp add: valid_page_def PGSIZE_def V2P_def KERNBASE_def PHYSTOP_def)
  define k where "k = after_kfree 0x80101000 page_state"
  have fp: "free_pages 0x80100000 k [0x80101000]"
    using kfree_free_pages [OF page_state_free v] by (simp add: k_def)
  show ?thesis using fp kalloc_distinct_pages [OF fp, of 1 "[]"] by auto
qed

text \<open>freeing a page that is not free and allocating again returns that page and leaves the
  free list as it was; a page that is not aligned, or not in the memory the allocator manages,
  makes \<open>kfree\<close> panic.\<close>

theorem kfree_kalloc:
  assumes "free_pages kend k ps" "v \<noteq> 0" "v \<notin> set ps"
  shows "if valid_page kend v
         then \<exists>k'. bnd (kfree kend v) (\<lambda>_. kalloc) k sch = Ret v k' sch \<and> free_pages kend k' ps
         else kfree kend v k sch = Fail (Panic ''kfree'')"
  using kpages.realloc_same [OF assms(1) _ assms(2,3)] by (simp add: kfree_panics)

theorem kfree_kalloc_witness:
  "\<exists>k'. bnd (kfree 0x80100000 0x80101000) (\<lambda>_. kalloc) page_state [] = Ret 0x80101000 k' [] \<and>
        free_pages 0x80100000 k' []"
proof -
  have v: "valid_page 0x80100000 0x80101000"
    by (simp add: valid_page_def PGSIZE_def V2P_def KERNBASE_def PHYSTOP_def)
  show ?thesis
    using kfree_kalloc [where v = "0x80101000" and sch = "[]", OF page_state_free] v by simp
qed

section \<open>Initialisation\<close>

definition page_at :: "uint32 \<Rightarrow> nat \<Rightarrow> uint32" where
  "page_at p i = p + of_nat (4096 * i)"

lemma page_at_Suc: "page_at (p + PGSIZE) i = page_at p (Suc i)"
  by (simp add: page_at_def PGSIZE_def)

lemma page_at_0 [simp]: "page_at p 0 = p"
  by (simp add: page_at_def)

lemma freerange_loop_pages:
  assumes "free_pages kend k ps"
    and "\<forall>i<m. valid_page kend (page_at p i) \<and> page_at p i \<noteq> 0 \<and> page_at p i \<notin> set ps"
    and "\<forall>i<m. \<forall>j<m. i \<noteq> j \<longrightarrow> page_at p i \<noteq> page_at p j"
    and "\<forall>i<m. page_at p i + PGSIZE \<le> vend" "\<not> page_at p m + PGSIZE \<le> vend" "m < fuel"
  shows "\<exists>k'. freerange_loop fuel kend p vend k sch = Ret () k' sch \<and>
              free_pages kend k' (rev (map (page_at p) [0..<m]) @ ps) \<and> use_lock k' = use_lock k"
  using assms
proof (induction m arbitrary: p fuel k ps)
  case 0
  then obtain f where "fuel = Suc f" by (cases fuel) auto
  with 0 show ?case by auto
next
  case (Suc m)
  then obtain f where f: "fuel = Suc f" by (cases fuel) auto
  have p: "valid_page kend p" "p \<noteq> 0" "p \<notin> set ps" "p + PGSIZE \<le> vend"
    using Suc.prems(2,4) by (metis page_at_0 zero_less_Suc)+
  define k1 where "k1 = after_kfree p k"
  have k1: "kfree kend p k sch = Ret () k1 sch" "free_pages kend k1 (p # ps)"
    using kfree_free_pages [OF Suc.prems(1) p(1,2,3)] by (auto simp: k1_def)
  have "page_at p (Suc i) \<noteq> p" if "i < m" for i
    using Suc.prems(3) that by (metis Suc_less_eq page_at_0 zero_less_Suc nat.distinct(1))
  then have "\<exists>k'. freerange_loop f kend (p + PGSIZE) vend k1 sch = Ret () k' sch \<and>
      free_pages kend k' (rev (map (page_at (p + PGSIZE)) [0..<m]) @ p # ps) \<and> use_lock k' = use_lock k1"
    using Suc.prems f by (intro Suc.IH [OF k1(2)]) (auto simp: page_at_Suc)
  then obtain k' where k': "freerange_loop f kend (p + PGSIZE) vend k1 sch = Ret () k' sch"
    "free_pages kend k' (rev (map (page_at (p + PGSIZE)) [0..<m]) @ p # ps)" "use_lock k' = use_lock k1"
    by blast
  have "use_lock k1 = use_lock k" by (simp add: k1_def after_kfree_def)
  have "map (page_at p) [0..<Suc m] = p # map (page_at (p + PGSIZE)) [0..<m]"
    by (simp add: page_at_Suc upt_conv_Cons map_Suc_upt [symmetric] comp_def del: upt_Suc map_Suc_upt)
  then have "rev (map (page_at p) [0..<Suc m]) @ ps = rev (map (page_at (p + PGSIZE)) [0..<m]) @ p # ps"
    by (simp del: upt_Suc)
  with \<open>use_lock k1 = use_lock k\<close> show ?case using k' k1(1) p(4) f by auto
qed

lemma unat_page_at: "unat p + 4096 * i < 2 ^ 32 \<Longrightarrow> unat (page_at p i) = unat p + 4096 * i"
proof -
  assume a: "unat p + 4096 * i < 2 ^ 32"
  then have "unat (of_nat (4096 * i) :: uint32) = 4096 * i" by (intro unat_of_nat_word) simp
  with a show ?thesis by (simp add: page_at_def unat_plus_if')
qed

text \<open>\<open>kinit1\<close> on an empty allocator puts exactly the whole pages between the rounded start and
  the end of the range on the free list, highest address first, and leaves locking off.\<close>

theorem kinit1_frees_range:
  assumes start: "PGROUNDUP vstart = p" "p mod PGSIZE = 0" "kend \<le> p" "KERNBASE \<le> p"
    and range: "p \<le> vend" "vend \<le> KERNBASE + PHYSTOP"
    and empty: "freelist k = 0"
    and m: "m = (unat vend - unat p) div 4096"
  shows "\<exists>k'. kinit1 kend vstart vend k sch = Ret () k' sch \<and> \<not> use_lock k' \<and>
              free_pages kend k' (rev (map (page_at p) [0..<m]))"
proof -
  have nat: "2147483648 \<le> unat p" "unat kend \<le> unat p" "unat p \<le> unat vend" "unat vend \<le> 2684354560"
    using start range by (simp_all add: word_le_nat_alt KERNBASE_def PHYSTOP_def)
  have bm: "unat p + 4096 * m \<le> unat vend" "unat vend < unat p + 4096 * m + 4096"
    using m nat(3) by linarith+
  have pa: "unat (page_at p i) = unat p + 4096 * i" if "i \<le> m" for i
    using that bm nat(4) by (intro unat_page_at) simp
  have ps: "unat (page_at p i + PGSIZE) = unat p + 4096 * i + 4096" if "i \<le> m" for i
    using pa [OF that] that bm nat(4) by (simp add: unat_plus_if' PGSIZE_def)
  have "unat p mod 4096 = 0" using start(2) by (simp add: PGSIZE_def aligned_iff)
  then have al: "page_at p i mod PGSIZE = 0" if "i \<le> m" for i
    using pa [OF that] by (simp add: PGSIZE_def aligned_iff)
  have valid: "valid_page kend (page_at p i)" if "i < m" for i
  proof -
    have "unat (V2P (page_at p i)) < unat PHYSTOP"
      using pa [of i] that bm nat by (simp add: V2P_def KERNBASE_def PHYSTOP_def unat_sub_if')
    then show ?thesis
      using al [of i] pa [of i] that nat
      by (auto simp: valid_page_def word_le_nat_alt word_less_nat_alt)
  qed
  define k0 where "k0 = k\<lparr>km_lock := False, use_lock := False\<rparr>"
  have "\<exists>k'. freerange_loop (2 ^ 20) kend p vend k0 sch = Ret () k' sch \<and>
      free_pages kend k' (rev (map (page_at p) [0..<m]) @ []) \<and> use_lock k' = use_lock k0"
  proof (rule freerange_loop_pages)
    show "free_pages kend k0 []" using empty by (simp add: free_pages_def k0_def)
    show "\<forall>i<m. valid_page kend (page_at p i) \<and> page_at p i \<noteq> 0 \<and> page_at p i \<notin> set []"
      using valid pa nat(1) by (force simp flip: unat_eq_0)
    show "\<forall>i<m. \<forall>j<m. i \<noteq> j \<longrightarrow> page_at p i \<noteq> page_at p j"
      using pa by (metis add_left_cancel less_imp_le mult_cancel1 zero_neq_numeral)
    show "\<forall>i<m. page_at p i + PGSIZE \<le> vend" using ps bm by (simp add: word_le_nat_alt)
    show "\<not> page_at p m + PGSIZE \<le> vend" using ps [of m] bm by (simp add: word_le_nat_alt)
    show "m < 2 ^ 20" using bm nat by simp
  qed
  then show ?thesis
    by (auto simp: kinit1_def freerange_def start(1) k0_def)
qed

theorem kinit1_frees_range_witness:
  "\<exists>k'. kinit1 0x80100000 0x80100001 0x80103000 page_state [] = Ret () k' [] \<and> \<not> use_lock k' \<and>
        free_pages 0x80100000 k' [0x80102000, 0x80101000]"
proof -
  have "\<exists>k'. kinit1 0x80100000 0x80100001 0x80103000 page_state [] = Ret () k' [] \<and> \<not> use_lock k' \<and>
        free_pages 0x80100000 k' (rev (map (page_at 0x80101000) [0..<2]))"
    by (rule kinit1_frees_range)
      (simp_all add: PGROUNDUP_def PGSIZE_def KERNBASE_def PHYSTOP_def page_state_def)
  moreover have "rev (map (page_at 0x80101000) [0..<2]) = [0x80102000, 0x80101000]"
    by (simp add: page_at_def upt_rec)
  ultimately show ?thesis by simp
qed

end
