(* ===== verification/BQueue.thy ===== *)
theory BQueue
  imports Prelude
begin

text \<open>
  The bounded queue of \<^verbatim>\<open>src/queue.h\<close> and \<^verbatim>\<open>src/queue.c\<close>, which holds the connection requests of a
  listening socket and the unacknowledged packets of a connection. Its contract is the locale
  \<open>bounded_fifo\<close>: a first-in first-out list of at most \<open>cap\<close> elements. The interpretation
  \<open>ring\<close> shows that the circular array implements it.
\<close>

section \<open>The circular array\<close>

definition QUEUE_SIZE :: int where "QUEUE_SIZE = 10"

record queue =
  qfront :: int
  qrear :: int
  qsize :: int
  qA :: "int list"

definition initqueue :: "queue \<Rightarrow> queue" where
  "initqueue q = q\<lparr>qfront := -1, qrear := -1, qsize := QUEUE_SIZE\<rparr>"

definition isqueuefull :: "queue \<Rightarrow> bool" where
  "isqueuefull q \<longleftrightarrow> (qrear q + 1) mod qsize q = qfront q"

definition isqueueempty :: "queue \<Rightarrow> bool" where
  "isqueueempty q \<longleftrightarrow> qfront q = -1"

definition enqueue :: "queue \<Rightarrow> int \<Rightarrow> queue" where
  "enqueue q d =
     (if (qrear q + 1) mod qsize q = qfront q then q
      else let q1 = (if qfront q = -1 then q\<lparr>qfront := qfront q + 1\<rparr> else q);
               q2 = q1\<lparr>qrear := (qrear q1 + 1) mod qsize q1\<rparr>
           in q2\<lparr>qA := (qA q2)[nat (qrear q2) := d]\<rparr>)"

definition dequeue :: "queue \<Rightarrow> int \<times> queue" where
  "dequeue q =
     (if qfront q = -1 then (-1, q)
      else let x = qA q ! nat (qfront q) in
           if qfront q \<noteq> -1 \<and> qfront q = qrear q then (x, q\<lparr>qfront := -1, qrear := -1\<rparr>)
           else (x, q\<lparr>qfront := (qfront q + 1) mod qsize q\<rparr>))"

definition getfront :: "queue \<Rightarrow> int" where
  "getfront q = (if qfront q = -1 then 0 else qA q ! nat (qfront q))"

section \<open>The contract of a bounded queue\<close>

locale bounded_fifo =
  fixes inv :: "'q \<Rightarrow> bool"
    and contents :: "'q \<Rightarrow> 'a list"
    and enq :: "'q \<Rightarrow> 'a \<Rightarrow> 'q"
    and deq :: "'q \<Rightarrow> 'a \<times> 'q"
    and peek :: "'q \<Rightarrow> 'a"
    and is_full :: "'q \<Rightarrow> bool"
    and is_empty :: "'q \<Rightarrow> bool"
    and nothing :: 'a
    and nofront :: 'a
    and cap :: nat
  assumes cap_pos: "0 < cap"
    and contents_cap: "inv q \<Longrightarrow> length (contents q) \<le> cap"
    and inv_enq: "inv q \<Longrightarrow> inv (enq q d)"
    and inv_deq: "inv q \<Longrightarrow> inv (snd (deq q))"
    and contents_enq:
      "inv q \<Longrightarrow> contents (enq q d) = (if length (contents q) < cap then contents q @ [d] else contents q)"
    and contents_deq: "inv q \<Longrightarrow> contents (snd (deq q)) = tl (contents q)"
    and value_deq: "inv q \<Longrightarrow> fst (deq q) = (if contents q = [] then nothing else hd (contents q))"
    and value_peek: "inv q \<Longrightarrow> peek q = (if contents q = [] then nofront else hd (contents q))"
    and full_iff: "inv q \<Longrightarrow> is_full q \<longleftrightarrow> length (contents q) = cap"
    and empty_iff: "inv q \<Longrightarrow> is_empty q \<longleftrightarrow> contents q = []"
begin

lemmas fifo_simps = contents_enq contents_deq value_deq value_peek full_iff empty_iff inv_enq inv_deq

lemma enq_not_full: "inv q \<Longrightarrow> \<not> is_full q \<Longrightarrow> contents (enq q d) = contents q @ [d]"
  using contents_cap [of q] by (simp add: fifo_simps)

lemma enq_full: "inv q \<Longrightarrow> is_full q \<Longrightarrow> contents (enq q d) = contents q"
  by (simp add: fifo_simps)

end

text \<open>Runs of queue operations, on an implementation and on plain lists.\<close>

datatype 'a qop = Enq 'a | Deq

fun run_ops :: "('q \<Rightarrow> 'a \<Rightarrow> 'q) \<Rightarrow> ('q \<Rightarrow> 'a \<times> 'q) \<Rightarrow> 'q \<Rightarrow> 'a qop list \<Rightarrow> 'a list \<times> 'q" where
  "run_ops enq deq q [] = ([], q)"
| "run_ops enq deq q (Enq d # ops) = run_ops enq deq (enq q d) ops"
| "run_ops enq deq q (Deq # ops) =
     (let (x, q') = deq q; (out, q'') = run_ops enq deq q' ops in (x # out, q''))"

definition list_enq :: "nat \<Rightarrow> 'a list \<Rightarrow> 'a \<Rightarrow> 'a list" where
  "list_enq cap xs d = (if length xs < cap then xs @ [d] else xs)"

definition list_deq :: "'a \<Rightarrow> 'a list \<Rightarrow> 'a \<times> 'a list" where
  "list_deq nothing xs = (case xs of [] \<Rightarrow> (nothing, []) | y # ys \<Rightarrow> (y, ys))"

context bounded_fifo
begin

lemma deq_list: "inv q \<Longrightarrow> (fst (deq q), contents (snd (deq q))) = list_deq nothing (contents q)"
  by (cases "contents q") (simp_all add: list_deq_def contents_deq value_deq)

lemma run_ops_list:
  assumes "inv q"
  shows "run_ops (list_enq cap) (list_deq nothing) (contents q) ops =
     (fst (run_ops enq deq q ops), contents (snd (run_ops enq deq q ops))) \<and>
     inv (snd (run_ops enq deq q ops))"
  using assms
proof (induction ops arbitrary: q)
  case Nil
  then show ?case by simp
next
  case (Cons op ops)
  show ?case
  proof (cases op)
    case (Enq d)
    have "contents (enq q d) = list_enq cap (contents q) d"
      using Cons.prems by (simp add: contents_enq list_enq_def)
    with Cons.IH [of "enq q d"] Cons.prems Enq show ?thesis by (simp add: inv_enq)
  next
    case Deq
    obtain x q' where d: "deq q = (x, q')" by fastforce
    have "list_deq nothing (contents q) = (x, contents q')" "inv q'"
      using deq_list [OF Cons.prems] inv_deq [OF Cons.prems] d by simp_all
    with Cons.IH [of q'] Deq d show ?thesis by (simp add: case_prod_beta)
  qed
qed

end

section \<open>The circular array implements the contract\<close>

definition qinv :: "queue \<Rightarrow> bool" where
  "qinv q \<longleftrightarrow> qsize q = QUEUE_SIZE \<and> length (qA q) = nat QUEUE_SIZE \<and>
     (qfront q = -1 \<and> qrear q = -1 \<or>
      0 \<le> qfront q \<and> qfront q < QUEUE_SIZE \<and> 0 \<le> qrear q \<and> qrear q < QUEUE_SIZE)"

definition qlen :: "queue \<Rightarrow> nat" where
  "qlen q = (if qfront q = -1 then 0 else Suc (nat ((qrear q - qfront q) mod QUEUE_SIZE)))"

definition qlist :: "queue \<Rightarrow> int list" where
  "qlist q = map (\<lambda>k. qA q ! nat ((qfront q + int k) mod QUEUE_SIZE)) [0..<qlen q]"

lemma length_qlist [simp]: "length (qlist q) = qlen q"
  by (simp add: qlist_def)

lemma qinv_initqueue: "length (qA q) = 10 \<Longrightarrow> qinv (initqueue q) \<and> qlist (initqueue q) = []"
  by (simp add: qinv_def initqueue_def qlist_def qlen_def QUEUE_SIZE_def)

lemma qinv_cases:
  assumes "qinv q"
  obtains (empty) "qfront q = -1" "qrear q = -1" "qsize q = 10" "length (qA q) = 10"
    | (some) "0 \<le> qfront q" "qfront q < 10" "0 \<le> qrear q" "qrear q < 10" "qsize q = 10" "length (qA q) = 10"
  using assms by (auto simp: qinv_def QUEUE_SIZE_def)

text \<open>Index arithmetic modulo the size of the array.\<close>

lemma mod10_diff:
  assumes "0 \<le> f" "f < 10" "0 \<le> r" "r < (10 :: int)"
  shows "(r - f) mod 10 = (if f \<le> r then r - f else r - f + 10)"
proof (cases "f \<le> r")
  case True
  with assms show ?thesis by simp
next
  case False
  have "(r - f) mod 10 = (r - f + 10) mod 10" by simp
  with False assms show ?thesis by (simp del: mod_add_self2)
qed

lemma mod10_less20: "0 \<le> x \<Longrightarrow> x < 20 \<Longrightarrow> x mod 10 = (if x < 10 then x else x - (10 :: int))"
proof -
  assume x: "0 \<le> x" "x < 20"
  have "x mod 10 = x - 10" if "\<not> x < 10"
    using x that mod_pos_pos_trivial [of "x - 10" 10] by simp
  with x show ?thesis by (cases "x < 10") simp_all
qed

lemma mod10_Suc: "0 \<le> r \<Longrightarrow> r < 10 \<Longrightarrow> (r + 1) mod 10 = (if r = 9 then 0 else r + (1 :: int))"
  by (auto simp: mod10_less20)

lemma ring_full:
  "0 \<le> f \<Longrightarrow> f < 10 \<Longrightarrow> 0 \<le> r \<Longrightarrow> r < 10 \<Longrightarrow>
   (r + 1) mod 10 = f \<longleftrightarrow> (r - f) mod 10 = (9 :: int)"
  by (auto simp: mod10_diff mod10_Suc)

lemma ring_grow:
  "0 \<le> f \<Longrightarrow> f < 10 \<Longrightarrow> 0 \<le> r \<Longrightarrow> r < 10 \<Longrightarrow> (r + 1) mod 10 \<noteq> f \<Longrightarrow>
   ((r + 1) mod 10 - f) mod 10 = (r - f) mod 10 + (1 :: int)"
  by (auto simp: mod10_diff mod10_Suc)

lemma ring_old:
  assumes "0 \<le> f" "f < 10" "0 \<le> r" "r < 10" "(r + 1) mod 10 \<noteq> f" "0 \<le> k" "k \<le> (r - f) mod 10"
  shows "(f + k) mod 10 \<noteq> (r + 1) mod (10 :: int)"
proof -
  have "k < 10" using assms(7) by (rule order.strict_trans1) simp
  then show ?thesis using assms by (auto simp: mod10_diff mod10_Suc mod10_less20 split: if_splits)
qed

lemma ring_last: "(f + ((r - f) mod 10 + 1)) mod 10 = (r + 1) mod (10 :: int)"
proof -
  have "(f + ((r - f) mod 10 + 1)) mod 10 = ((f + 1) + (r - f) mod 10) mod 10" by (simp add: algebra_simps)
  also have "\<dots> = ((f + 1) + (r - f)) mod 10" by (rule mod_add_right_eq)
  finally show ?thesis by (simp add: algebra_simps)
qed

lemma ring_shrink:
  "0 \<le> f \<Longrightarrow> f < 10 \<Longrightarrow> 0 \<le> r \<Longrightarrow> r < 10 \<Longrightarrow> f \<noteq> r \<Longrightarrow>
   (r - (f + 1) mod 10) mod 10 = (r - f) mod 10 - (1 :: int)"
  by (auto simp: mod10_diff mod10_Suc)

lemma ring_shift: "((f + 1) mod 10 + k) mod 10 = (f + (k + 1)) mod (10 :: int)"
proof -
  have "((f + 1) mod 10 + k) mod 10 = ((f + 1) + k) mod 10" by (rule mod_add_left_eq)
  then show ?thesis by (simp add: algebra_simps)
qed

lemma qfull_iff: "qinv q \<Longrightarrow> isqueuefull q \<longleftrightarrow> qlen q = 10"
  by (erule qinv_cases) (simp_all add: isqueuefull_def qlen_def QUEUE_SIZE_def ring_full nat_eq_iff)

lemma qlen_le: "qinv q \<Longrightarrow> qlen q \<le> 10"
proof -
  have "(qrear q - qfront q) mod 10 \<le> 9"
    using pos_mod_bound [of 10 "qrear q - qfront q"] by linarith
  then show ?thesis by (simp add: qlen_def QUEUE_SIZE_def nat_le_iff)
qed

lemma qlist_enqueue_nonempty:
  assumes q: "qinv q" "qfront q \<noteq> -1" "\<not> isqueuefull q"
  shows "qlist (enqueue q d) = qlist q @ [d]"
proof -
  define f r where "f = qfront q" and "r = qrear q"
  define r' where "r' = (r + 1) mod 10"
  have b: "0 \<le> f" "f < 10" "0 \<le> r" "r < 10" "qsize q = 10" "length (qA q) = 10"
    using q by (auto simp: qinv_def f_def r_def QUEUE_SIZE_def)
  have r': "0 \<le> r'" "r' < 10" "r' \<noteq> f"
    using q b by (auto simp: isqueuefull_def r'_def f_def r_def)
  have e: "enqueue q d = q\<lparr>qrear := r', qA := (qA q)[nat r' := d]\<rparr>"
    using q r' b by (simp add: enqueue_def r'_def f_def r_def Let_def)
  have len: "(r' - f) mod 10 = (r - f) mod 10 + 1"
    using b r' unfolding r'_def by (intro ring_grow) auto
  have old: "nat ((f + int k) mod 10) \<noteq> nat r'" if "k < Suc (nat ((r - f) mod 10))" for k
  proof -
    have "int k \<le> (r - f) mod 10" using that by linarith
    then have "(f + int k) mod 10 \<noteq> r'" using b r' unfolding r'_def by (intro ring_old) auto
    then show ?thesis using r' by (simp add: nat_eq_iff)
  qed
  have last: "(f + int (Suc (nat ((r - f) mod 10)))) mod 10 = r'"
    using ring_last [of f r] by (simp add: r'_def add.commute)
  define n where "n = Suc (nat ((r - f) mod 10))"
  have qn: "qlen q = n" "qlen (enqueue q d) = Suc n"
    using b len by (simp_all add: e qlen_def QUEUE_SIZE_def n_def nat_add_distrib flip: f_def r_def)
  have "map (\<lambda>k. (qA q)[nat r' := d] ! nat ((f + int k) mod 10)) [0..<n] =
      map (\<lambda>k. qA q ! nat ((f + int k) mod 10)) [0..<n]"
  proof (rule map_cong [OF refl])
    fix k assume "k \<in> set [0..<n]"
    then have "nat r' \<noteq> nat ((f + int k) mod 10)" using old [of k] by (auto simp: n_def)
    then show "(qA q)[nat r' := d] ! nat ((f + int k) mod 10) = qA q ! nat ((f + int k) mod 10)"
      by simp
  qed
  moreover have "(qA q)[nat r' := d] ! nat ((f + int n) mod 10) = d"
    using last b r' by (simp add: n_def)
  ultimately show ?thesis
    unfolding qlist_def qn QUEUE_SIZE_def by (simp add: e flip: f_def)
qed

lemma qlist_enqueue:
  assumes q: "qinv q"
  shows "qlist (enqueue q d) = (if length (qlist q) < 10 then qlist q @ [d] else qlist q)"
proof (cases "isqueuefull q")
  case True
  then have "enqueue q d = q" by (simp add: enqueue_def isqueuefull_def)
  with True q show ?thesis by (simp add: qfull_iff)
next
  case False
  then have l: "qlen q < 10" using q qlen_le [OF q] by (simp add: qfull_iff le_less)
  show ?thesis
  proof (cases "qfront q = -1")
    case True
    with q have "qrear q = -1" "qsize q = 10" "length (qA q) = 10"
      by (auto simp: qinv_def QUEUE_SIZE_def)
    with True show ?thesis by (simp add: enqueue_def qlist_def qlen_def QUEUE_SIZE_def Let_def)
  next
    case nonempty: False
    from qlist_enqueue_nonempty [OF q nonempty False] l show ?thesis by simp
  qed
qed

lemma qinv_enqueue: "qinv q \<Longrightarrow> qinv (enqueue q d)"
  by (auto simp: qinv_def enqueue_def QUEUE_SIZE_def Let_def)

lemma qinv_dequeue: "qinv q \<Longrightarrow> qinv (snd (dequeue q))"
  by (auto simp: qinv_def dequeue_def QUEUE_SIZE_def Let_def)

lemma qlist_nonempty:
  "qinv q \<Longrightarrow> qfront q \<noteq> -1 \<Longrightarrow> qlist q \<noteq> [] \<and> hd (qlist q) = qA q ! nat (qfront q)"
  by (erule qinv_cases) (simp_all add: qlist_def qlen_def QUEUE_SIZE_def upt_conv_Cons del: upt_Suc)

lemma qlist_dequeue: "qinv q \<Longrightarrow> qlist (snd (dequeue q)) = tl (qlist q)"
proof (erule qinv_cases)
  assume "qfront q = -1"
  then show ?thesis by (simp add: dequeue_def qlist_def qlen_def)
next
  assume b: "0 \<le> qfront q" "qfront q < 10" "0 \<le> qrear q" "qrear q < 10" "qsize q = 10"
  show ?thesis
  proof (cases "qfront q = qrear q")
    case True
    with b show ?thesis by (simp add: dequeue_def qlist_def qlen_def Let_def)
  next
    case False
    define n where "n = nat ((qrear q - qfront q) mod 10)"
    have pos: "0 < n"
      using False b unfolding n_def by (simp add: zero_less_nat_eq less_le mod_eq_0_iff_dvd) presburger
    have len: "nat ((qrear q - (qfront q + 1) mod 10) mod 10) = n - 1"
      using ring_shrink [OF b(1,2,3,4) False] by (simp add: n_def nat_diff_distrib)
    have nn: "(qfront q + 1) mod 10 \<noteq> -1" by (simp add: pos_mod_sign order.strict_implies_not_eq)
    have "qlist (snd (dequeue q)) = map (\<lambda>k. qA q ! nat ((qfront q + (int k + 1)) mod 10)) [0..<n]"
      using b False nn pos len
      by (simp add: dequeue_def qlist_def qlen_def Let_def QUEUE_SIZE_def ring_shift)
    also have "\<dots> = map (\<lambda>k. qA q ! nat ((qfront q + int k) mod 10)) [1..<Suc n]"
      by (simp add: map_Suc_upt [symmetric] comp_def add.commute del: map_Suc_upt upt_Suc)
    also have "\<dots> = tl (qlist q)"
      using b by (simp add: qlist_def qlen_def QUEUE_SIZE_def n_def upt_conv_Cons map_tl [symmetric] del: upt_Suc)
    finally show ?thesis .
  qed
qed

interpretation ring: bounded_fifo qinv qlist enqueue dequeue getfront isqueuefull isqueueempty "-1" 0 10
proof unfold_locales
  fix q :: queue and d :: int
  assume q: "qinv q"
  show "length (qlist q) \<le> 10" by (simp add: qlen_le [OF q])
  show "qinv (enqueue q d)" using q by (rule qinv_enqueue)
  show "qinv (snd (dequeue q))" using q by (rule qinv_dequeue)
  show "qlist (enqueue q d) = (if length (qlist q) < 10 then qlist q @ [d] else qlist q)"
    using q by (rule qlist_enqueue)
  show "qlist (snd (dequeue q)) = tl (qlist q)" using q by (rule qlist_dequeue)
  have e: "qlist q = [] \<longleftrightarrow> qfront q = -1" by (simp add: qlist_def qlen_def)
  show "fst (dequeue q) = (if qlist q = [] then - 1 else hd (qlist q))"
    using qlist_nonempty [OF q] by (simp add: e dequeue_def Let_def)
  show "getfront q = (if qlist q = [] then 0 else hd (qlist q))"
    using qlist_nonempty [OF q] by (simp add: e getfront_def)
  show "isqueuefull q \<longleftrightarrow> length (qlist q) = 10" using qfull_iff [OF q] by simp
  show "isqueueempty q \<longleftrightarrow> qlist q = []" by (simp add: e isqueueempty_def)
qed simp

text \<open>C6: whatever sequence of \<open>enqueue\<close> and \<open>dequeue\<close> calls is made on a queue after
  \<open>initqueue\<close>, the values that \<open>dequeue\<close> returns are those of a plain list used as a
  first-in first-out queue that ignores an insertion when it holds ten elements and answers
  -1 when it holds none; all ten slots of the array are usable.\<close>

theorem queue_is_fifo:
  assumes "length (qA q) = 10"
  shows "fst (run_ops enqueue dequeue (initqueue q) ops) =
         fst (run_ops (list_enq 10) (list_deq (-1)) [] ops)"
  using ring.run_ops_list [of "initqueue q" ops] qinv_initqueue [OF assms] by simp

theorem queue_is_fifo_witness:
  "fst (run_ops enqueue dequeue (initqueue \<lparr>qfront = 0, qrear = 0, qsize = 0, qA = replicate 10 0\<rparr>)
     [Enq 7, Enq 8, Deq, Deq, Deq]) = [7, 8, -1]"
  by (subst queue_is_fifo) (simp_all add: list_enq_def list_deq_def)

end
