(* ===== verification/NetUtils.thy ===== *)
theory NetUtils
  imports Printf
begin

text \<open>
  \<^verbatim>\<open>src/netutils.c\<close> (and \<^verbatim>\<open>src/unet.c\<close>, its user-level copy of \<^verbatim>\<open>inet_addr\<close>): byte order,
  dotted addresses and the Internet checksum.

  The lemmas show that \<open>htons\<close> and \<open>htonl\<close> reverse the bytes in memory and are their own
  inverses, that \<open>inet_addr\<close> reads back what \<^verbatim>\<open>ifconfig\<close> prints, and that \<open>checksum\<close> is the
  one's complement of the sum of the 16-bit words of the data modulo 65535, so that data whose
  checksum field was filled in this way sums up to zero.
\<close>

section \<open>Operations\<close>

definition htons :: "ushort \<Rightarrow> ushort" where
  "htons n = fold (\<lambda>i a. a OR push_bit (8 * (2 - i - 1)) (drop_bit (i * 8) n AND 0xff)) [0..<2] 0"

definition htonl :: "uint32 \<Rightarrow> uint32" where
  "htonl n = fold (\<lambda>i a. a OR push_bit (8 * (4 - i - 1)) (drop_bit (i * 8) n AND 0xff)) [0..<4] 0"

abbreviation ch_dot :: uchar where "ch_dot \<equiv> 0x2e"

text \<open>The loop of \<open>inet_addr\<close>, with \<open>byte\<close> and \<open>ip\<close> as 32-bit values and \<^verbatim>\<open>char\<close> signed. The
  object that holds the string is a list of bytes; \<open>None\<close> is a read past its end, when the
  string has no NUL.\<close>

fun inet_addr_loop :: "uint32 \<Rightarrow> uint32 \<Rightarrow> bytes \<Rightarrow> uint32 option" where
  "inet_addr_loop byte ip [] = None"
| "inet_addr_loop byte ip (c # cs) =
     (if c = 0 then Some (push_bit 8 ip OR byte)
      else if c = ch_dot then inet_addr_loop 0 (push_bit 8 ip OR byte) cs
      else inet_addr_loop (byte * 10 + (scast c - 0x30)) ip cs)"

definition inet_addr :: "bytes \<Rightarrow> uint32 option" where
  "inet_addr ip_str = inet_addr_loop 0 0 ip_str"

text \<open>\<open>fold16\<close> is the statement \<^verbatim>\<open>sum = (sum >> 16) + (sum & 0xffff)\<close>. The data passed to
  \<open>checksum\<close> is the object of \<open>length\<close> bytes that its pointer and length arguments describe.\<close>

definition fold16 :: "uint32 \<Rightarrow> uint32" where
  "fold16 sm = drop_bit 16 sm + (sm AND 0xffff)"

fun checksum_loop :: "bytes \<Rightarrow> uint32 \<Rightarrow> uint32" where
  "checksum_loop (a # b # rest) sm = checksum_loop rest (fold16 (sm + ucast (mk16 a b)))"
| "checksum_loop [a] sm = fold16 (sm + ucast a)"
| "checksum_loop [] sm = sm"

definition checksum :: "bytes \<Rightarrow> uint32 \<Rightarrow> ushort" where
  "checksum data start = NOT (ucast (checksum_loop data start))"

section \<open>Byte order\<close>

lemma and_0xff: "x AND 0xff = take_bit 8 (x :: 'a :: len word)"
  by (simp add: take_bit_eq_mask mask_eq_exp_minus_1)

lemma and_0xffff: "x AND 0xffff = take_bit 16 (x :: 'a :: len word)"
  by (simp add: take_bit_eq_mask mask_eq_exp_minus_1)

lemma htons_eq: "htons n = push_bit 8 (take_bit 8 n) OR take_bit 8 (drop_bit 8 n)"
proof -
  have "[0..<2] = [0, 1 :: nat]" by (simp add: upt_rec)
  then show ?thesis by (simp add: htons_def and_0xff)
qed

lemma htonl_eq:
  "htonl n = push_bit 24 (take_bit 8 n) OR push_bit 16 (take_bit 8 (drop_bit 8 n)) OR
             push_bit 8 (take_bit 8 (drop_bit 16 n)) OR take_bit 8 (drop_bit 24 n)"
proof -
  have "[0..<4] = [0, 1, 2, 3 :: nat]" by (simp add: upt_rec)
  then show ?thesis by (simp add: htonl_def or.assoc and_0xff)
qed

lemma le16_htons: "le16 (htons n) = rev (le16 n)"
proof -
  have "ucast (htons n) = (ucast (drop_bit 8 n) :: uchar)"
    by (rule bit_word_eqI) (simp add: htons_eq bit_simps)
  moreover have "ucast (drop_bit 8 (htons n)) = (ucast n :: uchar)"
    by (rule bit_word_eqI) (simp add: htons_eq bit_simps)
  ultimately show ?thesis by (simp add: le16_def)
qed

lemma le16_inj: "le16 a = le16 b \<Longrightarrow> a = b"
  by (metis rd16_le16)

lemma htons_htons [simp]: "htons (htons n) = n"
  by (rule le16_inj) (simp add: le16_htons)

lemma le32_inj: "le32 a = le32 b \<Longrightarrow> a = b"
  by (metis rd32_le32)

lemma le32_htonl: "le32 (htonl n) = rev (le32 n)"
proof -
  have "ucast (htonl n) = (ucast (drop_bit 24 n) :: uchar)"
    by (rule bit_word_eqI) (simp add: htonl_eq bit_simps)
  moreover have "ucast (drop_bit 8 (htonl n)) = (ucast (drop_bit 16 n) :: uchar)"
    by (rule bit_word_eqI) (simp add: htonl_eq bit_simps)
  moreover have "ucast (drop_bit 16 (htonl n)) = (ucast (drop_bit 8 n) :: uchar)"
    by (rule bit_word_eqI) (simp add: htonl_eq bit_simps)
  moreover have "ucast (drop_bit 24 (htonl n)) = (ucast n :: uchar)"
    by (rule bit_word_eqI) (simp add: htonl_eq bit_simps)
  ultimately show ?thesis by (simp add: le32_def)
qed

lemma htonl_htonl [simp]: "htonl (htonl n) = n"
  by (rule le32_inj) (simp add: le32_htonl)

text \<open>storing the result of \<open>htons\<close> or \<open>htonl\<close> puts the bytes of the number in memory in
  network order (most significant first), and applying them twice gives the number back.\<close>

theorem byte_order:
  "le16 (htons n) = rev (le16 n) \<and> htons (htons n) = n \<and>
   le32 (htonl m) = rev (le32 m) \<and> htonl (htonl m) = m"
  by (simp add: le16_htons le32_htonl)

section \<open>Dotted addresses\<close>

definition dotted_fmt :: bytes where "dotted_fmt = str ''%d.%d.%d.%d''"

definition octet :: "nat \<Rightarrow> uint32 \<Rightarrow> uint32" where
  "octet k ip = drop_bit (8 * k) ip AND 0xff"

lemma octet_small: "unat (octet k ip) < 256"
proof -
  have "octet k ip = take_bit 8 (drop_bit (8 * k) ip)" by (simp add: octet_def and_0xff)
  then show ?thesis
    using take_bit_nat_less_exp [of 8 "unat (drop_bit (8 * k) ip)"] by (simp add: unsigned_take_bit_eq)
qed

lemma small_not_sless: "unat (w :: uint32) < 256 \<Longrightarrow> \<not> w <s 0"
proof
  assume w: "unat w < 256" and "w <s 0"
  then have "bit w 31" using bit_last_iff [of w] by (simp add: word_sless_alt)
  then have "bit (unat w) 31" by (simp add: bit_unsigned_iff)
  with w show False by (simp add: bit_iff_odd)
qed

lemma digit_char:
  assumes "v < 10"
  shows "digits_lower ! v \<noteq> 0" "digits_lower ! v \<noteq> ch_dot"
    "scast (digits_lower ! v) - (0x30 :: uint32) = of_nat v"
proof -
  have "v \<in> set [0,1,2,3,4,5,6,7,8,9]" using assms by auto
  moreover have "\<forall>v\<in>set [0,1,2,3,4,5,6,7,8,9]. digits_lower ! v \<noteq> 0 \<and> digits_lower ! v \<noteq> ch_dot \<and>
     scast (digits_lower ! v) - (0x30 :: uint32) = of_nat v"
    by code_simp
  ultimately show "digits_lower ! v \<noteq> 0" "digits_lower ! v \<noteq> ch_dot"
    "scast (digits_lower ! v) - (0x30 :: uint32) = of_nat v" by blast+
qed

lemma inet_addr_loop_digits:
  "\<forall>v\<in>set vs. v < 10 \<Longrightarrow>
   inet_addr_loop byte ip (map ((!) digits_lower) vs @ rest) =
   inet_addr_loop (fold (\<lambda>v b. b * 10 + of_nat v) vs byte) ip rest"
  by (induction vs arbitrary: byte) (auto simp: digit_char)

lemma fold_rev_denote:
  "fold (\<lambda>v b. b * 10 + of_nat v) (rev vs) (0 :: uint32) = of_nat (denote 10 vs)"
  by (induction vs) (simp_all add: algebra_simps)

lemma printint_octet:
  "\<exists>out. printint (octet k ip) 10 True = Some out \<and>
         (\<forall>ad rest. inet_addr_loop 0 ad (out @ rest) = inet_addr_loop (octet k ip) ad rest)"
proof -
  have neg: "\<not> octet k ip <s 0" by (rule small_not_sless [OF octet_small])
  obtain vs where vs: "\<forall>v\<in>set vs. v < 10" "denote 10 vs = unat (octet k ip)"
    "printint (octet k ip) 10 True = Some (rev (map ((!) digits_lower) vs))"
    using printint_value [of 10 True "octet k ip"] neg by (auto simp: Let_def)
  from vs(1) have "inet_addr_loop 0 ad (map ((!) digits_lower) (rev vs) @ rest) =
      inet_addr_loop (of_nat (denote 10 vs)) ad rest" for ad rest
    by (simp add: inet_addr_loop_digits fold_rev_denote)
  with vs show ?thesis by (simp add: rev_map)
qed

lemma octets:
  "((push_bit 24 (octet 3 ip) OR push_bit 16 (octet 2 ip)) OR push_bit 8 (octet 1 ip)) OR octet 0 ip = ip"
proof (rule bit_word_eqI)
  fix n assume "n < LENGTH(32)"
  then consider "n < 8" | "8 \<le> n" "n < 16" | "16 \<le> n" "n < 24" | "24 \<le> n" "n < 32"
    by fastforce
  then show "bit (((push_bit 24 (octet 3 ip) OR push_bit 16 (octet 2 ip)) OR push_bit 8 (octet 1 ip)) OR
      octet 0 ip) n = bit ip n"
    by cases (simp_all add: octet_def and_0xff bit_simps less_diff_conv2)
qed

text \<open>C39: the dotted form that \<^verbatim>\<open>sys_ifconfig\<close> prints for an address is read back to that
  address by \<open>inet_addr\<close>.\<close>

theorem inet_addr_roundtrip:
  "\<exists>out. cprintf dotted_fmt [AInt (octet 3 ip), AInt (octet 2 ip), AInt (octet 1 ip), AInt (octet 0 ip)]
           = Some out \<and> inet_addr (out @ [0]) = Some ip"
proof -
  obtain a where a: "printint (octet 3 ip) 10 True = Some a"
    "\<And>ad rest. inet_addr_loop 0 ad (a @ rest) = inet_addr_loop (octet 3 ip) ad rest"
    using printint_octet [of 3 ip] by blast
  obtain b where b: "printint (octet 2 ip) 10 True = Some b"
    "\<And>ad rest. inet_addr_loop 0 ad (b @ rest) = inet_addr_loop (octet 2 ip) ad rest"
    using printint_octet [of 2 ip] by blast
  obtain c where c: "printint (octet 1 ip) 10 True = Some c"
    "\<And>ad rest. inet_addr_loop 0 ad (c @ rest) = inet_addr_loop (octet 1 ip) ad rest"
    using printint_octet [of 1 ip] by blast
  obtain d where d: "printint (octet 0 ip) 10 True = Some d"
    "\<And>ad rest. inet_addr_loop 0 ad (d @ rest) = inet_addr_loop (octet 0 ip) ad rest"
    using printint_octet [of 0 ip] by blast
  have fmt: "dotted_fmt = [ch_pct, ch_d, ch_dot, ch_pct, ch_d, ch_dot, ch_pct, ch_d, ch_dot, ch_pct, ch_d]"
    by code_simp
  have "cprintf dotted_fmt [AInt (octet 3 ip), AInt (octet 2 ip), AInt (octet 1 ip), AInt (octet 0 ip)]
      = Some (a @ [ch_dot] @ b @ [ch_dot] @ c @ [ch_dot] @ d)"
    by (simp add: fmt cprintf_conv_def out_app_def a b c d del: One_nat_def)
  moreover have "inet_addr (a @ [ch_dot] @ b @ [ch_dot] @ c @ [ch_dot] @ d @ [0]) = Some ip"
    by (simp add: inet_addr_def a b c d octets del: One_nat_def)
  ultimately show ?thesis by simp
qed

section \<open>The Internet checksum\<close>

text \<open>The sum of the 16-bit words that the loop reads; an odd last byte is a word by itself.\<close>

fun wsum :: "bytes \<Rightarrow> nat" where
  "wsum (a # b # rest) = unat (mk16 a b) + wsum rest"
| "wsum [a] = unat a"
| "wsum [] = 0"

lemma unat_ushort_le: "unat (w :: ushort) \<le> 65535"
proof -
  have "unat w < 2 ^ LENGTH(16)" by (rule unsigned_less)
  then show ?thesis by simp
qed

lemma unat_uchar_le: "unat (w :: uchar) \<le> 255"
proof -
  have "unat w < 2 ^ LENGTH(8)" by (rule unsigned_less)
  then show ?thesis by simp
qed

lemma split16:
  obtains q r where "(n :: nat) = 65536 * q + r" "r < 65536" "n div 65536 = q" "n mod 65536 = r"
  by (metis add.commute div_mult_mod_eq mod_less_divisor mult.commute zero_less_numeral)

lemma unat_fold16: "unat (fold16 s) = unat s div 65536 + unat s mod 65536"
proof -
  obtain q r where n: "unat s = 65536 * q + r" "unat s div 65536 = q" "unat s mod 65536 = r"
    by (rule split16 [of "unat s"])
  have "unat s < 2 ^ LENGTH(32)" by (rule unsigned_less)
  then have "unat s div 65536 + unat s mod 65536 < 2 ^ 32" unfolding n(2,3) by (simp add: n(1))
  then show ?thesis
    by (simp add: fold16_def and_0xffff unat_word_ariths unsigned_drop_bit_eq unsigned_take_bit_eq
        drop_bit_eq_div take_bit_eq_mod)
qed

lemma unat_add_small:
  "unat s < 2 ^ 31 \<Longrightarrow> n \<le> 65535 \<Longrightarrow> unat (w :: uint32) = n \<Longrightarrow> unat (s + w) = unat s + n"
  by (simp add: unat_word_ariths)

lemma unat_ucast_ushort [simp]: "unat (ucast (w :: ushort) :: uint32) = unat w"
  using unat_ushort_le [of w] by (simp add: unsigned_ucast_eq take_bit_eq_mod)

lemma unat_ucast_uchar [simp]: "unat (ucast (w :: uchar) :: uint32) = unat w"
  using unat_uchar_le [of w] by (simp add: unsigned_ucast_eq take_bit_eq_mod)

text \<open>One step of the loop, on natural numbers.\<close>

definition cstep :: "nat \<Rightarrow> nat \<Rightarrow> nat" where
  "cstep s w = (s + w) div 65536 + (s + w) mod 65536"

lemma cstep_mod: "cstep s w mod 65535 = (s + w) mod 65535"
proof -
  obtain q r where n: "s + w = 65536 * q + r" "(s + w) div 65536 = q" "(s + w) mod 65536 = r"
    by (rule split16 [of "s + w"])
  have "s + w = (q + r) + 65535 * q" using n(1) by simp
  then have "(s + w) mod 65535 = (q + r) mod 65535" by (metis mod_mult_self2)
  then show ?thesis by (simp add: cstep_def n(2,3))
qed

lemma cstep_pos: "0 < cstep s w \<longleftrightarrow> 0 < s + w"
proof -
  obtain q r where n: "s + w = 65536 * q + r" "(s + w) div 65536 = q" "(s + w) mod 65536 = r"
    by (rule split16 [of "s + w"])
  have "0 < q + r \<longleftrightarrow> 0 < 65536 * q + r" by auto
  then show ?thesis unfolding cstep_def n(2,3) by (simp add: n(1))
qed

lemma cstep_cases:
  assumes "s + w \<le> n"
  obtains q r where "cstep s w = q + r" "s + w = 65536 * q + r" "r < 65536" "65536 * q + r \<le> n"
  using assms split16 [of "s + w"] by (metis cstep_def)

lemma cstep_le: "s \<le> 65535 \<Longrightarrow> w \<le> 65535 \<Longrightarrow> cstep s w \<le> 65535"
  by (rule cstep_cases [of s w 131070]) auto

lemma cstep_first: "s < 2 ^ 31 \<Longrightarrow> w \<le> 65535 \<Longrightarrow> cstep s w \<le> 98303"
  by (rule cstep_cases [of s w "2147483647 + 65535"]) auto

lemma cstep_second: "s \<le> 98303 \<Longrightarrow> w \<le> 65535 \<Longrightarrow> cstep s w \<le> 65536"
  by (rule cstep_cases [of s w 163838]) auto

lemma cstep_settle: "s \<le> 65536 \<Longrightarrow> w < 65535 \<Longrightarrow> cstep s w \<le> 65535"
  by (rule cstep_cases [of s w 131070]) auto

lemma unat_step:
  "unat s < 2 ^ 31 \<Longrightarrow> unat (w :: uint32) \<le> 65535 \<Longrightarrow> unat (fold16 (s + w)) = cstep (unat s) (unat w)"
  by (simp add: unat_fold16 cstep_def unat_add_small [OF _ _ refl])

lemma unat_step_less:
  "unat s < 2 ^ 31 \<Longrightarrow> unat (w :: uint32) \<le> 65535 \<Longrightarrow> unat (fold16 (s + w)) < 2 ^ 31"
  using cstep_first [of "unat s" "unat w"] by (simp add: unat_step)

lemma checksum_loop_spec:
  "unat s < 2 ^ 31 \<Longrightarrow>
   unat (checksum_loop d s) mod 65535 = (unat s + wsum d) mod 65535 \<and>
   (0 < unat (checksum_loop d s) \<longleftrightarrow> 0 < unat s + wsum d)"
proof (induction d s rule: checksum_loop.induct)
  case (1 a b rest s)
  have w: "unat (ucast (mk16 a b) :: uint32) \<le> 65535" by (simp add: unat_ushort_le)
  have less: "unat (fold16 (s + ucast (mk16 a b))) < 2 ^ 31" by (rule unat_step_less [OF "1.prems" w])
  have st: "unat (fold16 (s + ucast (mk16 a b))) = cstep (unat s) (unat (mk16 a b))"
    using unat_step [OF "1.prems" w] by simp
  have "(cstep (unat s) (unat (mk16 a b)) + wsum rest) mod 65535 =
      (unat s + unat (mk16 a b) + wsum rest) mod 65535"
    by (metis cstep_mod mod_add_left_eq)
  moreover have "0 < cstep (unat s) (unat (mk16 a b)) + wsum rest \<longleftrightarrow>
      0 < unat s + unat (mk16 a b) + wsum rest"
    using cstep_pos [of "unat s" "unat (mk16 a b)"] by auto
  ultimately show ?case using "1.IH" [OF less] st by (simp add: add.assoc)
next
  case (2 a s)
  have w: "unat (ucast a :: uint32) \<le> 65535" using unat_uchar_le [of a] by simp
  show ?case
    using unat_step [OF "2.prems" w] cstep_mod [of "unat s" "unat a"] cstep_pos [of "unat s" "unat a"]
    by simp
next
  case (3 s)
  then show ?case by simp
qed

lemma checksum_loop_le:
  "unat s \<le> 65535 \<Longrightarrow> unat (checksum_loop d s) \<le> 65535"
proof (induction d s rule: checksum_loop.induct)
  case (1 a b rest s)
  have "unat (fold16 (s + ucast (mk16 a b))) \<le> 65535"
    using "1.prems" unat_step [of s "ucast (mk16 a b)"] cstep_le [of "unat s" "unat (mk16 a b)"]
      unat_ushort_le [of "mk16 a b"] by simp
  then show ?case using "1.IH" by simp
next
  case (2 a s)
  then show ?case
    using unat_step [of s "ucast a"] cstep_le [of "unat s" "unat a"] unat_uchar_le [of a] by simp
next
  case (3 s)
  then show ?case by simp
qed

lemma checksum_loop_append:
  "even (length p) \<Longrightarrow> checksum_loop (p @ q) s = checksum_loop q (checksum_loop p s)"
  by (induction p s rule: checksum_loop.induct) auto

lemma wsum_append: "even (length p) \<Longrightarrow> wsum (p @ q) = wsum p + wsum q"
  by (induction p rule: wsum.induct) auto

lemma unat_NOT16: "unat (NOT (w :: ushort)) = 65535 - unat w"
proof -
  have "NOT w = - 1 - w" by (simp add: not_eq_complement)
  then show ?thesis by (simp add: unat_sub word_order.extremum unsigned_minus_1_eq_mask mask_eq_exp_minus_1)
qed

lemma unat_checksum:
  "unat (checksum_loop d s) \<le> 65535 \<Longrightarrow> unat (checksum d s) = 65535 - unat (checksum_loop d s)"
proof -
  assume "unat (checksum_loop d s) \<le> 65535"
  then have "unat (ucast (checksum_loop d s) :: ushort) = unat (checksum_loop d s)"
    by (simp add: unsigned_ucast_eq take_bit_eq_mod)
  then show ?thesis by (simp add: checksum_def unat_NOT16)
qed

text \<open>The representative of a sum in one's complement arithmetic on 16 bits (RFC 1071): zero only
  for the empty sum.\<close>

definition oc_rep :: "nat \<Rightarrow> nat" where
  "oc_rep n = (if n = 0 then 0 else if n mod 65535 = 0 then 65535 else n mod 65535)"

lemma oc_rep_unique:
  "v \<le> 65535 \<Longrightarrow> v mod 65535 = n mod 65535 \<Longrightarrow> (0 < v \<longleftrightarrow> 0 < n) \<Longrightarrow> v = oc_rep n"
  by (cases "v = 65535") (auto simp: oc_rep_def)

text \<open>C37: for any data and any start value of at most 16 bits, \<open>checksum\<close> is the Internet checksum
  of RFC 1071: the one's complement of the one's complement sum of the start value and of the
  16-bit words of the data.\<close>

theorem checksum_rfc1071:
  assumes "unat start \<le> 65535"
  shows "unat (checksum data start) = 65535 - oc_rep (unat start + wsum data)"
proof -
  have le: "unat (checksum_loop data start) \<le> 65535" using assms by (rule checksum_loop_le)
  have "unat (checksum_loop data start) = oc_rep (unat start + wsum data)"
    using checksum_loop_spec [of start data] assms by (intro oc_rep_unique [OF le]) auto
  then show ?thesis by (simp add: unat_checksum [OF le])
qed

theorem checksum_rfc1071_witness:
  "unat (0 :: uint32) \<le> 65535 \<and>
   unat (checksum [0x45, 0x00, 0x00, 0x3c, 0xff] 0) = 65535 - oc_rep (0x0045 + 0x3c00 + 0xff)"
proof -
  have "wsum [0x45, 0x00, 0x00, 0x3c, 0xff] = 0x0045 + 0x3c00 + 0xff"
    by (simp add: mk16_def)
  then show ?thesis
    using checksum_rfc1071 [of 0 "[0x45, 0x00, 0x00, 0x3c, 0xff]"] by (simp del: wsum.simps)
qed

text \<open>Data whose checksum field was zero and then filled in sums up to zero: the check that every
  receiver makes. The bounds on the two sums are discharged by \<open>checksum_loop_le\<close> or
  \<open>checksum_loop_settles\<close>.\<close>

lemma checksum_filled:
  assumes start: "unat start < 2 ^ 31"
    and le: "unat (checksum_loop d start) \<le> 65535"
    and le': "unat (checksum_loop d' start) \<le> 65535"
    and sums: "wsum d' = wsum d + unat (checksum d start)"
    and pos: "0 < unat start + wsum d"
  shows "checksum d' start = 0"
proof -
  define v where "v = unat (checksum_loop d start)"
  define S where "S = unat start + wsum d"
  have v: "v \<le> 65535" "v mod 65535 = S mod 65535" "0 < v"
    using checksum_loop_spec [OF start, of d] le pos by (auto simp: v_def S_def)
  have "(S + (65535 - v)) mod 65535 = (v + (65535 - v)) mod 65535"
    using v(2) by (metis mod_add_left_eq)
  then have z: "(S + (65535 - v)) mod 65535 = 0" using v(1) by simp
  have sum': "unat start + wsum d' = S + (65535 - v)"
    by (simp add: sums unat_checksum [OF le] v_def S_def)
  have "unat (checksum_loop d' start) = oc_rep (S + (65535 - v))"
    using checksum_loop_spec [OF start, of d'] by (intro oc_rep_unique [OF le']) (auto simp: sum')
  also have "\<dots> = 65535" using z pos by (auto simp: oc_rep_def S_def)
  finally have "unat (checksum d' start) = 0" by (simp add: unat_checksum [OF le'])
  then show ?thesis by (simp add: unat_eq_0)
qed

text \<open>From a larger start value the running sum has settled below 65536 once three words have been
  added, the last of them not \<open>0xffff\<close>.\<close>

lemma checksum_loop_settles:
  assumes start: "unat start < 2 ^ 31"
    and d: "d = [a0, a1, b0, b1] @ mid @ [c0, c1] @ rest" "even (length mid)" "unat (mk16 c0 c1) < 65535"
  shows "unat (checksum_loop d start) \<le> 65535"
proof -
  have step: "unat (fold16 (s + ucast (mk16 x y))) = cstep (unat s) (unat (mk16 x y))"
    if "unat s < 2 ^ 31" for s x y
    using unat_step [of s "ucast (mk16 x y)"] that unat_ushort_le by simp
  define s2 where "s2 = checksum_loop [a0, a1, b0, b1] start"
  have "unat (fold16 (start + ucast (mk16 a0 a1))) \<le> 98303"
    using step [OF start] cstep_first [OF start] unat_ushort_le by simp
  then have s2: "unat s2 \<le> 65536"
    using step [of "fold16 (start + ucast (mk16 a0 a1))" b0 b1] cstep_second unat_ushort_le
    by (simp add: s2_def)
  have mid: "unat (checksum_loop m s) \<le> 65536" if "unat s \<le> 65536" "even (length m)" for m s
    using that
  proof (induction m s rule: checksum_loop.induct)
    case (1 x y rest s)
    then show ?case using step [of s x y] cstep_second [of "unat s"] unat_ushort_le by simp
  qed auto
  have "unat (fold16 (checksum_loop mid s2 + ucast (mk16 c0 c1))) \<le> 65535"
    using mid [OF s2 d(2)] step [of "checksum_loop mid s2" c0 c1] d(3)
      cstep_settle [of "unat (checksum_loop mid s2)" "unat (mk16 c0 c1)"] by simp
  moreover have "checksum_loop d start = checksum_loop rest (fold16 (checksum_loop mid s2 + ucast (mk16 c0 c1)))"
    using checksum_loop_append [OF d(2)] by (simp add: d(1) s2_def)
  ultimately show ?thesis by (simp add: checksum_loop_le)
qed

end
