(* ===== verification/Sleeplock.thy ===== *)
theory Sleeplock
  imports Prelude
begin

text \<open>
  Sleep locks (\<^verbatim>\<open>src/sleeplock.c\<close>, \<^verbatim>\<open>src/sleeplock.h\<close>): a flag and the owner's process id, guarded by a
  spin lock. A sleep lock is a part of a larger object; \<open>get\<close> and \<open>put\<close> say where it is in the
  state, \<open>pid\<close> is \<^verbatim>\<open>myproc()->pid\<close> and \<open>wake\<close> the effect of \<^verbatim>\<open>wakeup\<close> on the state. \<open>while_sleep\<close> is
  the idiom \<^verbatim>\<open>while(cond) sleep(chan, &lk)\<close>.

  The locale \<open>lock_view\<close> collects what the place of a lock has to satisfy; what the operations
  do is proved once in it and is used for the locks of the disk buffers and of the inodes.
\<close>

section \<open>Waiting for a condition\<close>

fun while_sleep :: "('s \<Rightarrow> bool) \<Rightarrow> chan \<Rightarrow> ('s \<Rightarrow> bool) \<Rightarrow> ((bool \<Rightarrow> bool) \<Rightarrow> 's \<Rightarrow> 's) \<Rightarrow> ('s, unit) km" where
  "while_sleep cond ch held put s [] =
     (if cond s then (if held s then Asleep ch (put (\<lambda>_. False) s) else Fail (Panic ''release'')) else Ret () s [])"
| "while_sleep cond ch held put s (f # fs) =
     (if cond s then
        (if held s then
           (let s' = f (put (\<lambda>_. False) s) in
            if held s' then Fail (Panic ''acquire'') else while_sleep cond ch held put (put (\<lambda>_. True) s') fs)
         else Fail (Panic ''release''))
      else Ret () s (f # fs))"

lemma while_sleep_done [simp]: "\<not> cond s \<Longrightarrow> while_sleep cond ch held put s sch = Ret () s sch"
  by (cases sch) simp_all

lemma while_sleep_unfold:
  "while_sleep cond ch held put s sch =
     (if cond s then
        thn (lock_release held put) (thn (sleepk ch) (thn (lock_acquire held put) (while_sleep cond ch held put))) s sch
      else Ret () s sch)"
  by (cases sch) (simp_all add: Let_def)

lemma while_sleep_Ret: "while_sleep cond ch held put s sch = Ret u t sch' \<Longrightarrow> \<not> cond t"
  by (induction cond ch held put s sch rule: while_sleep.induct) (auto simp: Let_def split: if_splits)

lemma keeps_while_sleep:
  assumes "\<And>b s. I s \<Longrightarrow> I (put (\<lambda>_. b) s)"
  shows "keeps I (while_sleep cond ch held put)"
proof (rule keepsI)
  fix s sch assume "I s" "env_keeps I sch"
  then show "okafter I (while_sleep cond ch held put s sch)"
    by (induction sch arbitrary: s) (auto simp: Let_def assms)
qed

lemma keeps_lock_acquire: "(\<And>s. I s \<Longrightarrow> I (put (\<lambda>_. True) s)) \<Longrightarrow> keeps I (lock_acquire held put)"
  by (simp add: keeps_def)

lemma keeps_lock_release: "(\<And>s. I s \<Longrightarrow> I (put (\<lambda>_. False) s)) \<Longrightarrow> keeps I (lock_release held put)"
  by (simp add: keeps_def)

section \<open>Sleep locks\<close>

record sleeplock =
  sl_locked :: bool
  sl_lk :: bool
  sl_pid :: int

definition initsleeplock :: sleeplock where
  "initsleeplock = \<lparr>sl_locked = False, sl_lk = False, sl_pid = 0\<rparr>"

abbreviation lk_held :: "('s \<Rightarrow> sleeplock) \<Rightarrow> 's \<Rightarrow> bool" where
  "lk_held get s \<equiv> sl_lk (get s)"

abbreviation lk_put :: "((sleeplock \<Rightarrow> sleeplock) \<Rightarrow> 's \<Rightarrow> 's) \<Rightarrow> (bool \<Rightarrow> bool) \<Rightarrow> 's \<Rightarrow> 's" where
  "lk_put put f \<equiv> put (sl_lk_update f)"

definition acquiresleep ::
  "('s \<Rightarrow> sleeplock) \<Rightarrow> ((sleeplock \<Rightarrow> sleeplock) \<Rightarrow> 's \<Rightarrow> 's) \<Rightarrow> ('s \<Rightarrow> int) \<Rightarrow> chan \<Rightarrow> ('s, unit) km" where
  "acquiresleep get put pid ch =
     thn (lock_acquire (lk_held get) (lk_put put))
     (thn (while_sleep (\<lambda>s. sl_locked (get s)) ch (lk_held get) (lk_put put))
     (thn (upd (put (\<lambda>l. l\<lparr>sl_locked := True\<rparr>)))
     (thn (upd (\<lambda>s. put (\<lambda>l. l\<lparr>sl_pid := pid s\<rparr>) s))
     (lock_release (lk_held get) (lk_put put)))))"

definition releasesleep ::
  "('s \<Rightarrow> sleeplock) \<Rightarrow> ((sleeplock \<Rightarrow> sleeplock) \<Rightarrow> 's \<Rightarrow> 's) \<Rightarrow> (chan \<Rightarrow> 's \<Rightarrow> 's) \<Rightarrow> chan \<Rightarrow> ('s, unit) km" where
  "releasesleep get put wake ch =
     thn (lock_acquire (lk_held get) (lk_put put))
     (thn (upd (put (\<lambda>l. l\<lparr>sl_locked := False\<rparr>)))
     (thn (upd (put (\<lambda>l. l\<lparr>sl_pid := 0\<rparr>)))
     (thn (upd (wake ch))
     (lock_release (lk_held get) (lk_put put)))))"

definition holdingsleep ::
  "('s \<Rightarrow> sleeplock) \<Rightarrow> ((sleeplock \<Rightarrow> sleeplock) \<Rightarrow> 's \<Rightarrow> 's) \<Rightarrow> ('s \<Rightarrow> int) \<Rightarrow> ('s, bool) km" where
  "holdingsleep get put pid =
     thn (lock_acquire (lk_held get) (lk_put put))
     (bnd (gets (\<lambda>s. sl_locked (get s) \<and> sl_pid (get s) = pid s)) (\<lambda>r.
     thn (lock_release (lk_held get) (lk_put put))
     (ret r)))"

lemma keeps_sleeplock:
  assumes "\<And>f s. I s \<Longrightarrow> I (put f s)"
  shows "keeps I (acquiresleep get put pid ch)" "keeps I (holdingsleep get put pid)"
    "(\<And>c s. I s \<Longrightarrow> I (wake c s)) \<Longrightarrow> keeps I (releasesleep get put wake ch)"
  unfolding acquiresleep_def releasesleep_def holdingsleep_def
  by (intro keeps_rules keeps_upd keeps_lock_acquire keeps_lock_release keeps_while_sleep assms; assumption)+

text \<open>A lock that this process holds, and a lock that nobody holds.\<close>

definition mine :: "int \<Rightarrow> sleeplock \<Rightarrow> bool" where
  "mine p l \<longleftrightarrow> l = \<lparr>sl_locked = True, sl_lk = False, sl_pid = p\<rparr>"

definition unlocked :: "sleeplock \<Rightarrow> bool" where
  "unlocked l \<longleftrightarrow> \<not> sl_locked l \<and> \<not> sl_lk l"

text \<open>The owner's view after \<^verbatim>\<open>acquiresleep\<close>, and the lock after \<^verbatim>\<open>releasesleep\<close>.\<close>

abbreviation lock_of :: "int \<Rightarrow> sleeplock" where
  "lock_of p \<equiv> \<lparr>sl_locked = True, sl_lk = False, sl_pid = p\<rparr>"

lemma mine_iff [simp]: "mine p l \<longleftrightarrow> sl_locked l \<and> \<not> sl_lk l \<and> sl_pid l = p"
  by (cases l) (auto simp: mine_def)

locale lock_view =
  fixes ok :: "'s \<Rightarrow> bool"
    and get :: "'s \<Rightarrow> sleeplock"
    and put :: "(sleeplock \<Rightarrow> sleeplock) \<Rightarrow> 's \<Rightarrow> 's"
    and pid :: "'s \<Rightarrow> int"
    and wake :: "chan \<Rightarrow> 's \<Rightarrow> 's"
  assumes get_put: "ok s \<Longrightarrow> get (put f s) = f (get s)"
    and put_put: "ok s \<Longrightarrow> put f (put g s) = put (\<lambda>l. f (g l)) s"
    and put_get: "ok s \<Longrightarrow> f (get s) = get s \<Longrightarrow> put f s = s"
    and put_cong: "ok s \<Longrightarrow> f (get s) = g (get s) \<Longrightarrow> put f s = put g s"
    and ok_put: "ok s \<Longrightarrow> ok (put f s)"
    and pid_put: "pid (put f s) = pid s"
    and wake_put: "wake c (put f s) = put f (wake c s)"
    and get_wake: "get (wake c s) = get s"
    and ok_wake: "ok (wake c s) = ok s"
begin

lemmas view_simps = get_put put_put ok_put pid_put wake_put get_wake ok_wake

lemma acquiresleep_free:
  assumes "ok s" "unlocked (get s)"
  shows "acquiresleep get put pid ch s sch = Ret () (put (\<lambda>_. lock_of (pid s)) s) sch"
proof -
  have "put (\<lambda>l. l\<lparr>sl_locked := True, sl_pid := pid s, sl_lk := False\<rparr>) s = put (\<lambda>_. lock_of (pid s)) s"
    using assms by (intro put_cong) simp_all
  then show ?thesis
    using assms by (simp add: acquiresleep_def unlocked_def view_simps)
qed

lemma acquiresleep_busy:
  assumes "ok s" "sl_locked (get s)" "\<not> sl_lk (get s)"
  shows "acquiresleep get put pid ch s [] = Asleep ch s"
  using assms by (simp add: acquiresleep_def view_simps put_get)

lemma acquiresleep_wait:
  assumes "ok s" "sl_locked (get s)" "\<not> sl_lk (get s)" "\<not> sl_lk (get (f s))"
  shows "acquiresleep get put pid ch s (f # fs) = acquiresleep get put pid ch (f s) fs"
  using assms by (simp add: acquiresleep_def view_simps put_get)

text \<open>Every entry of \<open>sch\<close> but the last leaves the lock held, the last leaves it free: the caller
  gets the lock after exactly these sleeps.\<close>

lemma acquiresleep_after:
  assumes "ok s" "sl_locked (get s)" "\<not> sl_lk (get s)"
    and "\<forall>k<length fs. sl_locked (get (fold (\<lambda>f. f) (take k fs) s)) \<and> \<not> sl_lk (get (fold (\<lambda>f. f) (take k fs) s))"
    and "\<forall>k\<le>length fs. ok (fold (\<lambda>f. f) (take k fs) s)"
    and "unlocked (get (fold (\<lambda>f. f) fs s))"
  shows "acquiresleep get put pid ch s (fs @ sch) =
    Ret () (put (\<lambda>_. lock_of (pid (fold (\<lambda>f. f) fs s))) (fold (\<lambda>f. f) fs s)) sch"
  using assms
proof (induction fs arbitrary: s)
  case Nil
  then show ?case by (simp add: unlocked_def)
next
  case (Cons f fs)
  let ?g = "\<lambda>f :: 's \<Rightarrow> 's. f"
  have okf: "ok (f s)" using Cons.prems(5) [rule_format, of 1] by simp
  have k: "fold ?g (take (Suc k) (f # fs)) s = fold ?g (take k fs) (f s)" for k by simp
  have nlk: "\<not> sl_lk (get (f s))"
  proof (cases fs)
    case Nil
    then show ?thesis using Cons.prems(6) by (simp add: unlocked_def)
  next
    case (Cons a list)
    then show ?thesis using Cons.prems(4) [rule_format, of 1] by simp
  qed
  have step: "acquiresleep get put pid ch s ((f # fs) @ sch) = acquiresleep get put pid ch (f s) (fs @ sch)"
    using acquiresleep_wait [of s f] Cons.prems(1-3) nlk by simp
  show ?case
  proof (cases fs)
    case Nil
    then show ?thesis using step acquiresleep_free [of "f s" ch sch] okf Cons.prems(6) by simp
  next
    case (Cons a list)
    have "sl_locked (get (f s))" using Cons.prems(4) [rule_format, of 1] Cons by simp
    moreover have "\<forall>k<length fs. sl_locked (get (fold ?g (take k fs) (f s))) \<and> \<not> sl_lk (get (fold ?g (take k fs) (f s)))"
      using Cons.prems(4) k by (metis Suc_less_eq length_Cons)
    moreover have "\<forall>k\<le>length fs. ok (fold ?g (take k fs) (f s))"
      using Cons.prems(5) k by (metis Suc_le_mono length_Cons)
    ultimately show ?thesis using step Cons.IH [of "f s"] okf nlk Cons.prems(6) by simp
  qed
qed

lemma holdingsleep_run:
  assumes "ok s" "\<not> sl_lk (get s)"
  shows "holdingsleep get put pid s sch = Ret (sl_locked (get s) \<and> sl_pid (get s) = pid s) s sch"
  using assms by (simp add: holdingsleep_def view_simps put_get)

lemma releasesleep_run:
  assumes "ok s" "\<not> sl_lk (get s)"
  shows "releasesleep get put wake ch s sch = Ret () (put (\<lambda>_. initsleeplock) (wake ch s)) sch"
proof -
  have "put (\<lambda>l. l\<lparr>sl_locked := False, sl_pid := 0, sl_lk := False\<rparr>) (wake ch s) = put (\<lambda>_. initsleeplock) (wake ch s)"
    using assms by (intro put_cong) (simp_all add: view_simps initsleeplock_def)
  then show ?thesis
    using assms by (simp add: releasesleep_def view_simps)
qed

end

end
