(* ===== verification/FsState.thy ===== *)
theory FsState
  imports Sleeplock
begin

text \<open>
  The data of the file system: disk buffers (\<^verbatim>\<open>src/buf.h\<close>), the super block and the layout of the
  disk (\<^verbatim>\<open>src/fs.h\<close>), the log (\<^verbatim>\<open>struct log\<close> of \<^verbatim>\<open>src/log.c\<close>), in-memory inodes (\<^verbatim>\<open>src/file.h\<close>), and the
  state \<open>fsys\<close> of the kernel code of one process that works on them.

  Pointers to buffers and inodes are indices into their tables; index \<open>NBUF\<close> is the list head
  \<^verbatim>\<open>bcache.head\<close>. The disk is a function from block numbers to blocks. \<open>d_writes\<close> is the sequence of
  blocks written since power-on; no code reads it, it is what a power failure cuts off.
\<close>

definition BSIZE :: nat where "BSIZE = 512"
definition NBUF :: nat where "NBUF = 30"
definition NINODE :: nat where "NINODE = 50"

abbreviation LOGSIZE :: int where "LOGSIZE \<equiv> 30"
abbreviation MAXOPBLOCKS :: int where "MAXOPBLOCKS \<equiv> 10"
abbreviation NDIRECT :: nat where "NDIRECT \<equiv> 12"
abbreviation NINDIRECT :: nat where "NINDIRECT \<equiv> 128"
abbreviation MAXFILE :: nat where "MAXFILE \<equiv> NDIRECT + NINDIRECT"
abbreviation B_VALID :: uint32 where "B_VALID \<equiv> 2"
abbreviation B_DIRTY :: uint32 where "B_DIRTY \<equiv> 4"
abbreviation ROOTDEV :: uint32 where "ROOTDEV \<equiv> 1"
abbreviation ROOTINO :: uint32 where "ROOTINO \<equiv> 1"

record buf =
  b_flags :: uint32
  b_dev :: uint32
  b_blockno :: uint32
  b_lock :: sleeplock
  b_refcnt :: uint32
  b_prev :: nat
  b_next :: nat
  b_data :: bytes

record superblock =
  sb_size :: uint32
  sb_nblocks :: uint32
  sb_ninodes :: uint32
  sb_nlog :: uint32
  sb_logstart :: uint32
  sb_inodestart :: uint32
  sb_bmapstart :: uint32

record fslog =
  l_start :: int
  l_size :: int
  l_outstanding :: int
  l_committing :: bool
  l_dev :: int
  lh_n :: int
  lh_block :: "int list"

record dinode =
  di_type :: "16 word"
  di_major :: "16 word"
  di_minor :: "16 word"
  di_nlink :: "16 word"
  di_size :: uint32
  di_addrs :: "uint32 list"

record inode =
  i_dev :: uint32
  i_inum :: uint32
  i_ref :: int
  i_lock :: sleeplock
  i_valid :: bool
  i_d :: dinode

record fsys =
  memdisk :: "uint32 \<Rightarrow> bytes"
  disksize :: uint32
  d_writes :: "(uint32 \<times> bytes) list"
  bcache_lk :: bool
  bufs :: "buf list"
  log_lk :: bool
  lg :: fslog
  sb :: superblock
  icache_lk :: bool
  inodes :: "inode list"
  my_pid :: int
  my_cwd :: nat
  f_woken :: "chan list"

type_synonym 'a fm = "(fsys, 'a) km"

definition f_wake :: "chan \<Rightarrow> fsys \<Rightarrow> fsys" where
  "f_wake c s = s\<lparr>f_woken := f_woken s @ [c]\<rparr>"

text \<open>A loop that has not ended within the bound the model gives it; the lemmas show that the
  bounds are never reached.\<close>

definition spin :: "('s, 'a) km" where
  "spin s sch = Asleep (Chan ''spin'' 0) s"

lemma spin_app [simp]: "spin s sch = Asleep (Chan ''spin'' 0) s" by (simp add: spin_def)

lemma keeps_spin [keeps_rules]: "keeps I spin"
  by (simp add: keeps_def)

section \<open>Flags\<close>

definition is_valid :: "buf \<Rightarrow> bool" where
  "is_valid b \<longleftrightarrow> b_flags b AND B_VALID \<noteq> 0"

definition is_dirty :: "buf \<Rightarrow> bool" where
  "is_dirty b \<longleftrightarrow> b_flags b AND B_DIRTY \<noteq> 0"

lemma valid_bit: "(f :: uint32) AND 2 = 0 \<longleftrightarrow> \<not> bit f 1"
  using and_exp_eq_0_iff_not_bit [of f 1] by simp

lemma dirty_bit: "(f :: uint32) AND 4 = 0 \<longleftrightarrow> \<not> bit f 2"
  using and_exp_eq_0_iff_not_bit [of f 2] by simp

lemma bits_2_4 [simp]: "bit (2 :: uint32) n \<longleftrightarrow> n = 1" "bit (4 :: uint32) n \<longleftrightarrow> n = 2"
  using bit_exp_iff [of 1 n, where 'a = uint32] bit_exp_iff [of 2 n, where 'a = uint32]
  by (auto simp: possible_bit_def)

lemmas flag_simps = is_valid_def is_dirty_def valid_bit dirty_bit bit_or_iff bit_and_iff

lemma dirty_clear: "bit (f AND NOT (4 :: uint32)) 2 = False" "bit (f AND NOT (4 :: uint32)) 1 = bit f 1"
  by (simp_all add: bit_and_iff bit_not_iff possible_bit_def)

lemma bits_6: "bit (6 :: uint32) n \<longleftrightarrow> n = 1 \<or> n = 2"
proof -
  have "bit (2 OR 4 :: uint32) n \<longleftrightarrow> n = 1 \<or> n = 2" by (simp only: bit_or_iff bits_2_4)
  then show ?thesis by simp
qed

lemma nothing_to_do: "(f :: uint32) AND 6 = 2 \<longleftrightarrow> bit f 1 \<and> \<not> bit f 2"
proof
  assume "f AND 6 = 2"
  then have e: "bit (f AND 6) n = bit (2 :: uint32) n" for n by (simp only:)
  from e [of 1] e [of 2] show "bit f 1 \<and> \<not> bit f 2" by (simp only: bit_and_iff bits_6 bits_2_4, simp)
next
  assume "bit f 1 \<and> \<not> bit f 2"
  then show "f AND 6 = 2" by (intro bit_word_eqI) (simp only: bit_and_iff bits_6 bits_2_4, auto)
qed

lemmas flag_rules = flag_simps dirty_clear nothing_to_do

section \<open>The state at boot\<close>

definition zero_buf :: buf where
  "zero_buf = \<lparr>b_flags = 0, b_dev = 0, b_blockno = 0, b_lock = initsleeplock, b_refcnt = 0, b_prev = 0, b_next = 0,
     b_data = replicate BSIZE 0\<rparr>"

text \<open>The globals of the file system before any code has run: C's zero initialisation.\<close>

definition zero_fs :: fsys where
  "zero_fs = \<lparr>memdisk = (\<lambda>_. replicate BSIZE 0), disksize = 0, d_writes = [], bcache_lk = False, bufs = replicate (Suc NBUF) zero_buf,
     log_lk = False, lg = \<lparr>l_start = 0, l_size = 0, l_outstanding = 0, l_committing = False, l_dev = 0, lh_n = 0,
       lh_block = replicate 30 0\<rparr>,
     sb = \<lparr>sb_size = 0, sb_nblocks = 0, sb_ninodes = 0, sb_nlog = 0, sb_logstart = 0, sb_inodestart = 0, sb_bmapstart = 0\<rparr>,
     icache_lk = False, inodes = replicate NINODE \<lparr>i_dev = 0, i_inum = 0, i_ref = 0, i_lock = initsleeplock, i_valid = False,
       i_d = \<lparr>di_type = 0, di_major = 0, di_minor = 0, di_nlink = 0, di_size = 0, di_addrs = replicate 13 0\<rparr>\<rparr>,
     my_pid = 1, my_cwd = 0, f_woken = []\<rparr>"

end
