(* ===== verification/NetState.thy ===== *)
theory NetState
  imports Kalloc BQueue NetUtils FsState
begin

text \<open>
  The data of the network stack: the structs of \<^verbatim>\<open>arp.h\<close>, \<^verbatim>\<open>ip.h\<close>, \<^verbatim>\<open>icmp.h\<close>, \<^verbatim>\<open>tcp.h\<close>, \<^verbatim>\<open>socket.h\<close>,
  \<^verbatim>\<open>file.h\<close> and of the card driver \<^verbatim>\<open>rtl8139.c\<close>, with the byte layout the compiler gives the
  packet headers, and the record \<open>net\<close> of the global variables.

  A pointer to an element of a table is its index (\<open>None\<close> for a null pointer). A pointer stored
  as an \<^verbatim>\<open>int\<close> in a queue is the index plus one, so that 0 is the null pointer. The contents of
  a received frame are the bytes that follow the pointer the code is given.
\<close>

section \<open>Constants\<close>

abbreviation NPORTS :: nat where "NPORTS \<equiv> 2048"
abbreviation NSOCKETS :: nat where "NSOCKETS \<equiv> 20"
abbreviation NOFILE :: nat where "NOFILE \<equiv> 16"
abbreviation NFILE :: nat where "NFILE \<equiv> 100"

abbreviation ETHERNET_HDR_SIZE :: nat where "ETHERNET_HDR_SIZE \<equiv> 14"
abbreviation ETHERNET_PAYLOAD_SIZE_MAX :: nat where "ETHERNET_PAYLOAD_SIZE_MAX \<equiv> 1500"
abbreviation MAC_SIZE :: nat where "MAC_SIZE \<equiv> 6"
abbreviation ETHERNET_TYPE_IP :: ushort where "ETHERNET_TYPE_IP \<equiv> 0x0800"
abbreviation ETHERNET_TYPE_ARP :: ushort where "ETHERNET_TYPE_ARP \<equiv> 0x0806"

abbreviation ARP_HTYPE_ETHERNET :: ushort where "ARP_HTYPE_ETHERNET \<equiv> 1"
abbreviation ARP_OP_REQUEST :: ushort where "ARP_OP_REQUEST \<equiv> 1"
abbreviation ARP_OP_REPLY :: ushort where "ARP_OP_REPLY \<equiv> 2"
abbreviation ARP_CACHE_SIZE :: nat where "ARP_CACHE_SIZE \<equiv> 10"
abbreviation ARP_TTL_TICKS :: uint32 where "ARP_TTL_TICKS \<equiv> 20 * 60 * 100"

abbreviation MAX_TRANSPORT_PAYLOAD_SIZE :: nat where "MAX_TRANSPORT_PAYLOAD_SIZE \<equiv> 1480"
abbreviation IP_ADDR_SIZE :: uchar where "IP_ADDR_SIZE \<equiv> 4"
abbreviation IP_HDR_SIZE :: nat where "IP_HDR_SIZE \<equiv> 20"
abbreviation INITIAL_TTL :: uchar where "INITIAL_TTL \<equiv> 64"
abbreviation MINIMUM_IHL :: uchar where "MINIMUM_IHL \<equiv> 5"
abbreviation IP_VERSION_4 :: uchar where "IP_VERSION_4 \<equiv> 4"
abbreviation IP_PROTOCOL_ICMP :: uchar where "IP_PROTOCOL_ICMP \<equiv> 0x01"
abbreviation IP_PROTOCOL_TCP :: uchar where "IP_PROTOCOL_TCP \<equiv> 0x06"

abbreviation ICMP_TYPE_ECHOREPLY :: uchar where "ICMP_TYPE_ECHOREPLY \<equiv> 0"
abbreviation ICMP_TYPE_ECHO :: uchar where "ICMP_TYPE_ECHO \<equiv> 8"
abbreviation ICMP_HDR_SIZE :: nat where "ICMP_HDR_SIZE \<equiv> 8"
abbreviation ICMP_PACKET_SIZE :: nat where "ICMP_PACKET_SIZE \<equiv> 64"
abbreviation ICMP_PAYLOAD_PATTERN :: uchar where "ICMP_PAYLOAD_PATTERN \<equiv> 0x41"

abbreviation TCP_HEADER_MIN_SIZE :: nat where "TCP_HEADER_MIN_SIZE \<equiv> 20"
abbreviation MSS :: nat where "MSS \<equiv> 1460"
abbreviation WINDOW_LENGTH :: nat where "WINDOW_LENGTH \<equiv> 10"
abbreviation WINDOW_SIZE :: nat where "WINDOW_SIZE \<equiv> MSS * WINDOW_LENGTH"
abbreviation MAX_PENDING_REQUESTS :: nat where "MAX_PENDING_REQUESTS \<equiv> 20"
abbreviation INITIAL_SEQ :: uint32 where "INITIAL_SEQ \<equiv> 0"
abbreviation TCP_FLAG_SYN :: uchar where "TCP_FLAG_SYN \<equiv> 0x02"
abbreviation TCP_FLAG_ACK :: uchar where "TCP_FLAG_ACK \<equiv> 0x10"
abbreviation TCP_PACKET_SIZE :: nat where "TCP_PACKET_SIZE \<equiv> 1480"

section \<open>The network card\<close>

text \<open>The memory-mapped registers of \<^verbatim>\<open>struct RTL8139_registers\<close> that the driver uses. The two
  32-bit stores to \<^verbatim>\<open>MAR0\<close> and \<^verbatim>\<open>MAR4\<close> are \<open>MAR 0\<close> and \<open>MAR 4\<close>.\<close>

datatype nreg = IDR nat | MAR nat | TxStatus nat | TxAddr nat | RxBufStart | Cmd | CurAddrPacket
  | IMR | ISR | TxConfig | RxConfig | MissedPacketCounter | Cfg9346 | Config1 | BasicModeCtrl

text \<open>The accesses of the driver to the card and to PCI configuration space, oldest first. What a
  read returns is up to the card: \<open>nic_dev\<close> and \<open>nic_pci\<close> are functions of the accesses so far.\<close>

datatype access =
    RegRd nreg | RegWr nreg uint32
  | PciRd uint32 | PciWr uint32 uint32
  | Ioapic nat nat

record nic =
  nic_dev :: "nreg \<Rightarrow> access list \<Rightarrow> uint32"
  nic_pci :: "uint32 \<Rightarrow> access list \<Rightarrow> uint32"
  nic_log :: "access list"
  nic_regs :: uint32
  tx_buffer :: bytes
  rx_ring :: bytes
  rx_ring_addr :: uint32
  tx_buffer_addr :: uint32
  cur_tx :: uint32
  cur_rx :: uint32
  packets_received_good :: uchar
  byte_received :: uchar
  pci_device_no :: uint32
  nic_sent :: "bytes list"

section \<open>ARP\<close>

record arp_packet =
  hwd_type :: ushort
  prot_type :: ushort
  hwd_length :: uchar
  prot_length :: uchar
  arp_op :: ushort
  sender_haddr :: bytes
  sender_paddr :: uint32
  target_haddr :: bytes
  target_paddr :: uint32

definition arp_bytes :: "arp_packet \<Rightarrow> bytes" where
  "arp_bytes ap = le16 (hwd_type ap) @ le16 (prot_type ap) @ [hwd_length ap, prot_length ap] @
     le16 (arp_op ap) @ sender_haddr ap @ le32 (sender_paddr ap) @ target_haddr ap @ le32 (target_paddr ap)"

definition arp_of_bytes :: "bytes \<Rightarrow> arp_packet" where
  "arp_of_bytes bs = \<lparr>hwd_type = rd16 bs 0, prot_type = rd16 bs 2, hwd_length = bs ! 4, prot_length = bs ! 5,
     arp_op = rd16 bs 6, sender_haddr = take 6 (drop 8 bs), sender_paddr = rd32 bs 14,
     target_haddr = take 6 (drop 18 bs), target_paddr = rd32 bs 24\<rparr>"

datatype entry_status = EMPTY | USED | REQUESTED

record arp_entry =
  ae_ip :: uint32
  ae_mac :: bytes
  valid_until :: uint32
  ae_status :: entry_status

section \<open>IP and ICMP\<close>

record ip_header =
  version_ihl :: uchar
  tos :: uchar
  tlen :: ushort
  ip_id :: ushort
  flags_offset :: ushort
  ttl :: uchar
  protocol :: uchar
  ip_checksum :: ushort
  src_ip :: uint32
  dst_ip :: uint32

definition ip_bytes :: "ip_header \<Rightarrow> bytes" where
  "ip_bytes h = [version_ihl h, tos h] @ le16 (tlen h) @ le16 (ip_id h) @ le16 (flags_offset h) @
     [ttl h, protocol h] @ le16 (ip_checksum h) @ le32 (src_ip h) @ le32 (dst_ip h)"

definition ip_of_bytes :: "bytes \<Rightarrow> ip_header" where
  "ip_of_bytes bs = \<lparr>version_ihl = bs ! 0, tos = bs ! 1, tlen = rd16 bs 2, ip_id = rd16 bs 4,
     flags_offset = rd16 bs 6, ttl = bs ! 8, protocol = bs ! 9, ip_checksum = rd16 bs 10,
     src_ip = rd32 bs 12, dst_ip = rd32 bs 16\<rparr>"

record icmp_reply_packet =
  icmp_size :: int
  icmp_src_ip :: uint32
  icmp_seq_no :: ushort

section \<open>TCP\<close>

record tcp_hdr =
  th_src_port :: ushort
  th_dst_port :: ushort
  seq_num :: uint32
  ack_num :: uint32
  th_offset :: uchar
  th_flags :: uchar
  window_size :: ushort
  th_checksum :: ushort
  urgent_ptr :: ushort

definition tcp_bytes :: "tcp_hdr \<Rightarrow> bytes" where
  "tcp_bytes h = le16 (th_src_port h) @ le16 (th_dst_port h) @ le32 (seq_num h) @ le32 (ack_num h) @
     [th_offset h, th_flags h] @ le16 (window_size h) @ le16 (th_checksum h) @ le16 (urgent_ptr h)"

definition tcp_of_bytes :: "bytes \<Rightarrow> tcp_hdr" where
  "tcp_of_bytes bs = \<lparr>th_src_port = rd16 bs 0, th_dst_port = rd16 bs 2, seq_num = rd32 bs 4, ack_num = rd32 bs 8,
     th_offset = bs ! 12, th_flags = bs ! 13, window_size = rd16 bs 14, th_checksum = rd16 bs 16,
     urgent_ptr = rd16 bs 18\<rparr>"

record tcp_request =
  client_ip :: uint32
  request_packet :: bytes

datatype tcp_connection_state = TCP_CLOSED | TCP_LISTEN | TCP_SYN_SENT | TCP_SYNACK_SENT | TCP_ESTABLISHED

record queued_packet =
  qp_seq :: uint32
  qp_size :: int
  qp_pkt :: bytes

record tcp_connection =
  tc_state :: tcp_connection_state
  dst_addr :: uint32
  dst_port :: ushort
  pkts :: "queued_packet list"
  window :: queue
  base_seq :: uint32
  next_seq :: uint32
  ack_sent :: uint32
  seq_received :: uint32
  ack_received :: uint32
  dst_mss :: ushort
  dst_win_size :: ushort

section \<open>Sockets, ports and files\<close>

datatype socket_state = SOCKET_FREE | SOCKET_UNBOUND | SOCKET_BOUND | SOCKET_WAIT | SOCKET_CONNECTED

record socket =
  so_addr :: uint32
  so_port :: ushort
  so_type :: int
  waitqueue :: queue
  so_state :: socket_state
  so_buffer :: uint32
  so_offset :: int
  so_end :: int
  tcon :: tcp_connection

record port =
  po_pid :: int
  active_socket :: "nat option"
  passive_socket :: "nat option"

datatype file_type = FD_NONE | FD_PIPE | FD_INODE | FD_SOCKET

record kfile =
  f_type :: file_type
  f_ref :: int
  f_readable :: bool
  f_writable :: bool
  f_pipe :: "nat option"
  f_ip :: "nat option"
  f_socket :: "nat option"
  f_off :: uint32

record pipe =
  p_lock :: bool
  p_data :: bytes
  nread :: uint32
  nwrite :: uint32
  readopen :: bool
  writeopen :: bool

section \<open>The state of the network stack\<close>

text \<open>\<open>junk\<close> is what an uninitialised packet on the stack holds; \<open>cons_out\<close> collects the messages
  printed on the console and \<open>woken\<close> the channels passed to \<^verbatim>\<open>wakeup\<close>, oldest first.\<close>

record net =
  n_kmem :: kmem
  n_kend :: uint32
  n_mac :: bytes
  n_nic :: nic
  arp_lk :: bool
  arp_cache :: "arp_entry list"
  tickslock :: bool
  n_ticks :: uint32
  n_ip_id :: ushort
  MYIP :: uint32
  NETMASK :: uint32
  GATEWAY :: uint32
  icmp_echo_reply_received :: int
  icmp_reply_pkt_info :: icmp_reply_packet
  requests :: "tcp_request list"
  portlock :: bool
  ports :: "nat \<Rightarrow> port"
  socklock :: bool
  sockets :: "socket list"
  ftable_lk :: bool
  ftable :: "kfile list"
  ofile :: "nat option list"
  pipes :: "nat \<Rightarrow> pipe"
  n_fs :: fsys
  n_myproc :: "int option"
  n_killed :: bool
  junk :: bytes
  cons_out :: "bytes list"
  woken :: "chan list"

type_synonym 'a nm = "(net, 'a) km"

definition print_line :: "bytes \<Rightarrow> unit nm" where
  "print_line msg = upd (\<lambda>n. n\<lparr>cons_out := cons_out n @ [msg]\<rparr>)"

definition wakeup :: "chan \<Rightarrow> unit nm" where
  "wakeup c = upd (\<lambda>n. n\<lparr>woken := woken n @ [c]\<rparr>)"

text \<open>\<^verbatim>\<open>sleepnolock(chan)\<close> and, for a lock of the network stack, \<^verbatim>\<open>sleep(chan, lk)\<close>: there has to be
  a current process; the lock is free while the process sleeps.\<close>

definition sleepnolock :: "chan \<Rightarrow> unit nm" where
  "sleepnolock c = bnd (gets n_myproc) (\<lambda>p. if p = None then panic ''sleep'' else sleepk c)"

definition sleep_on :: "chan \<Rightarrow> (net \<Rightarrow> bool) \<Rightarrow> ((bool \<Rightarrow> bool) \<Rightarrow> net \<Rightarrow> net) \<Rightarrow> unit nm" where
  "sleep_on c held put =
     bnd (gets n_myproc) (\<lambda>p. if p = None then panic ''sleep''
       else thn (lock_release held put) (thn (sleepk c) (lock_acquire held put)))"

lemmas [simp] = print_line_def wakeup_def sleepnolock_def sleep_on_def

section \<open>The state at boot\<close>

text \<open>The initial values of the globals: C's zero initialisation, and the initialisers of the
  source where there are some. \<open>idle_nic\<close> is a card whose registers read as 0.\<close>

definition boot_queue :: queue where
  "boot_queue = \<lparr>qfront = 0, qrear = 0, qsize = 0, qA = replicate 10 0\<rparr>"

definition boot_tcon :: tcp_connection where
  "boot_tcon = \<lparr>tc_state = TCP_CLOSED, dst_addr = 0, dst_port = 0,
     pkts = replicate WINDOW_LENGTH \<lparr>qp_seq = 0, qp_size = 0, qp_pkt = replicate TCP_PACKET_SIZE 0\<rparr>, window = boot_queue,
     base_seq = 0, next_seq = 0, ack_sent = 0, seq_received = 0, ack_received = 0, dst_mss = 0, dst_win_size = 0\<rparr>"

definition boot_socket :: socket where
  "boot_socket = \<lparr>so_addr = 0, so_port = 0, so_type = 0, waitqueue = boot_queue, so_state = SOCKET_FREE,
     so_buffer = 0, so_offset = 0, so_end = 0, tcon = boot_tcon\<rparr>"

definition boot_port :: port where
  "boot_port = \<lparr>po_pid = 0, active_socket = None, passive_socket = None\<rparr>"

definition boot_file :: kfile where
  "boot_file = \<lparr>f_type = FD_NONE, f_ref = 0, f_readable = False, f_writable = False,
     f_pipe = None, f_ip = None, f_socket = None, f_off = 0\<rparr>"

definition boot_arp_entry :: arp_entry where
  "boot_arp_entry = \<lparr>ae_ip = 0, ae_mac = replicate MAC_SIZE 0, valid_until = 0, ae_status = EMPTY\<rparr>"

definition idle_nic :: nic where
  "idle_nic = \<lparr>nic_dev = (\<lambda>r l. 0), nic_pci = (\<lambda>r l. 0), nic_log = [], nic_regs = 0,
     tx_buffer = replicate 1514 0, rx_ring = replicate (8192 + 16) 0, rx_ring_addr = 0x80120000,
     tx_buffer_addr = 0x80123000, cur_tx = 0, cur_rx = 0, packets_received_good = 0, byte_received = 0,
     pci_device_no = 0, nic_sent = []\<rparr>"

definition boot_pipe :: pipe where
  "boot_pipe = \<lparr>p_lock = False, p_data = replicate 512 0, nread = 0, nwrite = 0, readopen = False, writeopen = False\<rparr>"

definition boot_net :: net where
  "boot_net = \<lparr>n_kmem = \<lparr>km_lock = False, use_lock = True, freelist = 0, mem = (\<lambda>_. 0)\<rparr>, n_kend = 0x80130000,
     n_mac = replicate MAC_SIZE 0, n_nic = idle_nic, arp_lk = False, arp_cache = replicate ARP_CACHE_SIZE boot_arp_entry,
     tickslock = False, n_ticks = 0, n_ip_id = 0, MYIP = 0xc0a80202, NETMASK = 0xffffff00, GATEWAY = 0xc0a80201, icmp_echo_reply_received = 0,
     icmp_reply_pkt_info = \<lparr>icmp_size = 0, icmp_src_ip = 0, icmp_seq_no = 0\<rparr>,
     requests = replicate MAX_PENDING_REQUESTS \<lparr>client_ip = 0, request_packet = replicate TCP_PACKET_SIZE 0\<rparr>,
     portlock = False, ports = (\<lambda>_. boot_port), socklock = False, sockets = replicate NSOCKETS boot_socket,
     ftable_lk = False, ftable = replicate NFILE boot_file, ofile = replicate NOFILE None,
     pipes = (\<lambda>_. boot_pipe), n_fs = zero_fs, n_myproc = Some 1, n_killed = False, junk = replicate TCP_PACKET_SIZE 0, cons_out = [], woken = []\<rparr>"

lemmas boot_defs = boot_queue_def boot_tcon_def boot_socket_def boot_port_def boot_file_def
  boot_arp_entry_def idle_nic_def boot_net_def

end
