(* ===== verification/Nic.thy ===== *)
theory Nic
  imports NetState
begin

text \<open>
  \<^verbatim>\<open>src/pci.c\<close> and the transmit and set-up part of the card driver \<^verbatim>\<open>src/rtl8139.c\<close> (its receive part
  calls up into the stack and is in theory \<open>NetRx\<close>). Register accesses go through \<open>reg_rd\<close> and
  \<open>reg_wr\<close>, which log them; the card answers reads with \<open>nic_dev\<close>. A store to a \<open>TxStatus\<close>
  register with the length in its low bits starts the transmission of that many bytes of
  \<open>tx_buffer\<close>: \<open>nic_sent\<close> collects those frames.
\<close>

section \<open>Access to the card\<close>

definition nic_upd :: "(nic \<Rightarrow> nic) \<Rightarrow> unit nm" where
  "nic_upd f = upd (\<lambda>n. n\<lparr>n_nic := f (n_nic n)\<rparr>)"

definition log_access :: "access \<Rightarrow> unit nm" where
  "log_access a = nic_upd (\<lambda>c. c\<lparr>nic_log := nic_log c @ [a]\<rparr>)"

definition reg_rd :: "nreg \<Rightarrow> uint32 nm" where
  "reg_rd r = bnd (gets (\<lambda>n. nic_dev (n_nic n) r (nic_log (n_nic n)))) (\<lambda>v. thn (log_access (RegRd r)) (ret v))"

definition reg_wr :: "nreg \<Rightarrow> uint32 \<Rightarrow> unit nm" where
  "reg_wr r v = log_access (RegWr r v)"

section \<open>PCI configuration space\<close>

definition pci_address :: "uchar \<Rightarrow> uchar \<Rightarrow> uchar \<Rightarrow> uchar \<Rightarrow> uint32" where
  "pci_address bus device func offs =
     push_bit 31 1 OR push_bit 16 (ucast bus) OR push_bit 11 (ucast device) OR
     push_bit 8 (ucast func) OR (ucast offs AND 0xfc)"

definition read_pci_config_register :: "uchar \<Rightarrow> uchar \<Rightarrow> uchar \<Rightarrow> uchar \<Rightarrow> uint32 nm" where
  "read_pci_config_register bus device func offs =
     (let address = pci_address bus device func offs in
      bnd (gets (\<lambda>n. nic_pci (n_nic n) address (nic_log (n_nic n))))
        (\<lambda>v. thn (log_access (PciRd address)) (ret v)))"

definition write_pci_config_register :: "uchar \<Rightarrow> uchar \<Rightarrow> uchar \<Rightarrow> uchar \<Rightarrow> uint32 \<Rightarrow> unit nm" where
  "write_pci_config_register bus device func offs data =
     log_access (PciWr (pci_address bus device func offs) data)"

section \<open>Set-up\<close>

abbreviation RX_BUF_LEN :: nat where "RX_BUF_LEN \<equiv> 8192"
abbreviation TX_BUF_SIZE :: nat where "TX_BUF_SIZE \<equiv> 1514"
abbreviation ETH_ZLEN :: nat where "ETH_ZLEN \<equiv> 60"
abbreviation NUM_TX_DESC :: uint32 where "NUM_TX_DESC \<equiv> 4"

definition rx_config :: uint32 where
  "rx_config = push_bit 11 0 OR push_bit 13 4 OR push_bit 8 4"

abbreviation RxBufEmpty :: uint32 where "RxBufEmpty \<equiv> 0x01"
abbreviation CmdTxEnb :: uint32 where "CmdTxEnb \<equiv> 0x04"
abbreviation CmdRxEnb :: uint32 where "CmdRxEnb \<equiv> 0x08"
abbreviation CmdReset :: uint32 where "CmdReset \<equiv> 0x10"
abbreviation RxOK :: uint32 where "RxOK \<equiv> 0x0001"
abbreviation RxErr :: uint32 where "RxErr \<equiv> 0x0002"
abbreviation TxOK :: uint32 where "TxOK \<equiv> 0x0004"
abbreviation TxErr :: uint32 where "TxErr \<equiv> 0x0008"

definition rtl8139_set_rx_mode :: "unit nm" where
  "rtl8139_set_rx_mode = seqk [
     reg_wr RxConfig (rx_config OR (0x08 OR 0x02)),
     reg_wr (MAR 0) 0xffffffff,
     reg_wr (MAR 4) 0xffffffff]"

text \<open>At most \<open>j\<close> polls of the command register for the end of the reset.\<close>

fun reset_poll :: "nat \<Rightarrow> unit nm" where
  "reset_poll 0 = ret ()"
| "reset_poll (Suc j) = bnd (reg_rd Cmd) (\<lambda>c. if c AND 0x10 = 0 then ret () else reset_poll j)"

definition rtl8139_reset :: "unit nm" where
  "rtl8139_reset = seqk [
     reg_wr Cmd CmdReset,
     reset_poll 1000,
     reg_wr Cfg9346 0xC0,
     reg_wr Cmd (CmdTxEnb OR CmdRxEnb),
     reg_wr RxConfig rx_config,
     reg_wr TxConfig (push_bit 8 4 OR 0x03000000),
     bnd (reg_rd BasicModeCtrl) (\<lambda>v. reg_wr BasicModeCtrl ((v AND 0xffff) OR 0x0100)),
     reg_wr Cfg9346 0x00,
     bnd (gets (\<lambda>n. rx_ring_addr (n_nic n))) (\<lambda>a. reg_wr RxBufStart (V2P a)),
     reg_wr MissedPacketCounter 0,
     rtl8139_set_rx_mode,
     reg_wr Cmd (CmdTxEnb OR CmdRxEnb OR RxBufEmpty),
     reg_wr ISR 0xff,
     reg_wr IMR (TxOK OR RxOK OR TxErr),
     nic_upd (\<lambda>c. c\<lparr>cur_rx := 0\<rparr>),
     nic_upd (\<lambda>c. c\<lparr>cur_tx := 0\<rparr>)]"

text \<open>The search for the card: devices \<open>i\<close> to 31 of bus 0, then 32 if it is not there.\<close>

fun find_nic :: "nat \<Rightarrow> nat \<Rightarrow> nat nm" where
  "find_nic i 0 = ret i"
| "find_nic i (Suc k) =
     bnd (read_pci_config_register 0 (of_nat i) 0 0)
       (\<lambda>v. if v = 0x813910ec then ret i else find_nic (Suc i) k)"

definition ioapicenable_nic :: "nat \<Rightarrow> nat \<Rightarrow> unit nm" where
  "ioapicenable_nic irq cpunum = log_access (Ioapic irq cpunum)"

definition nicinit :: "unit nm" where
  "nicinit =
     bnd (find_nic 0 32) (\<lambda>i.
     thn (nic_upd (\<lambda>c. c\<lparr>pci_device_no := of_nat i\<rparr>))
     (thn (bnd (read_pci_config_register 0 (of_nat i) 0 0x4)
             (\<lambda>v. write_pci_config_register 0 (of_nat i) 0 0x4 (v OR 0x7)))
     (thn (bnd (read_pci_config_register 0 (of_nat i) 0 0x14) (\<lambda>v. nic_upd (\<lambda>c. c\<lparr>nic_regs := v\<rparr>)))
     (bnd (reg_rd (IDR 0)) (\<lambda>m0. bnd (reg_rd (IDR 1)) (\<lambda>m1. bnd (reg_rd (IDR 2)) (\<lambda>m2.
      bnd (reg_rd (IDR 3)) (\<lambda>m3. bnd (reg_rd (IDR 4)) (\<lambda>m4. bnd (reg_rd (IDR 5)) (\<lambda>m5. seqk [
        upd (\<lambda>n. n\<lparr>n_mac := map ucast [m0, m1, m2, m3, m4, m5]\<rparr>),
        ioapicenable_nic 9 0,
        ioapicenable_nic 11 0,
        reg_wr Config1 0x0,
        rtl8139_reset]))))))))))"

section \<open>Transmission\<close>

text \<open>The status word that starts a transmission carries the length and clears the OWN bit.\<close>

definition txstatus_of :: "nat \<Rightarrow> uint32" where
  "txstatus_of len = (push_bit 11 256 OR of_nat len) AND 0xffffdfff"

text \<open>\<open>packet\<close> is the object of \<open>length\<close> bytes to send.\<close>

definition rtl8139_send :: "bytes \<Rightarrow> unit nm" where
  "rtl8139_send packet =
     (if length packet = 0 then ret ()
      else thn (requirek (length packet \<le> TX_BUF_SIZE) (OutOfBounds ''tx_buffer''))
       (let len = max (length packet) ETH_ZLEN;
            pad = replicate (len - length packet) 0;
            txstatus = txstatus_of len in
        thn (nic_upd (\<lambda>c. c\<lparr>tx_buffer := splice_at 0 (packet @ pad) (tx_buffer c)\<rparr>))
        (bnd (gets (\<lambda>n. n_nic n)) (\<lambda>c. seqk [
          reg_wr (TxAddr (unat (cur_tx c))) (V2P (tx_buffer_addr c)),
          reg_wr (TxStatus (unat (cur_tx c))) txstatus,
          nic_upd (\<lambda>c. c\<lparr>nic_sent := nic_sent c @ [take (unat (txstatus AND 0x1fff)) (tx_buffer c)]\<rparr>),
          thn (reg_rd (TxStatus (unat (cur_tx c)))) (ret ())]))))"

section \<open>Properties\<close>

lemmas nic_simps = nic_upd_def log_access_def reg_rd_def reg_wr_def

lemma txstatus_len: "len < 8192 \<Longrightarrow> unat (txstatus_of len AND 0x1fff) = len"
proof -
  assume len: "len < 8192"
  have "txstatus_of len AND 0x1fff = (push_bit 11 256 OR of_nat len) AND (0xffffdfff AND 0x1fff)"
    unfolding txstatus_of_def by (rule and.assoc)
  also have "\<dots> = (push_bit 11 256 AND 0x1fff) OR (of_nat len AND 0x1fff)"
    by (simp add: bit.conj_disj_distrib2)
  also have "\<dots> = take_bit 13 (of_nat len)"
    by (simp add: take_bit_eq_mask mask_eq_exp_minus_1)
  finally show ?thesis
    using len by (simp add: take_bit_eq_mod unat_mod_distrib unat_of_nat_word)
qed

text \<open>The frame that the card puts on the wire for a packet: the packet, padded with zeros to the
  minimum of 60 bytes.\<close>

definition wire_frame :: "bytes \<Rightarrow> bytes" where
  "wire_frame packet = packet @ replicate (ETH_ZLEN - length packet) 0"

lemma length_wire_frame: "length (wire_frame p) = max (length p) ETH_ZLEN"
  by (auto simp: wire_frame_def)

lemma wire_frame_pad:
  "p @ replicate (length (wire_frame p) - length p) 0 = wire_frame p"
  by (auto simp: wire_frame_def)

definition nic_ok :: "nic \<Rightarrow> bool" where
  "nic_ok c \<longleftrightarrow> length (tx_buffer c) = TX_BUF_SIZE \<and> length (rx_ring c) = RX_BUF_LEN + 16"

definition after_send :: "bytes \<Rightarrow> nic \<Rightarrow> nic" where
  "after_send p c = c\<lparr>
     tx_buffer := splice_at 0 (wire_frame p) (tx_buffer c),
     nic_log := nic_log c @ [RegWr (TxAddr (unat (cur_tx c))) (V2P (tx_buffer_addr c)),
       RegWr (TxStatus (unat (cur_tx c))) (txstatus_of (length (wire_frame p))),
       RegRd (TxStatus (unat (cur_tx c)))],
     nic_sent := nic_sent c @ [wire_frame p]\<rparr>"

lemma rtl8139_send_run:
  assumes "0 < length p" "length p \<le> TX_BUF_SIZE" "nic_ok (n_nic n)"
  shows "rtl8139_send p n sch = Ret () (n\<lparr>n_nic := after_send p (n_nic n)\<rparr>) sch"
proof -
  have wl: "length (wire_frame p) \<le> TX_BUF_SIZE" using assms(2) by (simp add: length_wire_frame)
  then have len: "unat (txstatus_of (length (wire_frame p)) AND 0x1fff) = length (wire_frame p)"
    by (intro txstatus_len) simp
  have tk: "take (length (wire_frame p)) (splice_at 0 (wire_frame p) (tx_buffer (n_nic n))) = wire_frame p"
    by (simp add: splice_at_def)
  have "max (length p) ETH_ZLEN = length (wire_frame p)" by (simp add: length_wire_frame)
  then show ?thesis
    using assms len tk
    by (simp add: rtl8139_send_def nic_simps after_send_def Let_def wire_frame_pad)
qed

lemma nic_ok_after_send:
  "nic_ok c \<Longrightarrow> length p \<le> TX_BUF_SIZE \<Longrightarrow> nic_ok (after_send p c)"
  by (simp add: nic_ok_def after_send_def length_wire_frame)

lemma rtl8139_send_empty: "rtl8139_send [] n sch = Ret () n sch"
  by (simp add: rtl8139_send_def)

end
