(* ===== verification/Arp.thy ===== *)
theory Arp
  imports Nic
begin

text \<open>
  \<^verbatim>\<open>ether_send\<close> of \<^verbatim>\<open>src/ether.c\<close> and the address resolution of \<^verbatim>\<open>src/arp.c\<close>: the cache of ten
  entries, requests and replies. \<open>arp_resolve\<close> may sleep until the reply has come in; the
  schedule says what happens in the meantime.

  The lemmas show that a resolution that is not in the cache broadcasts one request and, when
  the reply comes in, returns the hardware address of the reply; that no operation makes two
  live entries for one address; when the cache is full; and that a host answers exactly the
  requests for its own address.
\<close>

section \<open>Sending a frame\<close>

definition ether_frame :: "bytes \<Rightarrow> bytes \<Rightarrow> ushort \<Rightarrow> bytes \<Rightarrow> bytes" where
  "ether_frame dst src type payload = take MAC_SIZE dst @ take MAC_SIZE src @ le16 (htons type) @ payload"

definition ether_send :: "bytes \<Rightarrow> ushort \<Rightarrow> bytes \<Rightarrow> unit nm" where
  "ether_send destMAC type payload =
     (if length payload > ETHERNET_PAYLOAD_SIZE_MAX
      then print_line (str ''maximum payload size exceeded!'')
      else bnd (gets n_mac) (\<lambda>MAC. rtl8139_send (ether_frame destMAC MAC type payload)))"

section \<open>The cache\<close>

definition set_entry :: "nat \<Rightarrow> (arp_entry \<Rightarrow> arp_entry) \<Rightarrow> unit nm" where
  "set_entry i f = upd (\<lambda>n. n\<lparr>arp_cache := (arp_cache n)[i := f (arp_cache n ! i)]\<rparr>)"

text \<open>The second loop of \<open>arp_alloc\<close>: the oldest entry that is not waiting for a reply.\<close>

fun arp_oldest :: "uint32 \<Rightarrow> nat option \<Rightarrow> nat \<Rightarrow> arp_entry list \<Rightarrow> nat option" where
  "arp_oldest minticks i_min i [] = i_min"
| "arp_oldest minticks i_min i (e # es) =
     (if ae_status e \<noteq> REQUESTED \<and> valid_until e < minticks
      then arp_oldest (valid_until e) (Some i) (Suc i) es
      else arp_oldest minticks i_min (Suc i) es)"

definition arp_reusable :: "uint32 \<Rightarrow> arp_entry \<Rightarrow> bool" where
  "arp_reusable now e \<longleftrightarrow> ae_status e = EMPTY \<or> ae_status e = USED \<and> valid_until e < now"

definition arp_alloc :: "nat nm" where
  "arp_alloc =
     bnd (gets (\<lambda>n. find_idx (arp_reusable (n_ticks n)) (arp_cache n))) (\<lambda>r.
     case r of
       Some i \<Rightarrow> thn (set_entry i (\<lambda>e. e\<lparr>ae_status := EMPTY\<rparr>)) (ret i)
     | None \<Rightarrow>
         bnd (gets (\<lambda>n. arp_oldest 0xffffffff None 0 (arp_cache n))) (\<lambda>m.
         case m of
           None \<Rightarrow> panic ''arp cache full''
         | Some i \<Rightarrow> thn (set_entry i (\<lambda>e. e\<lparr>ae_status := EMPTY\<rparr>)) (ret i)))"

definition arp_live :: "uint32 \<Rightarrow> uint32 \<Rightarrow> arp_entry \<Rightarrow> bool" where
  "arp_live now ip e \<longleftrightarrow> ae_ip e = ip \<and> ae_status e = USED \<and> now \<le> valid_until e"

definition arp_search :: "uint32 \<Rightarrow> nat option nm" where
  "arp_search ip = gets (\<lambda>n. find_idx (arp_live (n_ticks n) ip) (arp_cache n))"

definition arp_pending :: "uint32 \<Rightarrow> arp_entry \<Rightarrow> bool" where
  "arp_pending ip e \<longleftrightarrow> ae_ip e = ip \<and> ae_status e = REQUESTED"

definition find_pending :: "uint32 \<Rightarrow> nat option nm" where
  "find_pending ip = gets (\<lambda>n. find_idx (arp_pending ip) (arp_cache n))"

section \<open>Requests and replies\<close>

definition broadcast_mac :: bytes where "broadcast_mac = replicate MAC_SIZE 0xff"

definition arp_request_packet :: "bytes \<Rightarrow> uint32 \<Rightarrow> uint32 \<Rightarrow> arp_packet" where
  "arp_request_packet MAC myip ip = \<lparr>
     hwd_type = htons ARP_HTYPE_ETHERNET, prot_type = htons ETHERNET_TYPE_IP,
     hwd_length = of_nat MAC_SIZE, prot_length = IP_ADDR_SIZE, arp_op = htons ARP_OP_REQUEST,
     sender_haddr = take MAC_SIZE MAC, sender_paddr = htonl myip,
     target_haddr = replicate MAC_SIZE 0, target_paddr = htonl ip\<rparr>"

definition arp_request :: "uint32 \<Rightarrow> unit nm" where
  "arp_request ip = bnd (gets id) (\<lambda>n.
     ether_send broadcast_mac ETHERNET_TYPE_ARP (arp_bytes (arp_request_packet (n_mac n) (MYIP n) ip)))"

definition arp_reply_packet :: "bytes \<Rightarrow> uint32 \<Rightarrow> arp_packet \<Rightarrow> arp_packet" where
  "arp_reply_packet MAC myip req = \<lparr>
     hwd_type = htons ARP_HTYPE_ETHERNET, prot_type = htons ETHERNET_TYPE_IP,
     hwd_length = of_nat MAC_SIZE, prot_length = IP_ADDR_SIZE, arp_op = htons ARP_OP_REPLY,
     sender_haddr = take MAC_SIZE MAC, sender_paddr = htonl myip,
     target_haddr = sender_haddr req, target_paddr = sender_paddr req\<rparr>"

definition arp_reply :: "arp_packet \<Rightarrow> unit nm" where
  "arp_reply req = bnd (gets id) (\<lambda>n.
     if htonl (target_paddr req) \<noteq> MYIP n then ret ()
     else ether_send (sender_haddr req) ETHERNET_TYPE_ARP
            (arp_bytes (arp_reply_packet (n_mac n) (MYIP n) req)))"

abbreviation acquire_arp :: "unit nm" where "acquire_arp \<equiv> lock_acquire arp_lk arp_lk_update"
abbreviation release_arp :: "unit nm" where "release_arp \<equiv> lock_release arp_lk arp_lk_update"
abbreviation arp_chan :: "nat \<Rightarrow> chan" where "arp_chan i \<equiv> Chan ''arp'' i"

definition next_hop :: "net \<Rightarrow> uint32 \<Rightarrow> uint32" where
  "next_hop n ip = (if ip AND NETMASK n \<noteq> MYIP n AND NETMASK n then GATEWAY n else ip)"

definition entry_mac :: "nat \<Rightarrow> bytes nm" where
  "entry_mac i = gets (\<lambda>n. ae_mac (arp_cache n ! i))"

definition arp_resolve :: "uint32 \<Rightarrow> bytes nm" where
  "arp_resolve ip0 =
     bnd (gets (\<lambda>n. next_hop n ip0)) (\<lambda>ip.
     thn acquire_arp
     (bnd (arp_search ip) (\<lambda>r.
      case r of
        Some i \<Rightarrow> thn release_arp (entry_mac i)
      | None \<Rightarrow>
          bnd (find_pending ip) (\<lambda>q.
          case q of
            Some i \<Rightarrow> thn (sleep_on (arp_chan i) arp_lk arp_lk_update) (thn release_arp (entry_mac i))
          | None \<Rightarrow>
              bnd arp_alloc (\<lambda>i.
              thn (set_entry i (\<lambda>e. e\<lparr>ae_ip := ip\<rparr>))
              (thn (set_entry i (\<lambda>e. e\<lparr>ae_status := REQUESTED\<rparr>))
              (thn (arp_request ip)
              (thn (sleep_on (arp_chan i) arp_lk arp_lk_update)
              (thn release_arp (entry_mac i))))))))))"

definition arp_add :: "uint32 \<Rightarrow> bytes \<Rightarrow> unit nm" where
  "arp_add ip mac =
     thn acquire_arp
     (bnd (arp_search ip) (\<lambda>r.
      case r of
        Some i \<Rightarrow> release_arp
      | None \<Rightarrow>
          bnd (find_pending ip) (\<lambda>q.
          bnd (case q of Some i \<Rightarrow> ret i | None \<Rightarrow> arp_alloc) (\<lambda>i.
          thn (set_entry i (\<lambda>e. e\<lparr>ae_ip := ip, ae_mac := take MAC_SIZE mac\<rparr>))
          (thn (bnd (gets n_ticks) (\<lambda>t. set_entry i (\<lambda>e. e\<lparr>valid_until := t + ARP_TTL_TICKS, ae_status := USED\<rparr>)))
          (thn (if q \<noteq> None then wakeup (arp_chan i) else ret ())
          release_arp))))))"

definition arp_receive :: "bytes \<Rightarrow> unit nm" where
  "arp_receive pkt =
     thn (requirek (28 \<le> length pkt) (OutOfBounds ''arp packet''))
     (let ap = arp_of_bytes pkt in
      if htons (arp_op ap) = ARP_OP_REQUEST then arp_reply ap
      else if htons (arp_op ap) = ARP_OP_REPLY then
        (let ip = htonl (sender_paddr ap) in
         thn acquire_arp
         (bnd (find_pending ip) (\<lambda>q.
          case q of
            None \<Rightarrow> release_arp
          | Some i \<Rightarrow>
              thn (set_entry i (\<lambda>e. e\<lparr>ae_mac := sender_haddr ap\<rparr>))
              (thn (bnd (gets n_ticks) (\<lambda>t. set_entry i (\<lambda>e. e\<lparr>valid_until := t + ARP_TTL_TICKS, ae_status := USED\<rparr>)))
              (thn (wakeup (arp_chan i)) release_arp)))))
      else ret ())"

definition arpinit :: "unit nm" where
  "arpinit = upd (\<lambda>n. n\<lparr>arp_lk := False\<rparr>)"

section \<open>Layout of packets and frames\<close>

definition arp_wf :: "arp_packet \<Rightarrow> bool" where
  "arp_wf ap \<longleftrightarrow> length (sender_haddr ap) = MAC_SIZE \<and> length (target_haddr ap) = MAC_SIZE"

lemma length_arp_bytes: "arp_wf ap \<Longrightarrow> length (arp_bytes ap) = 28"
  by (simp add: arp_bytes_def arp_wf_def)

lemma length6: "length xs = 6 \<Longrightarrow> \<exists>a b c d e f. xs = [a, b, c, d, e, f]"
  by (auto simp: length_Suc_conv eval_nat_numeral)

lemma arp_of_arp_bytes: "arp_wf ap \<Longrightarrow> arp_of_bytes (arp_bytes ap @ rest) = ap"
proof -
  assume "arp_wf ap"
  then obtain a b c d e f g h i j k l
    where "sender_haddr ap = [a, b, c, d, e, f]" "target_haddr ap = [g, h, i, j, k, l]"
    using length6 unfolding arp_wf_def by metis
  then show ?thesis
    by (cases ap) (simp add: arp_of_bytes_def arp_bytes_def rd16_def rd32_def le16_def le32_def)
qed

lemma length_ether_frame:
  "length d = 6 \<Longrightarrow> length m = 6 \<Longrightarrow> length (ether_frame d m t p) = 14 + length p"
  by (simp add: ether_frame_def)

lemma ether_frame_nonempty: "0 < length (ether_frame d m t p)"
  by (simp add: ether_frame_def)

lemma length_ether_frame_le: "length (ether_frame d m t p) \<le> 14 + length p"
  by (simp add: ether_frame_def)

lemma ether_send_run:
  assumes "length p \<le> ETHERNET_PAYLOAD_SIZE_MAX" "nic_ok (n_nic n)"
  shows "ether_send d t p n sch = Ret () (n\<lparr>n_nic := after_send (ether_frame d (n_mac n) t p) (n_nic n)\<rparr>) sch"
  using assms length_ether_frame_le [of d "n_mac n" t p] ether_frame_nonempty [of d "n_mac n" t p]
  by (simp add: ether_send_def rtl8139_send_run del: length_greater_0_conv)

lemma ether_send_too_long:
  "length p > ETHERNET_PAYLOAD_SIZE_MAX \<Longrightarrow>
   ether_send d t p n sch = Ret () (n\<lparr>cons_out := cons_out n @ [str ''maximum payload size exceeded!'']\<rparr>) sch"
  by (simp add: ether_send_def)

lemma arp_packets_wf:
  "length m = 6 \<Longrightarrow> arp_wf (arp_request_packet m myip ip)"
  "length m = 6 \<Longrightarrow> length (sender_haddr req) = 6 \<Longrightarrow> arp_wf (arp_reply_packet m myip req)"
  by (simp_all add: arp_wf_def arp_request_packet_def arp_reply_packet_def)

section \<open>The invariant of the cache\<close>

definition net_ok :: "net \<Rightarrow> bool" where
  "net_ok n \<longleftrightarrow> nic_ok (n_nic n) \<and> length (n_mac n) = 6 \<and> length (arp_cache n) = ARP_CACHE_SIZE"

definition arp_active :: "uint32 \<Rightarrow> arp_entry \<Rightarrow> bool" where
  "arp_active now e \<longleftrightarrow> ae_status e = REQUESTED \<or> ae_status e = USED \<and> now \<le> valid_until e"

definition arp_unique :: "uint32 \<Rightarrow> arp_entry list \<Rightarrow> bool" where
  "arp_unique now c \<longleftrightarrow> (\<forall>i j. i < length c \<longrightarrow> j < length c \<longrightarrow> arp_active now (c ! i) \<longrightarrow>
     arp_active now (c ! j) \<longrightarrow> ae_ip (c ! i) = ae_ip (c ! j) \<longrightarrow> i = j)"

definition arp_inv :: "net \<Rightarrow> bool" where
  "arp_inv n \<longleftrightarrow> net_ok n \<and> arp_unique (n_ticks n) (arp_cache n)"

lemma arp_unique_free:
  "arp_unique now c \<Longrightarrow> arp_unique now (c[i := (c ! i)\<lparr>ae_status := EMPTY\<rparr>])"
  unfolding arp_unique_def by (auto simp: nth_upd arp_active_def split: if_splits)

lemma arp_unique_claim:
  assumes "arp_unique now c" "\<forall>e\<in>set c. arp_active now e \<longrightarrow> ae_ip e \<noteq> ae_ip e'"
  shows "arp_unique now (c[i := e'])"
  using assms unfolding arp_unique_def by (auto simp: nth_upd split: if_splits)

lemma arp_unique_refresh:
  assumes "arp_unique now c" "i < length c" "arp_active now (c ! i)" "ae_ip e' = ae_ip (c ! i)"
  shows "arp_unique now (c[i := e'])"
  using assms unfolding arp_unique_def by (auto simp: nth_upd split: if_splits)

lemma not_active:
  assumes "find_idx (arp_live now ip) c = None" "find_idx (arp_pending ip) c = None" "e \<in> set c"
    "arp_active now e"
  shows "ae_ip e \<noteq> ip"
  using assms by (auto simp: find_idx_None_iff arp_live_def arp_pending_def arp_active_def)

section \<open>Allocation\<close>

lemma arp_oldest_Some:
  assumes "arp_oldest mt im k c = Some i"
  shows "im = Some i \<or> k \<le> i \<and> i - k < length c \<and> ae_status (c ! (i - k)) \<noteq> REQUESTED \<and>
    valid_until (c ! (i - k)) < mt"
  using assms
proof (induction mt im k c rule: arp_oldest.induct)
  case (1 mt im k)
  then show ?case by simp
next
  case (2 mt im k e es)
  show ?case
  proof (cases "ae_status e \<noteq> REQUESTED \<and> valid_until e < mt")
    case True
    with 2 have "Some k = Some i \<or> Suc k \<le> i \<and> i - Suc k < length es \<and>
      ae_status (es ! (i - Suc k)) \<noteq> REQUESTED \<and> valid_until (es ! (i - Suc k)) < valid_until e" by auto
    with True show ?thesis by (auto simp: nth_Cons' )
  next
    case False
    with 2 have "im = Some i \<or> Suc k \<le> i \<and> i - Suc k < length es \<and>
      ae_status (es ! (i - Suc k)) \<noteq> REQUESTED \<and> valid_until (es ! (i - Suc k)) < mt" by auto
    then show ?thesis by (auto simp: nth_Cons')
  qed
qed


definition arp_slot :: "uint32 \<Rightarrow> arp_entry list \<Rightarrow> nat option" where
  "arp_slot now c = (case find_idx (arp_reusable now) c of
     Some i \<Rightarrow> Some i | None \<Rightarrow> arp_oldest 0xffffffff None 0 c)"

lemma arp_alloc_run:
  "arp_alloc n sch = (case arp_slot (n_ticks n) (arp_cache n) of
     None \<Rightarrow> Fail (Panic ''arp cache full'')
   | Some i \<Rightarrow> Ret i (n\<lparr>arp_cache := (arp_cache n)[i := (arp_cache n ! i)\<lparr>ae_status := EMPTY\<rparr>]\<rparr>) sch)"
  by (simp add: arp_alloc_def arp_slot_def set_entry_def split: option.split)

lemma arp_slot_Some:
  assumes "arp_slot now c = Some i"
  shows "i < length c \<and> ae_status (c ! i) \<noteq> REQUESTED"
  using assms arp_oldest_Some [of "0xffffffff" None 0 c i]
  by (auto simp: arp_slot_def arp_reusable_def find_idx_Some_iff split: option.splits)


section \<open>Properties of address resolution\<close>

definition claimed :: "uint32 \<Rightarrow> nat \<Rightarrow> net \<Rightarrow> net" where
  "claimed ip i n = n\<lparr>arp_cache := (arp_cache n)[i := (arp_cache n ! i)\<lparr>ae_ip := ip, ae_status := REQUESTED\<rparr>],
     n_nic := after_send (ether_frame broadcast_mac (n_mac n) ETHERNET_TYPE_ARP
       (arp_bytes (arp_request_packet (n_mac n) (MYIP n) ip))) (n_nic n),
     arp_lk := False\<rparr>"

lemma arp_request_run:
  assumes "net_ok n"
  shows "arp_request ip n sch = Ret () (n\<lparr>n_nic := after_send (ether_frame broadcast_mac (n_mac n) ETHERNET_TYPE_ARP
       (arp_bytes (arp_request_packet (n_mac n) (MYIP n) ip))) (n_nic n)\<rparr>) sch"
  using assms by (simp add: arp_request_def net_ok_def ether_send_run length_arp_bytes arp_packets_wf)

lemma net_ok_cache:
  "length c = length (arp_cache n) \<Longrightarrow> net_ok (n\<lparr>arp_cache := c\<rparr>) = net_ok n"
  by (simp add: net_ok_def)

text \<open>Asking for an address that is neither in the cache nor already asked for.\<close>

lemma arp_resolve_miss:
  assumes "net_ok n" "\<not> arp_lk n" "n_myproc n \<noteq> None"
    "find_idx (arp_live (n_ticks n) (next_hop n ip)) (arp_cache n) = None"
    "find_idx (arp_pending (next_hop n ip)) (arp_cache n) = None"
    "arp_slot (n_ticks n) (arp_cache n) = Some i"
  shows "arp_resolve ip n sch =
    thn (sleepk (arp_chan i)) (thn acquire_arp (thn release_arp (entry_mac i))) (claimed (next_hop n ip) i n) sch"
proof -
  have i: "i < length (arp_cache n)" using assms(6) arp_slot_Some by blast
  show ?thesis
    using assms i
    by (cases sch) (auto simp: arp_resolve_def arp_search_def find_pending_def arp_alloc_run set_entry_def
        arp_request_run net_ok_def claimed_def split: option.split list.split)
qed

lemma arp_receive_request:
  assumes "arp_wf req" "arp_op req = htons ARP_OP_REQUEST"
  shows "arp_receive (arp_bytes req @ rest) n sch = arp_reply req n sch"
  using assms by (simp add: arp_receive_def arp_of_arp_bytes length_arp_bytes htons_htons)

lemma arp_receive_reply:
  assumes "arp_wf rep" "arp_op rep = htons ARP_OP_REPLY" "\<not> arp_lk n"
    "find_idx (arp_pending (htonl (sender_paddr rep))) (arp_cache n) = Some i"
  shows "arp_receive (arp_bytes rep @ rest) n sch = Ret () (n\<lparr>
    arp_cache := (arp_cache n)[i := (arp_cache n ! i)\<lparr>ae_mac := sender_haddr rep,
      valid_until := n_ticks n + ARP_TTL_TICKS, ae_status := USED\<rparr>],
    woken := woken n @ [arp_chan i], arp_lk := False\<rparr>) sch"
proof -
  have i: "i < length (arp_cache n)" using find_idx_SomeD [OF assms(4)] by simp
  show ?thesis
    using assms i
    by (simp add: arp_receive_def arp_of_arp_bytes length_arp_bytes htons_htons find_pending_def set_entry_def
        Let_def)
qed

lemma arp_receive_unsolicited:
  assumes "arp_wf rep" "arp_op rep = htons ARP_OP_REPLY" "\<not> arp_lk n"
    "find_idx (arp_pending (htonl (sender_paddr rep))) (arp_cache n) = None"
  shows "arp_receive (arp_bytes rep @ rest) n sch = Ret () (n\<lparr>arp_lk := False\<rparr>) sch"
  using assms by (simp add: arp_receive_def arp_of_arp_bytes length_arp_bytes htons_htons find_pending_def Let_def)


lemma arp_resolve_hit:
  assumes "\<not> arp_lk n" "find_idx (arp_live (n_ticks n) (next_hop n ip)) (arp_cache n) = Some i"
  shows "arp_resolve ip n sch = Ret (ae_mac (arp_cache n ! i)) (n\<lparr>arp_lk := False\<rparr>) sch"
  using assms by (simp add: arp_resolve_def arp_search_def entry_mac_def)



section \<open>No two entries for one address\<close>

lemma arp_inv_simps [simp]:
  "arp_inv (n\<lparr>arp_lk := b\<rparr>) = arp_inv n"
  "arp_inv (n\<lparr>woken := w\<rparr>) = arp_inv n"
  by (simp_all add: arp_inv_def net_ok_def)

lemma arp_inv_claimed:
  assumes "arp_inv n" "find_idx (arp_live (n_ticks n) ip) (arp_cache n) = None"
    "find_idx (arp_pending ip) (arp_cache n) = None"
  shows "arp_inv (claimed ip i n)"
proof -
  define c where "c = arp_cache n"
  have "\<forall>e\<in>set c. arp_active (n_ticks n) e \<longrightarrow> ae_ip e \<noteq> ip"
    using not_active assms(2,3) unfolding c_def by blast
  then have "arp_unique (n_ticks n) (c[i := (c ! i)\<lparr>ae_ip := ip, ae_status := REQUESTED\<rparr>])"
    using assms(1) by (intro arp_unique_claim) (auto simp: arp_inv_def c_def)
  moreover have "net_ok (claimed ip i n)"
  proof -
    have "length (ether_frame broadcast_mac (n_mac n) ETHERNET_TYPE_ARP
       (arp_bytes (arp_request_packet (n_mac n) (MYIP n) ip))) \<le> 1514"
      using assms(1) by (simp add: arp_inv_def net_ok_def length_ether_frame broadcast_mac_def
          length_arp_bytes arp_packets_wf)
    then show ?thesis
      using assms(1) by (simp add: arp_inv_def net_ok_def claimed_def nic_ok_after_send)
  qed
  ultimately show ?thesis by (simp add: arp_inv_def claimed_def c_def)
qed

lemma keeps_arp_sleep:
  "keeps arp_inv (thn (sleepk c) (thn acquire_arp (thn release_arp (entry_mac i))))"
  unfolding lock_acquire_def lock_release_def entry_mac_def
  by (intro keeps_rules keeps_upd) simp_all

lemma keeps_arp_resolve: "keeps arp_inv (arp_resolve ip)"
proof (rule keepsI)
  fix n sch assume n: "arp_inv n" and sch: "env_keeps arp_inv sch"
  define hop where "hop = next_hop n ip"
  consider (locked) "arp_lk n" | (hit) i where "\<not> arp_lk n" "find_idx (arp_live (n_ticks n) hop) (arp_cache n) = Some i"
    | (wait) i where "\<not> arp_lk n" "find_idx (arp_live (n_ticks n) hop) (arp_cache n) = None"
        "find_idx (arp_pending hop) (arp_cache n) = Some i"
    | (miss) "\<not> arp_lk n" "find_idx (arp_live (n_ticks n) hop) (arp_cache n) = None"
        "find_idx (arp_pending hop) (arp_cache n) = None"
    by fastforce
  then show "okafter arp_inv (arp_resolve ip n sch)"
  proof cases
    case locked
    then show ?thesis by (simp add: arp_resolve_def)
  next
    case hit
    then show ?thesis using n sch arp_resolve_hit [of n ip i sch] by (simp add: hop_def)
  next
    case wait
    then have "arp_resolve ip n sch = (if n_myproc n = None then Fail (Panic ''sleep'') else
        thn (sleepk (arp_chan i)) (thn acquire_arp (thn release_arp (entry_mac i))) (n\<lparr>arp_lk := False\<rparr>) sch)"
      by (cases sch) (auto simp: arp_resolve_def arp_search_def find_pending_def hop_def)
    then show ?thesis using keepsD [OF keeps_arp_sleep, of "n\<lparr>arp_lk := False\<rparr>" sch] n sch by simp
  next
    case miss
    show ?thesis
    proof (cases "arp_slot (n_ticks n) (arp_cache n)")
      case None
      with miss show ?thesis
        by (simp add: arp_resolve_def arp_search_def find_pending_def hop_def arp_alloc_run)
    next
      case (Some i)
      show ?thesis
      proof (cases "n_myproc n = None")
        case True
        then show ?thesis
          using miss n Some by (simp add: arp_resolve_def arp_search_def find_pending_def hop_def arp_alloc_run
              set_entry_def arp_request_run arp_inv_def net_ok_def)
      next
        case False
        then show ?thesis
          using arp_resolve_miss [of n ip i sch] miss n Some arp_inv_claimed [of n hop i] sch
            keepsD [OF keeps_arp_sleep, of "claimed hop i n" sch "arp_chan i" i]
          by (simp add: hop_def arp_inv_def)
      qed
    qed
  qed
qed

lemma keeps_arp_add: "keeps arp_inv (arp_add ip mac)"
proof (rule keepsI)
  fix n :: net and sch assume n: "arp_inv n" and sch: "env_keeps arp_inv sch"
  define c where "c = arp_cache n"
  define e where "e i = (c ! i)\<lparr>ae_ip := ip, ae_mac := take MAC_SIZE mac,
      valid_until := n_ticks n + ARP_TTL_TICKS, ae_status := USED\<rparr>" for i
  have len: "length c = 10" and u: "arp_unique (n_ticks n) c"
    using n by (auto simp: arp_inv_def net_ok_def c_def)
  have A: "arp_inv (n\<lparr>arp_cache := c[i := e i]\<rparr>)" if "find_idx (arp_pending ip) c = Some i" for i
    using find_idx_SomeD [OF that] n u
    by (auto simp: arp_inv_def net_ok_def c_def e_def arp_pending_def arp_active_def intro!: arp_unique_refresh)
  have B: "arp_inv (n\<lparr>arp_cache := c[i := e i]\<rparr>)"
    if "find_idx (arp_live (n_ticks n) ip) c = None" "find_idx (arp_pending ip) c = None" for i
    using not_active [OF that] n u
    by (auto simp: arp_inv_def net_ok_def c_def e_def intro!: arp_unique_claim)
  note defs = arp_add_def arp_search_def find_pending_def arp_alloc_run set_entry_def
  show "okafter arp_inv (arp_add ip mac n sch)"
  proof (cases "arp_lk n \<or> find_idx (arp_live (n_ticks n) ip) c \<noteq> None")
    case True
    then show ?thesis using n sch by (auto simp: defs c_def split: option.split)
  next
    case False
    show ?thesis
    proof (cases "find_idx (arp_pending ip) c")
      case (Some i)
      with find_idx_SomeD [OF Some] A [OF Some] False n sch show ?thesis
        by (simp add: defs c_def e_def)
    next
      case None
      show ?thesis
      proof (cases "arp_slot (n_ticks n) c")
        case (Some i)
        with None arp_slot_Some [OF Some] B [OF _ None, of i] False n sch show ?thesis
          by (simp add: defs c_def e_def)
      qed (use False None in \<open>simp add: defs c_def\<close>)
    qed
  qed
qed

text \<open>What a request for an address does on the host it reaches.\<close>

lemma arp_reply_run:
  assumes "net_ok n" "length (sender_haddr req) = MAC_SIZE"
  shows "arp_reply req n sch =
    (if htonl (target_paddr req) \<noteq> MYIP n then Ret () n sch
     else Ret () (n\<lparr>n_nic := after_send (ether_frame (sender_haddr req) (n_mac n) ETHERNET_TYPE_ARP
       (arp_bytes (arp_reply_packet (n_mac n) (MYIP n) req))) (n_nic n)\<rparr>) sch)"
  using assms by (simp add: arp_reply_def net_ok_def ether_send_run length_arp_bytes arp_packets_wf)

lemma arp_inv_after_send:
  assumes "arp_inv n" "length p \<le> ETHERNET_PAYLOAD_SIZE_MAX"
  shows "arp_inv (n\<lparr>n_nic := after_send (ether_frame d (n_mac n) t p) (n_nic n)\<rparr>)"
  using assms length_ether_frame_le [of d "n_mac n" t p] by (simp add: arp_inv_def net_ok_def nic_ok_after_send)

lemma keeps_arp_receive: "keeps arp_inv (arp_receive pkt)"
proof (rule keepsI)
  fix n :: net and sch assume n: "arp_inv n" and sch: "env_keeps arp_inv sch"
  show "okafter arp_inv (arp_receive pkt n sch)"
  proof (cases "length pkt < 28")
    case True
    then show ?thesis by (simp add: arp_receive_def)
  next
    case False
    define ap where "ap = arp_of_bytes pkt"
    have len: "length (sender_haddr ap) = MAC_SIZE" using False by (simp add: ap_def arp_of_bytes_def)
    consider (req) "htons (arp_op ap) = ARP_OP_REQUEST" | (rep) "htons (arp_op ap) = ARP_OP_REPLY"
      | (other) "htons (arp_op ap) \<noteq> ARP_OP_REQUEST" "htons (arp_op ap) \<noteq> ARP_OP_REPLY" by blast
    then show ?thesis
    proof cases
      case req
      have "length (arp_bytes (arp_reply_packet (n_mac n) (MYIP n) ap)) \<le> ETHERNET_PAYLOAD_SIZE_MAX"
        using len n by (simp add: arp_inv_def net_ok_def length_arp_bytes arp_packets_wf)
      with req False n sch len arp_inv_after_send [OF n this] show ?thesis
        by (simp add: arp_receive_def ap_def [symmetric] arp_reply_run arp_inv_def)
    next
      case rep
      define c where "c = arp_cache n"
      show ?thesis
      proof (cases "arp_lk n \<or> find_idx (arp_pending (htonl (sender_paddr ap))) c = None")
        case True
        with rep False n sch show ?thesis
          by (auto simp: arp_receive_def ap_def [symmetric] find_pending_def c_def Let_def)
      next
        case noerr: False
        then obtain i where i: "find_idx (arp_pending (htonl (sender_paddr ap))) c = Some i" by blast
        note D = find_idx_SomeD [OF i]
        have "arp_unique (n_ticks n) (c[i := (c ! i)\<lparr>ae_mac := sender_haddr ap,
            valid_until := n_ticks n + ARP_TTL_TICKS, ae_status := USED\<rparr>])"
          using D n by (intro arp_unique_refresh)
            (auto simp: arp_inv_def c_def arp_pending_def arp_active_def)
        with rep False n sch noerr i D show ?thesis
          by (simp add: arp_receive_def ap_def [symmetric] find_pending_def c_def Let_def set_entry_def
              arp_inv_def net_ok_def)
      qed
    next
      case other
      with False n sch show ?thesis by (simp add: arp_receive_def ap_def [symmetric] Let_def)
    qed
  qed
qed

text \<open>C5: No operation on the ARP cache ever makes two live entries for the same address: whatever
  it returns and wherever it sleeps, resolving an address, learning one from a received datagram
  and receiving an ARP packet (of any content) keep the invariant that the card and cache are
  well formed and that the entries that are live or waiting for a reply have different
  addresses.\<close>

theorem arp_cache_unique:
  "keeps arp_inv (arp_resolve ip) \<and> keeps arp_inv (arp_add ip mac) \<and> keeps arp_inv (arp_receive pkt)"
  by (simp add: keeps_arp_resolve keeps_arp_add keeps_arp_receive)

text \<open>C38: A host answers an ARP request for its own address with one reply, sent to the hardware
  address of the asker and carrying its own hardware address; the asker, when it is still
  waiting for that address, stores exactly this hardware address. Requests for other addresses
  send nothing.\<close>

theorem arp_request_answered:
  assumes "net_ok b" "length (n_mac a) = MAC_SIZE"
  shows "arp_receive (arp_bytes (arp_request_packet (n_mac a) (MYIP a) ip) @ rest) b sch =
    (if ip = MYIP b then
       Ret () (b\<lparr>n_nic := after_send (ether_frame (n_mac a) (n_mac b) ETHERNET_TYPE_ARP
         (arp_bytes (arp_reply_packet (n_mac b) ip (arp_request_packet (n_mac a) (MYIP a) ip)))) (n_nic b)\<rparr>) sch
     else Ret () b sch) \<and>
    (ip = MYIP b \<longrightarrow> \<not> arp_lk a \<longrightarrow> find_idx (arp_pending ip) (arp_cache a) = Some i \<longrightarrow>
     (\<exists>a'. arp_receive (arp_bytes (arp_reply_packet (n_mac b) ip (arp_request_packet (n_mac a) (MYIP a) ip)) @ rest') a sch' = Ret () a' sch' \<and>
        ae_mac (arp_cache a' ! i) = n_mac b \<and> ae_ip (arp_cache a' ! i) = ip \<and> ae_status (arp_cache a' ! i) = USED \<and>
        arp_chan i \<in> set (woken a')))"
proof -
  let ?req = "arp_request_packet (n_mac a) (MYIP a) ip"
  let ?rep = "arp_reply_packet (n_mac b) ip ?req"
  have wf: "arp_wf ?req" "arp_wf ?rep" using assms by (auto simp: net_ok_def arp_wf_def arp_request_packet_def arp_reply_packet_def)
  have f: "sender_haddr ?req = n_mac a" "arp_op ?req = htons ARP_OP_REQUEST" "htonl (target_paddr ?req) = ip"
    "sender_haddr ?rep = n_mac b" "arp_op ?rep = htons ARP_OP_REPLY" "htonl (sender_paddr ?rep) = ip"
    using assms by (simp_all add: arp_request_packet_def arp_reply_packet_def net_ok_def)
  have f1: "\<And>ip. sender_haddr (arp_request_packet (n_mac a) (MYIP a) ip) = n_mac a"
    using assms by (simp add: arp_request_packet_def)
  have "arp_receive (arp_bytes ?req @ rest) b sch = arp_reply ?req b sch"
    using wf f by (intro arp_receive_request) auto
  also have "\<dots> = (if ip = MYIP b then
       Ret () (b\<lparr>n_nic := after_send (ether_frame (n_mac a) (n_mac b) ETHERNET_TYPE_ARP
         (arp_bytes ?rep)) (n_nic b)\<rparr>) sch else Ret () b sch)"
    using assms f f1 by (simp add: arp_reply_run)
  finally have A: "arp_receive (arp_bytes ?req @ rest) b sch = \<dots>" .
  have "\<exists>a'. arp_receive (arp_bytes ?rep @ rest') a sch' = Ret () a' sch' \<and>
        ae_mac (arp_cache a' ! i) = n_mac b \<and> ae_ip (arp_cache a' ! i) = ip \<and> ae_status (arp_cache a' ! i) = USED \<and>
        arp_chan i \<in> set (woken a')"
    if "\<not> arp_lk a" and i: "find_idx (arp_pending ip) (arp_cache a) = Some i"
    using arp_receive_reply [OF wf(2) f(5) that(1), of i rest' sch'] find_idx_SomeD [OF i] i f
    by (simp add: arp_pending_def)
  with A show ?thesis by blast
qed

theorem arp_request_answered_witness:
  "net_ok boot_net \<and>
   arp_receive (arp_bytes (arp_request_packet (n_mac boot_net) (MYIP boot_net) (MYIP boot_net)) @ []) boot_net [] =
     Ret () (boot_net\<lparr>n_nic := after_send (ether_frame (n_mac boot_net) (n_mac boot_net) ETHERNET_TYPE_ARP
         (arp_bytes (arp_reply_packet (n_mac boot_net) (MYIP boot_net)
            (arp_request_packet (n_mac boot_net) (MYIP boot_net) (MYIP boot_net))))) (n_nic boot_net)\<rparr>) []"
proof -
  have ok: "net_ok boot_net" by (simp add: net_ok_def nic_ok_def boot_defs)
  then have "length (n_mac boot_net) = 6" by (simp add: net_ok_def)
  with ok arp_request_answered [of boot_net boot_net "MYIP boot_net" "[]" "[]" 0 "[]" "[]"]
  show ?thesis by simp
qed

end
