(* ===== verification/Ip.thy ===== *)
theory Ip
  imports Arp
begin

text \<open>
  The sending side of \<^verbatim>\<open>src/ip.c\<close> and all of \<^verbatim>\<open>src/icmp.c\<close>. (\<^verbatim>\<open>ip_receive\<close>, which calls into TCP,
  is in theory \<open>NetRx\<close>.) A buffer with its size argument is a list of bytes. The packet object
  of \<^verbatim>\<open>ip_send\<close> has room for 1480 bytes of payload; \<^verbatim>\<open>icmp_send_echo_reply\<close> makes an array of the
  size that the packet claims to have and copies that many bytes from the receive buffer. \<^verbatim>\<open>arp_resolve\<close> returns the
  address of a cache entry, so the test of its result against 0 in \<^verbatim>\<open>ip_send\<close> never succeeds and has no branch here.
  \<open>icmp_receive\<close> asks for the 8 bytes of the header at once, where the code reads it field by field.

  The lemmas show that the header of every datagram passes the receiver's checks, which frame
  \<^verbatim>\<open>ip_send\<close> puts on the wire, and that the ICMP messages carry a valid checksum.
\<close>

section \<open>Sending a datagram\<close>

definition ip_make_header :: "uchar \<Rightarrow> ushort \<Rightarrow> uint32 \<Rightarrow> uint32 \<Rightarrow> nat \<Rightarrow> ip_header" where
  "ip_make_header proto ident src dst sz =
     (let h = \<lparr>version_ihl = push_bit 4 4 OR MINIMUM_IHL, tos = 0, tlen = htons (of_nat (IP_HDR_SIZE + sz)),
        ip_id = htons ident, flags_offset = htons 0x4000, ttl = INITIAL_TTL, protocol = proto, ip_checksum = 0,
        src_ip = htonl src, dst_ip = htonl dst\<rparr>
      in h\<lparr>ip_checksum := checksum (ip_bytes h) 0\<rparr>)"

definition ip_send :: "uchar \<Rightarrow> bytes \<Rightarrow> uint32 \<Rightarrow> uint32 \<Rightarrow> unit nm" where
  "ip_send proto buffer src dst =
     bnd (gets n_ip_id) (\<lambda>ident.
     thn (upd (\<lambda>n. n\<lparr>n_ip_id := ident + 1\<rparr>))
     (thn (requirek (length buffer \<le> MAX_TRANSPORT_PAYLOAD_SIZE) (OutOfBounds ''ip packet''))
     (let pkt = ip_bytes (ip_make_header proto ident src dst (length buffer)) @ buffer in
      if dst = 0xffffffff then ether_send (replicate MAC_SIZE 0xff) 0x0800 pkt
      else bnd (arp_resolve dst) (\<lambda>destMAC. ether_send destMAC 0x0800 pkt))))"

section \<open>ICMP\<close>

definition icmp_send_echo_reply :: "bytes \<Rightarrow> int \<Rightarrow> uint32 \<Rightarrow> unit nm" where
  "icmp_send_echo_reply icmp_request_pkt pkt_size source_ip =
     thn (requirek (4 \<le> pkt_size) (OutOfBounds ''icmp reply buffer''))
     (thn (requirek (nat pkt_size \<le> length icmp_request_pkt) (OutOfBounds ''icmp packet''))
     (let sz = nat pkt_size;
          b0 = take sz icmp_request_pkt;
          b1 = b0[0 := ICMP_TYPE_ECHOREPLY];
          b2 = splice_at 2 (le16 0) b1;
          b3 = splice_at 2 (le16 (checksum b2 0)) b2
      in bnd (gets MYIP) (\<lambda>myip. ip_send IP_PROTOCOL_ICMP b3 myip source_ip)))"

definition icmp_echo_request :: "ushort \<Rightarrow> bytes" where
  "icmp_echo_request seq_no =
     (let b0 = [ICMP_TYPE_ECHO, 0] @ le16 0 @ le16 (htons 1) @ le16 (htons seq_no) @
               replicate (ICMP_PACKET_SIZE - ICMP_HDR_SIZE) ICMP_PAYLOAD_PATTERN
      in splice_at 2 (le16 (checksum b0 0)) b0)"

definition icmp_send_echo_request :: "uint32 \<Rightarrow> ushort \<Rightarrow> unit nm" where
  "icmp_send_echo_request dst seq_no =
     bnd (gets MYIP) (\<lambda>myip. ip_send IP_PROTOCOL_ICMP (icmp_echo_request seq_no) myip dst)"

definition icmp_receive :: "bytes \<Rightarrow> int \<Rightarrow> uint32 \<Rightarrow> unit nm" where
  "icmp_receive icmp_pkt pkt_size src =
     thn (requirek (ICMP_HDR_SIZE \<le> length icmp_pkt) (OutOfBounds ''icmp header''))
     (if icmp_pkt ! 0 = ICMP_TYPE_ECHO then icmp_send_echo_reply icmp_pkt pkt_size src
      else if icmp_pkt ! 0 = ICMP_TYPE_ECHOREPLY then
        thn (upd (\<lambda>n. n\<lparr>icmp_echo_reply_received := 1\<rparr>))
        (upd (\<lambda>n. n\<lparr>icmp_reply_pkt_info := \<lparr>icmp_size = pkt_size, icmp_src_ip = src,
            icmp_seq_no = htons (rd16 icmp_pkt 6)\<rparr>\<rparr>))
      else ret ())"

section \<open>Checksums that are filled in\<close>

lemma wsum_le16: "wsum (le16 c @ q) = unat c + wsum q"
  by (simp add: le16_def)

lemma wsum_field:
  "even (length p) \<Longrightarrow> wsum (p @ le16 c @ q) = wsum (p @ le16 0 @ q) + unat c"
  by (simp add: wsum_append wsum_le16)

text \<open>Writing the checksum over data whose checksum field was 0 makes the checksum of the result 0.\<close>

lemma checksum_field:
  assumes "even (length p)"
  shows "checksum (p @ le16 (checksum (p @ le16 0 @ q) 0) @ q) 0 = 0"
proof -
  let ?d = "p @ le16 0 @ q" and ?d' = "p @ le16 (checksum (p @ le16 0 @ q) 0) @ q"
  have le: "unat (checksum_loop d 0) \<le> 65535" for d by (rule checksum_loop_le) simp
  have sums: "wsum ?d' = wsum ?d + unat (checksum ?d 0)"
    using assms by (rule wsum_field)
  show ?thesis
  proof (cases "0 < wsum ?d")
    case True
    with le sums show ?thesis by (intro checksum_filled [of 0 ?d]) auto
  next
    case False
    then have "unat (checksum ?d 0) = 65535"
      using unat_checksum [OF le, of ?d] checksum_loop_spec [of 0 ?d] by simp
    then have "wsum ?d' = 65535" using sums False by simp
    then have "unat (checksum_loop ?d' 0) mod 65535 = 0" "0 < unat (checksum_loop ?d' 0)"
      using checksum_loop_spec [of 0 ?d'] by simp_all
    then have "unat (checksum_loop ?d' 0) = 65535"
      using le [of ?d'] by (cases "unat (checksum_loop ?d' 0) = 65535") auto
    then have "unat (checksum ?d' 0) = 0" using unat_checksum [OF le, of ?d'] by simp
    then show ?thesis by (simp only: unsigned_eq_0_iff)
  qed
qed

lemma length_ip_bytes [simp]: "length (ip_bytes h) = IP_HDR_SIZE"
  by (simp add: ip_bytes_def)

lemma ip_of_ip_bytes: "ip_of_bytes (ip_bytes h @ rest) = h"
  by (cases h) (simp add: ip_of_bytes_def ip_bytes_def rd16_def rd32_def le16_def le32_def)

lemma ip_header_checksum: "checksum (ip_bytes (ip_make_header proto ident src dst sz)) 0 = 0"
proof -
  let ?p = "[0x45, 0] @ le16 (htons (of_nat (IP_HDR_SIZE + sz))) @ le16 (htons ident) @ le16 (htons 0x4000) @
    [INITIAL_TTL, proto]"
  let ?q = "le32 (htonl src) @ le32 (htonl dst)"
  have "checksum (?p @ le16 (checksum (?p @ le16 0 @ ?q) 0) @ ?q) 0 = 0" by (intro checksum_field) simp
  then show ?thesis by (simp add: ip_make_header_def ip_bytes_def Let_def)
qed

lemma ip_make_header_fields:
  "version_ihl (ip_make_header p i s d n) = 0x45" "ttl (ip_make_header p i s d n) = 64"
  "protocol (ip_make_header p i s d n) = p" "src_ip (ip_make_header p i s d n) = htonl s"
  "dst_ip (ip_make_header p i s d n) = htonl d" "tlen (ip_make_header p i s d n) = htons (of_nat (20 + n))"
  "ip_id (ip_make_header p i s d n) = htons i"
  by (simp_all add: ip_make_header_def Let_def)

section \<open>What is sent\<close>

definition datagram :: "net \<Rightarrow> uchar \<Rightarrow> bytes \<Rightarrow> uint32 \<Rightarrow> uint32 \<Rightarrow> bytes" where
  "datagram n proto buffer src dst = ip_bytes (ip_make_header proto (n_ip_id n) src dst (length buffer)) @ buffer"

text \<open>The hardware address that a resolution finds in the cache.\<close>

definition arp_cached :: "net \<Rightarrow> uint32 \<Rightarrow> bytes option" where
  "arp_cached n ip = map_option (\<lambda>i. ae_mac (arp_cache n ! i))
     (find_idx (arp_live (n_ticks n) (next_hop n ip)) (arp_cache n))"

lemma ip_send_cached:
  assumes "net_ok n" "\<not> arp_lk n" "arp_cached n dst = Some mac" "dst \<noteq> 0xffffffff"
    "length buffer \<le> MAX_TRANSPORT_PAYLOAD_SIZE"
  shows "ip_send proto buffer src dst n sch = Ret () (n\<lparr>n_ip_id := n_ip_id n + 1, arp_lk := False,
    n_nic := after_send (ether_frame mac (n_mac n) ETHERNET_TYPE_IP (datagram n proto buffer src dst)) (n_nic n)\<rparr>) sch"
proof -
  obtain i where i: "find_idx (arp_live (n_ticks n) (next_hop n dst)) (arp_cache n) = Some i"
    "ae_mac (arp_cache n ! i) = mac" using assms(3) by (auto simp: arp_cached_def)
  let ?n = "n\<lparr>n_ip_id := n_ip_id n + 1\<rparr>"
  have "next_hop ?n dst = next_hop n dst" by (simp add: next_hop_def)
  then have "arp_resolve dst ?n sch = Ret mac (?n\<lparr>arp_lk := False\<rparr>) sch"
    using arp_resolve_hit [of ?n dst i sch] assms(2) i by simp
  then show ?thesis
    using assms by (simp add: ip_send_def ether_send_run net_ok_def datagram_def Let_def)
qed

lemma ip_send_too_big:
  "length buffer > MAX_TRANSPORT_PAYLOAD_SIZE \<Longrightarrow>
   ip_send proto buffer src dst n sch = Fail (OutOfBounds ''ip packet'')"
  by (simp add: ip_send_def)

lemma length_icmp_echo_request: "length (icmp_echo_request q) = 64"
  by (simp add: icmp_echo_request_def Let_def)

lemma icmp_echo_request_eq:
  "\<exists>sm. icmp_echo_request q = [8, 0] @ le16 sm @ le16 (htons 1) @ le16 (htons q) @ replicate 56 0x41 \<and>
     checksum (icmp_echo_request q) 0 = 0"
proof -
  let ?p = "[8, 0 :: uchar]" and ?q = "le16 (htons 1) @ le16 (htons q) @ replicate 56 (0x41 :: uchar)"
  have "checksum (?p @ le16 (checksum (?p @ le16 0 @ ?q) 0) @ ?q) 0 = 0" by (intro checksum_field) simp_all
  moreover have "icmp_echo_request q = ?p @ le16 (checksum (?p @ le16 0 @ ?q) 0) @ ?q"
    by (simp add: icmp_echo_request_def Let_def splice_at_def le16_def)
  ultimately show ?thesis by (intro exI conjI) simp_all
qed

lemma icmp_send_echo_reply_run:
  assumes pkt: "pkt = [ty, code] @ le16 sm @ body @ rest" and sz: "sz = int (length body) + 4"
  shows "\<exists>reply. icmp_send_echo_reply pkt sz src n sch = ip_send IP_PROTOCOL_ICMP reply (MYIP n) src n sch \<and>
    (\<exists>sm'. reply = [ICMP_TYPE_ECHOREPLY, code] @ le16 sm' @ body) \<and> checksum reply 0 = 0"
proof -
  let ?b2 = "[ICMP_TYPE_ECHOREPLY, code] @ le16 0 @ body"
  have nsz: "nat sz = Suc (Suc (Suc (Suc (length body))))" using sz by simp
  have t: "take (nat sz) pkt = [ty, code] @ le16 sm @ body"
    using pkt nsz by (simp add: le16_def)
  have b2: "splice_at 2 (le16 0) ((take (nat sz) pkt)[0 := ICMP_TYPE_ECHOREPLY]) = ?b2"
    unfolding t by (simp add: splice_at_def le16_def)
  have b3: "splice_at 2 (le16 (checksum ?b2 0)) ?b2 = [ICMP_TYPE_ECHOREPLY, code] @ le16 (checksum ?b2 0) @ body"
    by (simp add: splice_at_def le16_def)
  have "icmp_send_echo_reply pkt sz src n sch =
      ip_send IP_PROTOCOL_ICMP ([ICMP_TYPE_ECHOREPLY, code] @ le16 (checksum ?b2 0) @ body) (MYIP n) src n sch"
    using sz pkt nsz unfolding icmp_send_echo_reply_def Let_def b2 b3 by simp
  moreover have "checksum ([ICMP_TYPE_ECHOREPLY, code] @ le16 (checksum ?b2 0) @ body) 0 = 0"
    by (rule checksum_field) simp
  ultimately show ?thesis by blast
qed

lemma icmp_receive_echo:
  assumes "pkt = [ICMP_TYPE_ECHO, code] @ le16 sm @ body @ rest" "4 \<le> length body"
  shows "icmp_receive pkt sz src n sch = icmp_send_echo_reply pkt sz src n sch"
  using assms by (simp add: icmp_receive_def)

lemma icmp_receive_reply:
  assumes "pkt = [ICMP_TYPE_ECHOREPLY, code] @ le16 sm @ le16 ident @ le16 (htons seqno) @ rest"
  shows "icmp_receive pkt sz src n sch =
    Ret () (n\<lparr>icmp_echo_reply_received := 1,
      icmp_reply_pkt_info := \<lparr>icmp_size = sz, icmp_src_ip = src, icmp_seq_no = seqno\<rparr>\<rparr>) sch"
  using assms by (simp add: icmp_receive_def rd16_def le16_def)

end
