(* ===== verification/Tcp.thy ===== *)
theory Tcp
  imports Ip
begin

text \<open>
  \<^verbatim>\<open>src/tcp.c\<close> and \<^verbatim>\<open>delay\<close> of \<^verbatim>\<open>src/utils.c\<close>. A \<^verbatim>\<open>struct socket *\<close> is an index of the table
  \<open>sockets\<close>. A packet on the stack starts as \<open>junk\<close> (whatever the stack held). A socket's receive
  buffer is a page of the kernel's memory \<open>mem\<close>; writing more than the page holds is an
  \<open>OutOfBounds\<close> fault, and so is using a null buffer.

  The retransmission loops of \<^verbatim>\<open>tcp_tx\<close> run until the peer has acknowledged. They take a
  number \<open>gas\<close> of iterations; running out of it is the outcome \<open>Asleep spinning\<close>, the caller
  not having returned yet.
\<close>

section \<open>Waiting for the clock\<close>

abbreviation acquire_ticks :: "unit nm" where "acquire_ticks \<equiv> lock_acquire tickslock tickslock_update"
abbreviation release_ticks :: "unit nm" where "release_ticks \<equiv> lock_release tickslock tickslock_update"

fun delay_loop :: "uint32 \<Rightarrow> uint32 \<Rightarrow> net sched \<Rightarrow> net \<Rightarrow> (net, unit) outcome" where
  "delay_loop ticks0 k [] s =
     (if n_ticks s - ticks0 < k \<and> \<not> n_killed s then Asleep (Chan ''ticks'' 0) (s\<lparr>tickslock := False\<rparr>)
      else Ret () s [])"
| "delay_loop ticks0 k (f # fs) s =
     (if n_ticks s - ticks0 < k \<and> \<not> n_killed s then
        (let s' = f (s\<lparr>tickslock := False\<rparr>) in
         if tickslock s' then Fail (Panic ''acquire'') else delay_loop ticks0 k fs (s'\<lparr>tickslock := True\<rparr>))
      else Ret () s (f # fs))"

definition delay :: "uint32 \<Rightarrow> unit nm" where
  "delay k =
     thn acquire_ticks
     (thn (bnd (gets n_myproc) (\<lambda>p. requirek (p \<noteq> None \<or> k = 0) (Panic ''trap'')))
     (bnd (gets n_ticks) (\<lambda>ticks0.
      thn (\<lambda>s sch. delay_loop ticks0 k sch s) release_ticks)))"

section \<open>Sockets and their connections\<close>

definition sock :: "nat \<Rightarrow> net \<Rightarrow> socket" where
  "sock si n = sockets n ! si"

definition sock_upd :: "nat \<Rightarrow> (socket \<Rightarrow> socket) \<Rightarrow> unit nm" where
  "sock_upd si f = upd (\<lambda>n. n\<lparr>sockets := (sockets n)[si := f (sockets n ! si)]\<rparr>)"

definition tcon_upd :: "nat \<Rightarrow> (tcp_connection \<Rightarrow> tcp_connection) \<Rightarrow> unit nm" where
  "tcon_upd si f = sock_upd si (\<lambda>s. s\<lparr>tcon := f (tcon s)\<rparr>)"

text \<open>The remainder by \<^verbatim>\<open>q.size\<close> traps for a queue that has not been initialised.\<close>

definition queue_full :: "queue \<Rightarrow> bool nm" where
  "queue_full q = (if qsize q = 0 then panic ''trap'' else ret (isqueuefull q))"

definition wakeup_port :: "ushort \<Rightarrow> unit nm" where
  "wakeup_port port = wakeup (Chan ''ports'' (unat port))"

text \<open>\<^verbatim>\<open>memmove(s->buffer + off, data, n)\<close>.\<close>

definition buffer_write :: "nat \<Rightarrow> int \<Rightarrow> bytes \<Rightarrow> unit nm" where
  "buffer_write si off data =
     bnd (gets (sock si)) (\<lambda>s.
     if data = [] then ret ()
     else if so_buffer s = 0 then oob ''null buffer''
     else thn (requirek (0 \<le> off \<and> off + int (length data) \<le> 4096) (OutOfBounds ''socket buffer''))
       (upd (\<lambda>n. n\<lparr>n_kmem := (n_kmem n)\<lparr>mem := mstore (so_buffer s + of_int off) data (mem (n_kmem n))\<rparr>\<rparr>)))"

section \<open>Segments\<close>

definition pseudo_ip_sum :: "uint32 \<Rightarrow> uint32 \<Rightarrow> ushort \<Rightarrow> uint32" where
  "pseudo_ip_sum myip peer sz =
     0 + ((myip AND 0xffff) + (drop_bit 16 myip AND 0xffff))
       + ((peer AND 0xffff) + (drop_bit 16 peer AND 0xffff))
       + ucast (htons (ucast IP_PROTOCOL_TCP)) + ucast (htons sz)"

definition tcp_fill :: "bytes \<Rightarrow> ushort \<Rightarrow> ushort \<Rightarrow> uint32 \<Rightarrow> uint32 \<Rightarrow> uchar \<Rightarrow> uchar \<Rightarrow> ushort \<Rightarrow> bytes \<Rightarrow> bytes" where
  "tcp_fill packet sport dport seqn ackn flags hdr_size ck data =
     splice_at TCP_HEADER_MIN_SIZE data
       (splice_at 0 (tcp_bytes \<lparr>th_src_port = htons sport, th_dst_port = htons dport,
          seq_num = htonl seqn, ack_num = htonl ackn, th_offset = push_bit 4 (drop_bit 2 hdr_size),
          th_flags = flags, window_size = htons (of_nat WINDOW_SIZE), th_checksum = ck, urgent_ptr = 0\<rparr>) packet)"

definition tcp_pack :: "bytes \<Rightarrow> ushort \<Rightarrow> ushort \<Rightarrow> uint32 \<Rightarrow> uint32 \<Rightarrow> uint32 \<Rightarrow> uchar \<Rightarrow> uchar \<Rightarrow> bytes \<Rightarrow> bytes nm" where
  "tcp_pack packet sport dport peer seqn ackn flags hdr_size data =
     (let total_size = unat hdr_size + length data in
      thn (requirek (length data \<le> MSS) (OutOfBounds ''options_data''))
      (thn (requirek (total_size \<le> TCP_PACKET_SIZE) (OutOfBounds ''tcp packet''))
      (bnd (gets MYIP) (\<lambda>myip.
       (let pkt = tcp_fill packet sport dport seqn ackn flags hdr_size 0 data;
            ck = checksum (take total_size pkt) (pseudo_ip_sum myip peer (of_nat total_size))
        in ret (tcp_fill packet sport dport seqn ackn flags hdr_size ck data))))))"

definition tcp_send :: "ushort \<Rightarrow> ushort \<Rightarrow> uint32 \<Rightarrow> uint32 \<Rightarrow> uint32 \<Rightarrow> uchar \<Rightarrow> uchar \<Rightarrow> bytes \<Rightarrow> unit nm" where
  "tcp_send sport dport peer seqn ackn flags hdr_size data =
     bnd (gets junk) (\<lambda>packet.
     bnd (tcp_pack packet sport dport peer seqn ackn flags hdr_size data) (\<lambda>pkt.
     bnd (gets MYIP) (\<lambda>myip.
     ip_send IP_PROTOCOL_TCP (take (unat hdr_size + length data) pkt) myip peer)))"

definition mss_option :: bytes where
  "mss_option = [2, 4] @ le16 (htons (of_nat MSS))"

definition tcp_send_syn :: "nat \<Rightarrow> unit nm" where
  "tcp_send_syn si =
     bnd (gets (sock si)) (\<lambda>s.
     thn (tcp_send (so_port s) (dst_port (tcon s)) (dst_addr (tcon s)) INITIAL_SEQ 0 TCP_FLAG_SYN
            (of_nat TCP_HEADER_MIN_SIZE + 4) mss_option)
     (thn (tcon_upd si (\<lambda>c. c\<lparr>base_seq := INITIAL_SEQ + 1\<rparr>))
     (tcon_upd si (\<lambda>c. c\<lparr>next_seq := INITIAL_SEQ + 1\<rparr>))))"

definition tcp_send_synack :: "nat \<Rightarrow> unit nm" where
  "tcp_send_synack si =
     bnd (gets (sock si)) (\<lambda>s.
     thn (tcp_send (so_port s) (dst_port (tcon s)) (dst_addr (tcon s)) INITIAL_SEQ (seq_received (tcon s) + 1)
            (TCP_FLAG_SYN OR TCP_FLAG_ACK) (of_nat TCP_HEADER_MIN_SIZE + 4) mss_option)
     (thn (tcon_upd si (\<lambda>c. c\<lparr>ack_sent := seq_received c + 1\<rparr>))
     (thn (tcon_upd si (\<lambda>c. c\<lparr>base_seq := INITIAL_SEQ + 1\<rparr>))
     (tcon_upd si (\<lambda>c. c\<lparr>next_seq := INITIAL_SEQ + 1\<rparr>)))))"

definition tcp_send_ack :: "nat \<Rightarrow> uint32 \<Rightarrow> unit nm" where
  "tcp_send_ack si ack =
     bnd (gets (sock si)) (\<lambda>s.
     thn (tcp_send (so_port s) (dst_port (tcon s)) (dst_addr (tcon s)) (next_seq (tcon s) - 1) ack TCP_FLAG_ACK
            (of_nat TCP_HEADER_MIN_SIZE) [])
     (tcon_upd si (\<lambda>c. c\<lparr>ack_sent := ack\<rparr>)))"

section \<open>Receiving a segment\<close>

text \<open>The loop that removes acknowledged packets from the window. A pointer in the window is the
  index in \<open>pkts\<close> plus one. \<open>None\<close> is a pointer outside of \<open>pkts\<close>.\<close>

fun ack_loop :: "nat \<Rightarrow> uint32 \<Rightarrow> tcp_connection \<Rightarrow> tcp_connection option" where
  "ack_loop 0 ack c = None"
| "ack_loop (Suc k) ack c =
     (if isqueueempty (window c) then Some c
      else let qp = getfront (window c) in
        if qp \<le> 0 \<or> int (length (pkts c)) < qp then None
        else let p = pkts c ! nat (qp - 1) in
          if qp_seq p + of_int (qp_size p) - of_nat TCP_HEADER_MIN_SIZE \<le> ack then
            ack_loop k ack (c\<lparr>window := snd (dequeue (window c)),
              base_seq := base_seq c + of_int (qp_size p - int (unat (drop_bit 2 (qp_pkt p ! 12))))\<rparr>)
          else Some c)"

definition tcp_receive_ack :: "nat \<Rightarrow> uint32 \<Rightarrow> unit nm" where
  "tcp_receive_ack si ack =
     bnd (gets (\<lambda>n. tcon (sock si n))) (\<lambda>c.
     if ack < base_seq c \<or> next_seq c < ack then ret ()
     else case ack_loop 11 ack c of
         None \<Rightarrow> oob ''queued packet''
       | Some c' \<Rightarrow> tcon_upd si (\<lambda>_. c'))"

definition tcp_receive_data :: "nat \<Rightarrow> ushort \<Rightarrow> bytes \<Rightarrow> int \<Rightarrow> tcp_hdr \<Rightarrow> unit nm" where
  "tcp_receive_data si port seg sz hdr =
     bnd (gets (sock si)) (\<lambda>s.
     let rx_hdr_size = int (unat (drop_bit 2 (th_offset hdr))) in
     if ack_sent (tcon s) = htonl (seq_num hdr) then
       thn (requirek (rx_hdr_size \<le> sz \<and> nat sz \<le> length seg) (OutOfBounds ''tcp data''))
       (thn (buffer_write si (so_end s) (drop (nat rx_hdr_size) (take (nat sz) seg)))
       (thn (sock_upd si (\<lambda>s. s\<lparr>so_end := so_end s + (sz - rx_hdr_size)\<rparr>))
       (thn (if so_state s = SOCKET_WAIT then wakeup_port port else ret ())
       (thn (tcon_upd si (\<lambda>c. c\<lparr>seq_received := htonl (seq_num hdr)\<rparr>))
       (tcp_send_ack si (htonl (seq_num hdr) + of_int (sz - rx_hdr_size)))))))
     else tcp_send_ack si (ack_sent (tcon s)))"

definition tcp_receive_active :: "nat \<Rightarrow> ushort \<Rightarrow> bytes \<Rightarrow> int \<Rightarrow> uint32 \<Rightarrow> tcp_hdr \<Rightarrow> unit nm" where
  "tcp_receive_active si port seg sz peer hdr =
     bnd (gets (\<lambda>n. tcon (sock si n))) (\<lambda>c.
     if dst_addr c \<noteq> peer \<or> dst_port c \<noteq> htons (th_src_port hdr) then ret ()
     else if tc_state c = TCP_SYN_SENT \<and> th_flags hdr AND TCP_FLAG_ACK \<noteq> 0 then
       thn (requirek (0 \<le> sz \<and> nat sz \<le> length seg) (OutOfBounds ''tcp segment''))
       (thn (buffer_write si 0 (take (nat sz) seg)) (wakeup_port port))
     else if tc_state c = TCP_ESTABLISHED then
       (if th_flags hdr AND TCP_FLAG_ACK \<noteq> 0 then tcp_receive_ack si (htonl (ack_num hdr))
        else tcp_receive_data si port seg sz hdr)
     else ret ())"

text \<open>A connection request at a listening socket: the search for an entry of \<open>requests\<close> stops at the
  first one with \<^verbatim>\<open>client_ip != 0\<close>; without one, \<open>i\<close> is \<^verbatim>\<open>MAX_PENDING_REQUESTS\<close>.\<close>

definition tcp_receive_syn :: "nat \<Rightarrow> ushort \<Rightarrow> bytes \<Rightarrow> int \<Rightarrow> uint32 \<Rightarrow> unit nm" where
  "tcp_receive_syn si port seg sz peer =
     bnd (gets (\<lambda>n. find_idx (\<lambda>r. client_ip r \<noteq> 0) (requests n))) (\<lambda>r.
     case r of
       None \<Rightarrow> oob ''requests''
     | Some i \<Rightarrow>
         thn (upd (\<lambda>n. n\<lparr>requests := (requests n)[i := (requests n ! i)\<lparr>client_ip := peer\<rparr>]\<rparr>))
         (thn (requirek (0 \<le> sz \<and> nat sz \<le> length seg \<and> nat sz \<le> TCP_PACKET_SIZE) (OutOfBounds ''request packet''))
         (thn (upd (\<lambda>n. n\<lparr>requests := (requests n)[i := (requests n ! i)\<lparr>request_packet :=
                 splice_at 0 (take (nat sz) seg) (request_packet (requests n ! i))\<rparr>]\<rparr>))
         (thn (sock_upd si (\<lambda>s. s\<lparr>waitqueue := enqueue (waitqueue s) (int i + 1)\<rparr>))
         (bnd (gets (sock si)) (\<lambda>s. if so_state s = SOCKET_WAIT then wakeup_port port else ret ()))))))"

definition tcp_receive :: "bytes \<Rightarrow> int \<Rightarrow> uint32 \<Rightarrow> unit nm" where
  "tcp_receive seg sz peer =
     thn (requirek (TCP_HEADER_MIN_SIZE \<le> length seg \<and> nat sz \<le> length seg) (OutOfBounds ''tcp segment''))
     (let hdr = tcp_of_bytes seg; port = htons (th_dst_port hdr); flags = th_flags hdr in
      bnd (gets id) (\<lambda>n.
      if checksum (take (nat sz) seg) (pseudo_ip_sum (MYIP n) peer (of_int sz)) \<noteq> 0 then ret ()
      else if NPORTS \<le> unat port then ret ()
      else
        let po = ports n (unat port); psoc = passive_socket po; asoc = active_socket po;
            active = (case asoc of None \<Rightarrow> ret () | Some si \<Rightarrow> tcp_receive_active si port seg sz peer hdr) in
        if po_pid po = -1 then ret ()
        else if psoc = None \<and> asoc = None then ret ()
        else case psoc of
            None \<Rightarrow> active
          | Some pi \<Rightarrow>
              (let s = sock pi n in
               bnd (if tc_state (tcon s) = TCP_LISTEN \<and> flags AND TCP_FLAG_SYN \<noteq> 0
                    then bnd (queue_full (waitqueue s)) (\<lambda>full. ret (\<not> full)) else ret False) (\<lambda>request.
               if request then tcp_receive_syn pi port seg sz peer
               else if tc_state (tcon s) = TCP_SYNACK_SENT \<and> flags AND TCP_FLAG_ACK \<noteq> 0 then
                 (if dst_addr (tcon s) \<noteq> peer \<or> dst_port (tcon s) \<noteq> htons (th_src_port hdr) then ret ()
                  else thn (tcon_upd pi (\<lambda>c. c\<lparr>ack_received := htonl (ack_num hdr)\<rparr>))
                    (thn (tcon_upd pi (\<lambda>c. c\<lparr>seq_received := htonl (seq_num hdr)\<rparr>))
                    (wakeup_port port)))
               else active))))"

section \<open>Sending a stream\<close>

definition tcp_resend :: "nat \<Rightarrow> int \<Rightarrow> unit nm" where
  "tcp_resend si qp =
     bnd (gets id) (\<lambda>n.
     (let c = tcon (sock si n); p = pkts c ! nat (qp - 1) in
      thn (requirek (0 < qp \<and> qp \<le> int (length (pkts c)) \<and> 0 \<le> qp_size p \<and> nat (qp_size p) \<le> length (qp_pkt p))
             (OutOfBounds ''queued packet''))
      (ip_send IP_PROTOCOL_TCP (take (nat (qp_size p)) (qp_pkt p)) (MYIP n) (dst_addr c))))"

definition spinning :: "'a nm" where
  "spinning s sch = Asleep (Chan ''spin'' 0) s"

text \<open>The two retransmission loops differ in what they wait for.\<close>

fun tcp_wait :: "nat \<Rightarrow> nat \<Rightarrow> bool nm \<Rightarrow> unit nm" where
  "tcp_wait 0 si cond = spinning"
| "tcp_wait (Suc gas) si cond =
     bnd cond (\<lambda>b.
     if \<not> b then ret ()
     else thn (delay 100)
       (bnd (gets (\<lambda>n. getfront (window (tcon (sock si n))))) (\<lambda>qp.
        bnd cond (\<lambda>b'.
        thn (if b' \<and> qp \<noteq> 0 then tcp_resend si qp else ret ())
        (tcp_wait gas si cond)))))"

definition window_full :: "nat \<Rightarrow> bool nm" where
  "window_full si = bnd (gets (\<lambda>n. window (tcon (sock si n)))) queue_full"

definition unacked :: "nat \<Rightarrow> bool nm" where
  "unacked si = gets (\<lambda>n. base_seq (tcon (sock si n)) \<noteq> next_seq (tcon (sock si n)))"

definition tcp_tx_segment :: "nat \<Rightarrow> bytes \<Rightarrow> nat \<Rightarrow> nat \<Rightarrow> unit nm" where
  "tcp_tx_segment si payload window_offset cur =
     bnd (gets id) (\<lambda>n.
     (let s = sock si n; c = tcon s in
      bnd (tcp_pack (junk n) (so_port s) (dst_port c) (dst_addr c) (next_seq c) 0 0 (of_nat TCP_HEADER_MIN_SIZE) (take cur payload)) (\<lambda>pkt.
      (let total_size = TCP_HEADER_MIN_SIZE + cur in
       thn (tcon_upd si (\<lambda>c. c\<lparr>pkts := (pkts c)[window_offset := (pkts c ! window_offset)\<lparr>
               qp_size := int total_size, qp_seq := next_seq c,
               qp_pkt := splice_at 0 (take total_size pkt) (qp_pkt (pkts c ! window_offset))\<rparr>]\<rparr>))
       (thn (tcon_upd si (\<lambda>c. c\<lparr>window := enqueue (window c) (int window_offset + 1)\<rparr>))
       (bnd (gets id) (\<lambda>n.
        thn (ip_send IP_PROTOCOL_TCP (take total_size pkt) (MYIP n) (dst_addr (tcon (sock si n))))
        (tcon_upd si (\<lambda>c. c\<lparr>next_seq := next_seq c + of_nat cur\<rparr>)))))))))"

fun tcp_tx_loop :: "nat \<Rightarrow> nat \<Rightarrow> bytes \<Rightarrow> nat \<Rightarrow> nat \<Rightarrow> unit nm" where
  "tcp_tx_loop 0 si payload i window_offset = spinning"
| "tcp_tx_loop (Suc gas) si payload i window_offset =
     (let num_iter = length payload div MSS + 1;
          cur = (if i = length payload div MSS then length payload mod MSS else MSS) in
      if num_iter \<le> i then ret ()
      else bnd (window_full si) (\<lambda>full.
        bnd (if full then ret (i, window_offset)
             else thn (tcp_tx_segment si payload window_offset cur)
               (ret (i + 1, (window_offset + 1) mod WINDOW_LENGTH))) (\<lambda>(i', window_offset').
        thn (tcp_wait gas si (window_full si))
        (thn (if i' = num_iter then tcp_wait gas si (unacked si) else ret ())
        (tcp_tx_loop gas si payload i' window_offset')))))"

definition tcp_tx :: "nat \<Rightarrow> nat \<Rightarrow> bytes \<Rightarrow> unit nm" where
  "tcp_tx gas si payload = tcp_tx_loop gas si payload 0 0"

section \<open>Segments check out at the receiver\<close>

definition tcp_head :: "ushort \<Rightarrow> ushort \<Rightarrow> uint32 \<Rightarrow> uint32 \<Rightarrow> uchar \<Rightarrow> uchar \<Rightarrow> bytes" where
  "tcp_head sport dport seqn ackn flags hdr_size =
     le16 (htons sport) @ le16 (htons dport) @ le32 (htonl seqn) @ le32 (htonl ackn) @
     [push_bit 4 (drop_bit 2 hdr_size), flags] @ le16 (htons (of_nat WINDOW_SIZE))"

lemma length_tcp_head [simp]: "length (tcp_head sp dp sq ak fl hs) = 16"
  by (simp add: tcp_head_def)

lemma splice_at_append: "length h = k \<Longrightarrow> splice_at k d (h @ r) = h @ d @ drop (length d) r"
  by (simp add: splice_at_def)

lemma tcp_fill_eq:
  assumes "length packet = TCP_PACKET_SIZE" "length data \<le> MSS"
  shows "tcp_fill packet sp dp sq ak fl hs ck data =
    tcp_head sp dp sq ak fl hs @ le16 ck @ le16 0 @ data @ drop (20 + length data) packet"
proof -
  let ?H = "tcp_head sp dp sq ak fl hs @ le16 ck @ le16 0"
  have "tcp_fill packet sp dp sq ak fl hs ck data = splice_at 20 data (splice_at 0 ?H packet)"
    by (simp add: tcp_fill_def tcp_head_def tcp_bytes_def)
  also have "splice_at 0 ?H packet = ?H @ drop 20 packet" by (simp add: splice_at_def)
  also have "splice_at 20 data (?H @ drop 20 packet) = ?H @ data @ drop (length data) (drop 20 packet)"
    by (rule splice_at_append) simp
  finally show ?thesis by (simp add: add.commute)
qed

lemma take_tcp_fill:
  assumes "length packet = TCP_PACKET_SIZE" "length data \<le> MSS" "20 \<le> T"
  shows "take T (tcp_fill packet sp dp sq ak fl hs ck data) =
    tcp_head sp dp sq ak fl hs @ le16 ck @ le16 0 @ take (T - 20) (data @ drop (20 + length data) packet)"
  using assms by (simp add: tcp_fill_eq)

lemma half_le: "unat (x AND 0xffff :: uint32) \<le> 65535"
proof -
  have "x AND 0xffff = take_bit 16 x" by (rule and_0xffff)
  then have "unat (x AND 0xffff) = take_bit 16 (unat x)" by (simp add: unsigned_take_bit_eq)
  then show ?thesis using take_bit_nat_less_exp [of 16 "unat x"] by simp
qed

lemma unat_plus_le: "unat (a + b :: uint32) \<le> unat a + unat b"
  by (simp add: unat_word_ariths)

lemma pseudo_ip_sum_less: "unat (pseudo_ip_sum a b sz) < 2 ^ 31"
proof -
  let ?h = "\<lambda>x. x AND (0xffff :: uint32)" and ?t = "\<lambda>x. drop_bit 16 x AND (0xffff :: uint32)"
  let ?p = "ucast (htons (ucast IP_PROTOCOL_TCP)) :: uint32"
  have "unat (pseudo_ip_sum a b sz) \<le>
      unat (?h a) + unat (?t a) + (unat (?h b) + unat (?t b)) + unat ?p + unat (ucast (htons sz) :: uint32)"
    unfolding pseudo_ip_sum_def add_0_left by (intro order_trans [OF unat_plus_le] add_mono order_refl)
  also have "\<dots> \<le> 65535 + 65535 + (65535 + 65535) + 65535 + 65535"
    by (intro add_mono half_le) (simp_all add: unat_ushort_le)
  finally show ?thesis by simp
qed

lemma pseudo_ip_sum_commute: "pseudo_ip_sum a b sz = pseudo_ip_sum b a sz"
proof -
  have "0 + x + y + p + q = 0 + y + x + p + q" for x y p q :: uint32 by simp
  then show ?thesis unfolding pseudo_ip_sum_def by blast
qed

lemma htons6: "htons 6 = 0x600"
  by (simp add: htons_eq)

lemma pseudo_ip_sum_pos: "0 < unat (pseudo_ip_sum a b sz)"
proof -
  let ?h = "\<lambda>x. x AND (0xffff :: uint32)" and ?t = "\<lambda>x. drop_bit 16 x AND (0xffff :: uint32)"
  define S where "S = (?h a + ?t a) + (?h b + ?t b)"
  have "unat S \<le> unat (?h a) + unat (?t a) + (unat (?h b) + unat (?t b))"
    unfolding S_def by (intro order_trans [OF unat_plus_le] add_mono order_refl)
  also have "\<dots> \<le> 65535 + 65535 + (65535 + 65535)"
    by (intro add_mono half_le)
  finally have S: "unat S \<le> 262140" by simp
  have q: "unat (ucast (htons sz) :: uint32) \<le> 65535" by (simp add: unat_ushort_le)
  have e: "pseudo_ip_sum a b sz = S + (0x600 + ucast (htons sz))"
    by (simp add: pseudo_ip_sum_def S_def htons6 add.assoc)
  have u: "unat (0x600 + ucast (htons sz) :: uint32) = 0x600 + unat (ucast (htons sz) :: uint32)"
    using q by (subst unat_plus_if') simp
  show ?thesis unfolding e using S q u by (subst unat_plus_if') simp
qed

lemma checksum_loop_tcp:
  assumes "unat start < 2 ^ 31"
  shows "unat (checksum_loop (tcp_head sp dp sq ak fl hs @ le16 ck @ le16 0 @ rest) start) \<le> 65535"
proof -
  let ?mid = "le32 (htonl sq) @ le32 (htonl ak) @ [push_bit 4 (drop_bit 2 hs), fl] @ le16 (htons (of_nat WINDOW_SIZE)) @ le16 ck"
  let ?s = "htons sp" and ?d = "htons dp"
  have "tcp_head sp dp sq ak fl hs @ le16 ck @ le16 0 @ rest =
      [ucast ?s, ucast (drop_bit 8 ?s), ucast ?d, ucast (drop_bit 8 ?d)] @ ?mid @ [0, 0] @ rest"
    by (simp add: tcp_head_def le16_def)
  then show ?thesis
    by (rule checksum_loop_settles [OF assms]) (simp_all add: mk16_def)
qed

lemma tcp_checksum_filled:
  assumes d: "d = tcp_head sp dp sq ak fl hs @ le16 0 @ le16 0 @ rest"
    and d': "d' = tcp_head sp dp sq ak fl hs @ le16 (checksum d start) @ le16 0 @ rest"
    and start: "unat start < 2 ^ 31" "0 < unat start"
  shows "checksum d' start = 0"
proof (rule checksum_filled [OF start(1)])
  show "unat (checksum_loop d start) \<le> 65535" "unat (checksum_loop d' start) \<le> 65535"
    unfolding d d' by (rule checksum_loop_tcp [OF start(1)])+
  show "wsum d' = wsum d + unat (checksum d start)"
    unfolding d' using wsum_field [of "tcp_head sp dp sq ak fl hs" "checksum d start" "le16 0 @ rest"] d by simp
qed (use start(2) in simp)

lemma tcp_pack_run:
  assumes "length data \<le> MSS" "unat hs + length data \<le> TCP_PACKET_SIZE"
  shows "tcp_pack packet sp dp peer sq ak fl hs data n sch =
    Ret (tcp_fill packet sp dp sq ak fl hs (checksum (take (unat hs + length data) (tcp_fill packet sp dp sq ak fl hs 0 data))
      (pseudo_ip_sum (MYIP n) peer (of_nat (unat hs + length data)))) data) n sch"
  using assms by (simp add: tcp_pack_def Let_def)

definition tcp_segment :: "bytes \<Rightarrow> uint32 \<Rightarrow> uint32 \<Rightarrow> ushort \<Rightarrow> ushort \<Rightarrow> uint32 \<Rightarrow> uint32 \<Rightarrow> uchar \<Rightarrow> uchar \<Rightarrow> bytes \<Rightarrow> bytes" where
  "tcp_segment packet myip peer sp dp sq ak fl hs data =
     (let T = unat hs + length data in
      take T (tcp_fill packet sp dp sq ak fl hs (checksum (take T (tcp_fill packet sp dp sq ak fl hs 0 data))
        (pseudo_ip_sum myip peer (of_nat T))) data))"

lemma tcp_segment_checksum:
  assumes "length packet = TCP_PACKET_SIZE" "length data \<le> MSS" "20 \<le> unat hs"
  shows "checksum (tcp_segment packet a b sp dp sq ak fl hs data) (pseudo_ip_sum b a (of_nat (unat hs + length data))) = 0"
proof -
  have T: "20 \<le> unat hs + length data" using assms(3) by simp
  show ?thesis
    unfolding tcp_segment_def Let_def take_tcp_fill [OF assms(1,2) T]
    by (subst pseudo_ip_sum_commute, rule tcp_checksum_filled [OF refl refl])
      (simp_all only: pseudo_ip_sum_less pseudo_ip_sum_pos)
qed

lemma length_tcp_segment:
  assumes "length packet = TCP_PACKET_SIZE" "length data \<le> MSS" "unat hs + length data \<le> TCP_PACKET_SIZE"
  shows "length (tcp_segment packet a b sp dp sq ak fl hs data) = unat hs + length data"
  using assms by (simp add: tcp_segment_def Let_def tcp_fill_eq)

lemma tcp_of_head:
  "tcp_of_bytes (tcp_head sp dp sq ak fl hs @ le16 ck @ le16 0 @ rest) =
    \<lparr>th_src_port = htons sp, th_dst_port = htons dp, seq_num = htonl sq, ack_num = htonl ak,
     th_offset = push_bit 4 (drop_bit 2 hs), th_flags = fl, window_size = htons (of_nat WINDOW_SIZE), th_checksum = ck,
     urgent_ptr = 0\<rparr>"
  by (simp add: tcp_of_bytes_def tcp_head_def rd16_def rd32_def le16_def le32_def) (simp add: mk16_def)

lemma tcp_of_tcp_segment:
  assumes "length packet = TCP_PACKET_SIZE" "length data \<le> MSS" "20 \<le> unat hs"
  shows "\<exists>ck. tcp_of_bytes (tcp_segment packet a b sp dp sq ak fl hs data @ rest) =
    \<lparr>th_src_port = htons sp, th_dst_port = htons dp, seq_num = htonl sq, ack_num = htonl ak,
     th_offset = push_bit 4 (drop_bit 2 hs), th_flags = fl, window_size = htons (of_nat WINDOW_SIZE), th_checksum = ck,
     urgent_ptr = 0\<rparr>"
proof -
  have T: "20 \<le> unat hs + length data" using assms(3) by simp
  show ?thesis
    unfolding tcp_segment_def Let_def take_tcp_fill [OF assms(1,2) T] append_assoc
    by (rule exI, rule tcp_of_head)
qed

lemma tcp_segment_data:
  assumes "length packet = TCP_PACKET_SIZE" "length data \<le> MSS"
  shows "drop 20 (tcp_segment packet a b sp dp sq ak fl 20 data) = data"
  using assms by (simp add: tcp_segment_def Let_def take_tcp_fill)

section \<open>Sending when the peer's hardware address is known\<close>

definition can_send :: "net \<Rightarrow> uint32 \<Rightarrow> bool" where
  "can_send n ip \<longleftrightarrow> net_ok n \<and> \<not> arp_lk n \<and> arp_cached n ip \<noteq> None \<and> ip \<noteq> 0xffffffff \<and>
     length (junk n) = TCP_PACKET_SIZE"

definition sent_ip :: "net \<Rightarrow> uchar \<Rightarrow> bytes \<Rightarrow> uint32 \<Rightarrow> net" where
  "sent_ip n proto buffer dst = n\<lparr>n_ip_id := n_ip_id n + 1, arp_lk := False,
     n_nic := after_send (ether_frame (the (arp_cached n dst)) (n_mac n) ETHERNET_TYPE_IP
       (datagram n proto buffer (MYIP n) dst)) (n_nic n)\<rparr>"

lemma ip_send_sent:
  assumes "can_send n dst" "length buffer \<le> MAX_TRANSPORT_PAYLOAD_SIZE"
  shows "ip_send proto buffer (MYIP n) dst n sch = Ret () (sent_ip n proto buffer dst) sch"
  using assms ip_send_cached [of n dst _ buffer proto "MYIP n" sch] by (auto simp: can_send_def sent_ip_def)

lemma tcp_send_run:
  assumes "can_send n peer" "length data \<le> MSS" "unat hs + length data \<le> TCP_PACKET_SIZE"
  shows "tcp_send sp dp peer sq ak fl hs data n sch =
    Ret () (sent_ip n IP_PROTOCOL_TCP (tcp_segment (junk n) (MYIP n) peer sp dp sq ak fl hs data) peer) sch"
proof -
  have "length (tcp_segment (junk n) (MYIP n) peer sp dp sq ak fl hs data) \<le> MAX_TRANSPORT_PAYLOAD_SIZE"
    using assms by (simp add: length_tcp_segment can_send_def)
  from ip_send_sent [OF assms(1) this, of IP_PROTOCOL_TCP sch] assms(2,3) show ?thesis
    by (simp add: tcp_send_def tcp_pack_run tcp_segment_def Let_def)
qed

lemma tcp_send_ack_run:
  assumes "can_send n peer" "peer = dst_addr (tcon (sock si n))" "si < length (sockets n)"
  shows "tcp_send_ack si ack n sch =
    Ret () ((sent_ip n IP_PROTOCOL_TCP (tcp_segment (junk n) (MYIP n) peer (so_port (sock si n))
        (dst_port (tcon (sock si n))) (next_seq (tcon (sock si n)) - 1) ack TCP_FLAG_ACK 20 []) peer)
      \<lparr>sockets := (sockets n)[si := (sock si n)\<lparr>tcon := (tcon (sock si n))\<lparr>ack_sent := ack\<rparr>\<rparr>]\<rparr>) sch"
  using assms tcp_send_run [of n peer "[]" 20]
  by (simp add: tcp_send_ack_def tcon_upd_def sock_upd_def sent_ip_def sock_def)

section \<open>In-order data\<close>

lemma mload_plus: "mload a (n + m) M = mload a n M @ mload (a + of_nat n) m M"
  by (rule nth_equalityI) (auto simp: mload_def nth_append)

lemma mload_mstore_extend:
  assumes "n + length d \<le> 4096"
  shows "mload a (n + length d) (mstore (a + of_nat n) d M) = mload a n M @ d"
proof -
  have "mload a n (mstore (a + of_nat n) d M) = mload a n M"
  proof (rule mload_mstore_other)
    fix i assume i: "i < n"
    have "a + of_nat i - (a + of_nat n) = (of_nat i - of_nat n :: uint32)" by simp
    then show "length d \<le> unat (a + of_nat i - (a + of_nat n))"
      using i assms by (simp only: unat_sub_if') (simp add: unat_of_nat_word)
  qed
  moreover have "mload (a + of_nat n) (length d) (mstore (a + of_nat n) d M) = d"
    using assms by (intro mload_mstore) simp
  ultimately show ?thesis by (simp add: mload_plus)
qed

lemma can_send_simps [simp]:
  "can_send (n\<lparr>sockets := x1\<rparr>) ip = can_send n ip"
  "can_send (n\<lparr>n_kmem := x2\<rparr>) ip = can_send n ip"
  "can_send (n\<lparr>woken := x3\<rparr>) ip = can_send n ip"
  by (simp_all add: can_send_def net_ok_def arp_cached_def next_hop_def)

lemma arp_cached_simps [simp]:
  "arp_cached (n\<lparr>sockets := x1\<rparr>) ip = arp_cached n ip"
  "arp_cached (n\<lparr>n_kmem := x2\<rparr>) ip = arp_cached n ip"
  "arp_cached (n\<lparr>woken := x3\<rparr>) ip = arp_cached n ip"
  by (simp_all add: arp_cached_def next_hop_def)

lemma datagram_simps [simp]:
  "datagram (n\<lparr>sockets := x1\<rparr>) = datagram n"
  "datagram (n\<lparr>n_kmem := x2\<rparr>) = datagram n"
  "datagram (n\<lparr>woken := x3\<rparr>) = datagram n"
  by (simp_all add: fun_eq_iff datagram_def)

text \<open>A connection of the host: socket \<open>si\<close> is the active socket of \<open>port\<close>, connected to port
  \<open>pport\<close> of \<open>peer\<close>.\<close>

definition established :: "net \<Rightarrow> nat \<Rightarrow> ushort \<Rightarrow> uint32 \<Rightarrow> ushort \<Rightarrow> bool" where
  "established n si port peer pport \<longleftrightarrow> si < length (sockets n) \<and> unat port < NPORTS \<and>
     po_pid (ports n (unat port)) \<noteq> -1 \<and> active_socket (ports n (unat port)) = Some si \<and>
     tc_state (tcon (sock si n)) = TCP_ESTABLISHED \<and> dst_addr (tcon (sock si n)) = peer \<and>
     dst_port (tcon (sock si n)) = pport"

definition ack_frame :: "net \<Rightarrow> nat \<Rightarrow> uint32 \<Rightarrow> bytes" where
  "ack_frame n si ack =
     (let c = tcon (sock si n); peer = dst_addr c in
      wire_frame (ether_frame (the (arp_cached n peer)) (n_mac n) ETHERNET_TYPE_IP
        (datagram n IP_PROTOCOL_TCP (tcp_segment (junk n) (MYIP n) peer (so_port (sock si n)) (dst_port c)
           (next_seq c - 1) ack TCP_FLAG_ACK 20 []) (MYIP n) peer)))"

lemma tcp_send_ack_effect:
  assumes "can_send n (dst_addr (tcon (sock si n)))" "si < length (sockets n)"
  obtains n' where "tcp_send_ack si ack n sch = Ret () n' sch"
    "sock si n' = (sock si n)\<lparr>tcon := (tcon (sock si n))\<lparr>ack_sent := ack\<rparr>\<rparr>"
    "n_kmem n' = n_kmem n" "nic_sent (n_nic n') = nic_sent (n_nic n) @ [ack_frame n si ack]"
    "length (sockets n') = length (sockets n)"
proof -
  note r = tcp_send_ack_run [OF assms(1) refl assms(2), of ack sch]
  show ?thesis
    by (rule that [OF r]) (use assms(2) in \<open>simp_all add: sent_ip_def after_send_def ack_frame_def Let_def\<close>,
      simp add: sock_def)
qed

lemma buffer_write_run:
  assumes "so_buffer (sock si n) \<noteq> 0" "0 \<le> off" "off + int (length data) \<le> 4096"
  shows "buffer_write si off data n sch = Ret () (n\<lparr>n_kmem := (n_kmem n)\<lparr>mem :=
    mstore (so_buffer (sock si n) + of_int off) data (mem (n_kmem n))\<rparr>\<rparr>) sch"
proof -
  have "mstore a [] m = m" for a m by (rule ext) (simp add: mstore_def)
  with assms show ?thesis by (simp add: buffer_write_def)
qed

text \<open>A host with one connection, for the examples: port 1024 is connected to port 80 of
  192.168.2.3, whose hardware address is in the cache. Two bytes have been received; one packet
  with three bytes is in flight.\<close>

definition demo_packet :: queued_packet where
  "demo_packet = \<lparr>qp_seq = 1, qp_size = 23, qp_pkt = (replicate TCP_PACKET_SIZE 0)[12 := 0x50]\<rparr>"

definition demo_socket :: socket where
  "demo_socket = boot_socket\<lparr>so_addr := 0xc0a80202, so_port := 1024, so_state := SOCKET_CONNECTED,
     so_buffer := 0x80200000, so_end := 2,
     tcon := boot_tcon\<lparr>tc_state := TCP_ESTABLISHED, dst_addr := 0xc0a80203, dst_port := 80,
       pkts := (pkts boot_tcon)[0 := demo_packet],
       window := \<lparr>qfront = 0, qrear = 0, qsize = 10, qA = 1 # replicate 9 0\<rparr>,
       base_seq := 1, next_seq := 4, ack_sent := 7\<rparr>\<rparr>"

definition demo_net :: net where
  "demo_net = boot_net\<lparr>sockets := demo_socket # replicate 19 boot_socket,
     ports := (ports boot_net)(1024 := \<lparr>po_pid = 3, active_socket = Some 0, passive_socket = None\<rparr>),
     arp_cache := \<lparr>ae_ip = 0xc0a80203, ae_mac = [2, 0, 0, 0, 0, 1], valid_until = 120000, ae_status = USED\<rparr>
       # replicate 9 boot_arp_entry\<rparr>"

lemmas demo_defs = demo_packet_def demo_socket_def demo_net_def boot_defs

lemma demo_can_send: "can_send demo_net 0xc0a80203"
  by (simp add: can_send_def net_ok_def nic_ok_def arp_cached_def arp_live_def next_hop_def demo_defs)

lemma demo_established: "established demo_net 0 1024 0xc0a80203 80"
  by (simp add: established_def sock_def demo_defs)

section \<open>The send window\<close>

text \<open>The packets in the window carry consecutive ranges of sequence numbers, from the first byte
  that is not acknowledged to the next one to be sent.\<close>

fun contiguous :: "queued_packet list \<Rightarrow> uint32 \<Rightarrow> uint32 \<Rightarrow> bool" where
  "contiguous [] a b \<longleftrightarrow> a = b"
| "contiguous (p # ps) a b \<longleftrightarrow> qp_seq p = a \<and> 20 \<le> qp_size p \<and> qp_pkt p ! 12 = 0x50 \<and>
     contiguous ps (a + of_int (qp_size p - 20)) b"

definition in_window :: "tcp_connection \<Rightarrow> queued_packet list" where
  "in_window c = map (\<lambda>v. pkts c ! nat (v - 1)) (qlist (window c))"

definition win_ok :: "tcp_connection \<Rightarrow> bool" where
  "win_ok c \<longleftrightarrow> qinv (window c) \<and> (\<forall>v\<in>set (qlist (window c)). 0 < v \<and> v \<le> int (length (pkts c))) \<and>
     contiguous (in_window c) (base_seq c) (next_seq c)"

definition acked :: "uint32 \<Rightarrow> queued_packet \<Rightarrow> bool" where
  "acked ack p \<longleftrightarrow> qp_seq p + of_int (qp_size p - 20) \<le> ack"

lemma ack_loop_spec:
  assumes "win_ok c" "qlen (window c) < k"
  shows "\<exists>c'. ack_loop k ack c = Some c' \<and> win_ok c' \<and> next_seq c' = next_seq c \<and> pkts c' = pkts c \<and>
    tc_state c' = tc_state c \<and> ack_sent c' = ack_sent c \<and>
    in_window c' = dropWhile (acked ack) (in_window c)"
  using assms
proof (induction k arbitrary: c)
  case 0
  then show ?case by simp
next
  case (Suc k)
  have inv: "qinv (window c)" using Suc.prems by (simp add: win_ok_def)
  show ?case
  proof (cases "qlist (window c)")
    case Nil
    with inv Suc.prems show ?thesis by (simp add: ring.empty_iff in_window_def)
  next
    case (Cons v vs)
    define p where "p = pkts c ! nat (v - 1)"
    have front: "\<not> isqueueempty (window c)" "getfront (window c) = v"
      using inv Cons by (simp_all add: ring.fifo_simps)
    have v: "0 < v" "v \<le> int (length (pkts c))" using Suc.prems Cons by (auto simp: win_ok_def)
    have w: "in_window c = p # map (\<lambda>v. pkts c ! nat (v - 1)) vs" using Cons by (simp add: in_window_def p_def)
    have p: "qp_seq p = base_seq c" "20 \<le> qp_size p" "qp_pkt p ! 12 = 0x50"
      using Suc.prems w by (auto simp: win_ok_def)
    show ?thesis
    proof (cases "acked ack p")
      case False
      with front v w Suc.prems show ?thesis
        by (auto simp: p_def [symmetric] acked_def Let_def add_diff_eq)
    next
      case True
      let ?c = "c\<lparr>window := snd (dequeue (window c)), base_seq := base_seq c + of_int (qp_size p - 20)\<rparr>"
      have q: "qlist (snd (dequeue (window c))) = vs" "qinv (snd (dequeue (window c)))"
        using inv Cons by (simp_all add: ring.fifo_simps)
      have "win_ok ?c" using Suc.prems Cons w q by (auto simp: win_ok_def in_window_def)
      moreover have "qlen (snd (dequeue (window c))) < k"
        using Suc.prems(2) q(1) Cons by (metis Suc_less_SucD length_Cons length_qlist)
      ultimately obtain c' where c': "ack_loop k ack ?c = Some c'" "win_ok c'" "next_seq c' = next_seq c"
        "pkts c' = pkts c" "tc_state c' = tc_state c" "ack_sent c' = ack_sent c"
        "in_window c' = dropWhile (acked ack) (in_window ?c)"
        using Suc.IH [of ?c] by auto
      have "ack_loop (Suc k) ack c = ack_loop k ack ?c"
        using front v True p(3) by (simp add: p_def [symmetric] acked_def Let_def add_diff_eq)
      with c' w q True show ?thesis by (simp add: in_window_def)
    qed
  qed
qed

lemma demo_window: "in_window (tcon (sock 0 demo_net)) = [demo_packet]" "base_seq (tcon (sock 0 demo_net)) = 1"
  "next_seq (tcon (sock 0 demo_net)) = 4" "win_ok (tcon (sock 0 demo_net))"
proof -
  have q: "qlist \<lparr>qfront = 0, qrear = 0, qsize = 10, qA = 1 # replicate 9 0\<rparr> = [1]"
    by (simp add: qlist_def qlen_def)
  show c: "in_window (tcon (sock 0 demo_net)) = [demo_packet]" "base_seq (tcon (sock 0 demo_net)) = 1"
    "next_seq (tcon (sock 0 demo_net)) = 4"
    by (simp_all add: in_window_def sock_def demo_net_def demo_socket_def q boot_tcon_def)
  show "win_ok (tcon (sock 0 demo_net))"
    unfolding win_ok_def c by (simp add: sock_def demo_defs q qinv_def QUEUE_SIZE_def)
qed

text \<open>C28: When an acknowledgement of data in flight comes in, the window loses exactly the packets
  at its front whose data is acknowledged in full, \<^verbatim>\<open>base_seq\<close> moves to the first byte that is
  not acknowledged, and the window keeps holding consecutive ranges up to \<^verbatim>\<open>next_seq\<close>. The
  removal loop needs at most one round per queued packet. An acknowledgement outside of the
  window changes nothing.\<close>

theorem tcp_ack_window:
  assumes "si < length (sockets n)" "win_ok (tcon (sock si n))"
  shows "\<exists>n'. tcp_receive_ack si ack n sch = Ret () n' sch \<and> win_ok (tcon (sock si n')) \<and>
    next_seq (tcon (sock si n')) = next_seq (tcon (sock si n)) \<and>
    in_window (tcon (sock si n')) =
      (if ack < base_seq (tcon (sock si n)) \<or> next_seq (tcon (sock si n)) < ack then in_window (tcon (sock si n))
       else dropWhile (acked ack) (in_window (tcon (sock si n))))"
proof -
  have "qlen (window (tcon (sock si n))) < 11"
    using assms(2) qlen_le [of "window (tcon (sock si n))"] by (simp add: win_ok_def)
  from ack_loop_spec [OF assms(2) this, of ack] assms show ?thesis
    by (auto simp: tcp_receive_ack_def tcon_upd_def sock_upd_def) (auto simp: sock_def)
qed

theorem tcp_ack_window_witness:
  "\<exists>n'. tcp_receive_ack 0 4 demo_net [] = Ret () n' [] \<and> win_ok (tcon (sock 0 n')) \<and>
     next_seq (tcon (sock 0 n')) = 4 \<and> in_window (tcon (sock 0 n')) = []"
proof -
  have "0 < length (sockets demo_net)" by (simp add: demo_net_def)
  moreover have "acked 4 demo_packet" by (simp add: acked_def demo_packet_def)
  ultimately show ?thesis using tcp_ack_window [of 0 demo_net 4 "[]"] demo_window by auto
qed

section \<open>Segments of an established connection\<close>

lemma tcp_of_bytes_append: "20 \<le> length bs \<Longrightarrow> tcp_of_bytes (bs @ rest) = tcp_of_bytes bs"
proof -
  assume "20 \<le> length bs"
  then have "(bs @ rest) ! i = bs ! i" if "i < 20" for i using that by (simp add: nth_append)
  then show ?thesis by (simp add: tcp_of_bytes_def rd16_def rd32_def)
qed

definition header_len :: "bytes \<Rightarrow> nat" where
  "header_len seg = 4 * unat (drop_bit 4 (th_offset (tcp_of_bytes seg)))"

definition seg_data :: "bytes \<Rightarrow> bytes" where
  "seg_data seg = drop (header_len seg) seg"

definition valid_segment :: "net \<Rightarrow> uint32 \<Rightarrow> ushort \<Rightarrow> ushort \<Rightarrow> bytes \<Rightarrow> bool" where
  "valid_segment n peer sp dp seg \<longleftrightarrow>
     (let h = tcp_of_bytes seg in
      20 \<le> length seg \<and> htons (th_src_port h) = sp \<and> htons (th_dst_port h) = dp \<and>
      checksum seg (pseudo_ip_sum (MYIP n) peer (of_nat (length seg))) = 0 \<and>
      th_offset h AND 0x0F = 0 \<and> header_len seg \<le> length seg)"

definition passive_takes :: "net \<Rightarrow> ushort \<Rightarrow> uchar \<Rightarrow> bool" where
  "passive_takes n port fl \<longleftrightarrow>
     (case passive_socket (ports n (unat port)) of
        None \<Rightarrow> False
      | Some pi \<Rightarrow> tc_state (tcon (sock pi n)) = TCP_LISTEN \<and> fl AND TCP_FLAG_SYN \<noteq> 0 \<or>
          tc_state (tcon (sock pi n)) = TCP_SYNACK_SENT \<and> fl AND TCP_FLAG_ACK \<noteq> 0)"

lemma offset_bytes:
  assumes "(w :: uchar) AND 0x0F = 0"
  shows "unat (drop_bit 2 w) = 4 * unat (drop_bit 4 w)"
proof -
  have "(0x0F :: uchar) = mask 4" by (simp add: mask_eq_exp_minus_1)
  then have "w AND 0x0F = w mod 16" using take_bit_eq_mod [of 4 w] by (simp add: take_bit_eq_mask)
  then have "unat (w mod 16) = 0" using assms by simp
  then have "unat w mod 16 = 0" by (simp add: unat_mod_distrib)
  moreover have "unat (drop_bit 2 w) = unat w div 4" "unat (drop_bit 4 w) = unat w div 16"
    by (simp_all add: drop_bit_eq_div unat_div_distrib)
  ultimately show ?thesis by auto
qed

lemma tcp_receive_established:
  assumes est: "established n si dp peer sp" and seg: "valid_segment n peer sp dp seg"
    and np: "\<not> passive_takes n dp (th_flags (tcp_of_bytes seg))"
  shows "tcp_receive (seg @ rest) (int (length seg)) peer n sch =
     (if th_flags (tcp_of_bytes seg) AND TCP_FLAG_ACK \<noteq> 0
      then tcp_receive_ack si (htonl (ack_num (tcp_of_bytes seg))) n sch
      else tcp_receive_data si dp (seg @ rest) (int (length seg)) (tcp_of_bytes seg) n sch)"
proof -
  define h where "h = tcp_of_bytes seg"
  have l: "20 \<le> length seg" and pt: "htons (th_src_port h) = sp" "htons (th_dst_port h) = dp"
    and ck: "checksum seg (pseudo_ip_sum (MYIP n) peer (of_nat (length seg))) = 0"
    using seg by (auto simp: valid_segment_def Let_def h_def)
  have h: "tcp_of_bytes (seg @ rest) = h" using tcp_of_bytes_append [OF l] by (simp add: h_def)
  have act: "tcp_receive_active si dp (seg @ rest) (int (length seg)) peer h n sch =
     (if th_flags h AND TCP_FLAG_ACK \<noteq> 0 then tcp_receive_ack si (htonl (ack_num h)) n sch
      else tcp_receive_data si dp (seg @ rest) (int (length seg)) h n sch)"
    using est pt(1) by (simp add: tcp_receive_active_def established_def)
  show ?thesis
    using est l ck np act pt(2) unfolding tcp_receive_def Let_def h h_def [symmetric]
    by (auto simp: established_def passive_takes_def split: option.splits)
qed

lemma tcp_receive_ack_effect:
  assumes "si < length (sockets n)" "win_ok (tcon (sock si n))"
  obtains n' where "tcp_receive_ack si ack n sch = Ret () n' sch"
    "ack_sent (tcon (sock si n')) = ack_sent (tcon (sock si n))"
    "sock si n' = (sock si n)\<lparr>tcon := tcon (sock si n')\<rparr>" "tc_state (tcon (sock si n')) = tc_state (tcon (sock si n))"
    "n_kmem n' = n_kmem n" "n_nic n' = n_nic n" "length (sockets n') = length (sockets n)"
proof -
  have "qlen (window (tcon (sock si n))) < 11"
    using assms(2) qlen_le [of "window (tcon (sock si n))"] by (simp add: win_ok_def)
  from ack_loop_spec [OF assms(2) this, of ack] obtain c' where
    c': "ack_loop 11 ack (tcon (sock si n)) = Some c'" "tc_state c' = tc_state (tcon (sock si n))"
    "ack_sent c' = ack_sent (tcon (sock si n))" by blast
  show ?thesis
  proof (cases "ack < base_seq (tcon (sock si n)) \<or> next_seq (tcon (sock si n)) < ack")
    case True
    show ?thesis by (rule that [of n]) (use True in \<open>auto simp: tcp_receive_ack_def\<close>)
  next
    case False
    show ?thesis
      by (rule that [of "n\<lparr>sockets := (sockets n)[si := (sock si n)\<lparr>tcon := c'\<rparr>]\<rparr>"])
        (use False c' assms(1) in \<open>auto simp: tcp_receive_ack_def tcon_upd_def sock_upd_def sock_def\<close>)
  qed
qed

lemma tcp_receive_data_in_order:
  assumes si: "si < length (sockets n)" and seg: "valid_segment n peer sp dp seg"
    and buf: "so_buffer (sock si n) \<noteq> 0" "0 \<le> so_end (sock si n)"
      "so_end (sock si n) + int (length (seg_data seg)) \<le> 4096"
    and h: "htonl (seq_num (tcp_of_bytes seg)) = ack_sent (tcon (sock si n))"
  obtains w where "tcp_receive_data si dp (seg @ rest) (int (length seg)) (tcp_of_bytes seg) n sch =
    tcp_send_ack si (ack_sent (tcon (sock si n)) + of_nat (length (seg_data seg))) (n\<lparr>
      n_kmem := (n_kmem n)\<lparr>mem := mstore (so_buffer (sock si n) + of_int (so_end (sock si n))) (seg_data seg) (mem (n_kmem n))\<rparr>,
      woken := w,
      sockets := (sockets n)[si := (sock si n)\<lparr>so_end := so_end (sock si n) + int (length (seg_data seg)),
        tcon := (tcon (sock si n))\<lparr>seq_received := ack_sent (tcon (sock si n))\<rparr>\<rparr>]\<rparr>) sch"
proof -
  have off: "unat (drop_bit 2 (th_offset (tcp_of_bytes seg))) = header_len seg" and hl: "header_len seg \<le> length seg"
    using seg offset_bytes by (auto simp: valid_segment_def Let_def header_len_def)
  have uo: "uint (drop_bit 2 (th_offset (tcp_of_bytes seg))) = int (header_len seg)"
    using off by (simp only: uint_nat)
  have l: "int (length seg) - int (header_len seg) = int (length (seg_data seg))" using hl by (simp add: seg_data_def)
  have d: "drop (header_len seg) (take (length seg) (seg @ rest)) = seg_data seg" by (simp add: seg_data_def)
  show ?thesis
    by (rule that [of "woken n @ (if so_state (sock si n) = SOCKET_WAIT then [Chan ''ports'' (unat dp)] else [])"])
      (use si hl in \<open>simp add: tcp_receive_data_def h [unfolded sock_def] uo off d l seg_data_def [symmetric]
        buffer_write_run [OF buf, unfolded sock_def]
        sock_upd_def tcon_upd_def wakeup_port_def sock_def Let_def\<close>)
qed

lemma tcp_data_in_order:
  assumes est: "established n si dp peer sp" and send: "can_send n peer"
    and seg: "valid_segment n peer sp dp seg"
    and np: "\<not> passive_takes n dp (th_flags (tcp_of_bytes seg))"
    and fl: "th_flags (tcp_of_bytes seg) AND TCP_FLAG_ACK = 0"
    and buf: "so_buffer (sock si n) \<noteq> 0" "0 \<le> so_end (sock si n)"
      "so_end (sock si n) + int (length (seg_data seg)) \<le> 4096"
    and sq: "htonl (seq_num (tcp_of_bytes seg)) = ack_sent (tcon (sock si n))"
  obtains n' where "tcp_receive (seg @ rest) (int (length seg)) peer n sch = Ret () n' sch"
    "sock si n' = (sock si n)\<lparr>so_end := so_end (sock si n) + int (length (seg_data seg)),
       tcon := (tcon (sock si n))\<lparr>seq_received := ack_sent (tcon (sock si n)),
         ack_sent := ack_sent (tcon (sock si n)) + of_nat (length (seg_data seg))\<rparr>\<rparr>"
    "mem (n_kmem n') = mstore (so_buffer (sock si n) + of_nat (nat (so_end (sock si n)))) (seg_data seg) (mem (n_kmem n))"
    "nic_sent (n_nic n') = nic_sent (n_nic n) @ [ack_frame n si (ack_sent (tcon (sock si n)) + of_nat (length (seg_data seg)))]"
    "length (sockets n') = length (sockets n)"
proof -
  let ?d = "seg_data seg" and ?a = "ack_sent (tcon (sock si n)) + of_nat (length (seg_data seg))"
  have run: "tcp_receive (seg @ rest) (int (length seg)) peer n sch =
      tcp_receive_data si dp (seg @ rest) (int (length seg)) (tcp_of_bytes seg) n sch"
    using tcp_receive_established [OF est seg np] fl by simp
  have si: "si < length (sockets n)" and send': "can_send n (dst_addr (tcon (sock si n)))"
    using est send by (auto simp: established_def)
  define s1 where "s1 = (sock si n)\<lparr>so_end := so_end (sock si n) + int (length ?d),
      tcon := (tcon (sock si n))\<lparr>seq_received := ack_sent (tcon (sock si n))\<rparr>\<rparr>"
  define M where "M = mstore (so_buffer (sock si n) + of_int (so_end (sock si n))) ?d (mem (n_kmem n))"
  obtain w where w: "tcp_receive_data si dp (seg @ rest) (int (length seg)) (tcp_of_bytes seg) n sch =
      tcp_send_ack si ?a (n\<lparr>n_kmem := (n_kmem n)\<lparr>mem := M\<rparr>, woken := w,
        sockets := (sockets n)[si := s1]\<rparr>) sch" (is "_ = tcp_send_ack _ _ ?m _")
    unfolding M_def s1_def by (rule tcp_receive_data_in_order [OF si seg buf sq]) blast
  have m: "sock si ?m = s1" using si by (simp add: sock_def)
  have "can_send ?m (dst_addr (tcon (sock si ?m)))" unfolding m using send' by (simp add: s1_def)
  then obtain n' where n': "tcp_send_ack si ?a ?m sch = Ret () n' sch"
    "sock si n' = s1\<lparr>tcon := (tcon s1)\<lparr>ack_sent := ?a\<rparr>\<rparr>"
    "n_kmem n' = n_kmem ?m" "nic_sent (n_nic n') = nic_sent (n_nic ?m) @ [ack_frame ?m si ?a]"
    "length (sockets n') = length (sockets ?m)"
    using tcp_send_ack_effect [of ?m si ?a sch] si unfolding m by auto
  have "ack_frame ?m si ?a = ack_frame n si ?a"
    unfolding ack_frame_def m by (simp add: s1_def Let_def)
  with n' run w buf(2) show ?thesis by (intro that [of n']) (simp_all add: s1_def M_def)
qed

lemma tcp_other_segment:
  assumes est: "established n si dp peer sp" and send: "can_send n peer"
    and seg: "valid_segment n peer sp dp seg"
    and np: "\<not> passive_takes n dp (th_flags (tcp_of_bytes seg))" and win: "win_ok (tcon (sock si n))"
    and other: "th_flags (tcp_of_bytes seg) AND TCP_FLAG_ACK \<noteq> 0 \<or>
      htonl (seq_num (tcp_of_bytes seg)) \<noteq> ack_sent (tcon (sock si n))"
  obtains n' where "tcp_receive (seg @ rest) (int (length seg)) peer n sch = Ret () n' sch"
    "sock si n' = (sock si n)\<lparr>tcon := tcon (sock si n')\<rparr>" "tc_state (tcon (sock si n')) = TCP_ESTABLISHED"
    "ack_sent (tcon (sock si n')) = ack_sent (tcon (sock si n))" "n_kmem n' = n_kmem n"
    "nic_sent (n_nic n') = nic_sent (n_nic n) @
       (if th_flags (tcp_of_bytes seg) AND TCP_FLAG_ACK \<noteq> 0 then [] else [ack_frame n si (ack_sent (tcon (sock si n)))])"
    "length (sockets n') = length (sockets n)"
proof -
  have si: "si < length (sockets n)" and send': "can_send n (dst_addr (tcon (sock si n)))"
    and st: "tc_state (tcon (sock si n)) = TCP_ESTABLISHED"
    using est send by (auto simp: established_def)
  note run = tcp_receive_established [OF est seg np, of rest sch]
  show ?thesis
  proof (cases "th_flags (tcp_of_bytes seg) AND TCP_FLAG_ACK = 0")
    case False
    obtain n' where n': "tcp_receive_ack si (htonl (ack_num (tcp_of_bytes seg))) n sch = Ret () n' sch"
      "ack_sent (tcon (sock si n')) = ack_sent (tcon (sock si n))"
      "sock si n' = (sock si n)\<lparr>tcon := tcon (sock si n')\<rparr>" "tc_state (tcon (sock si n')) = tc_state (tcon (sock si n))"
      "n_kmem n' = n_kmem n" "n_nic n' = n_nic n" "length (sockets n') = length (sockets n)"
      by (rule tcp_receive_ack_effect [OF si win])
    show ?thesis by (rule that [of n', OF _ n'(3)]) (use run False st n'(1,2,4-7) in simp_all)
  next
    case True
    then have "tcp_receive_data si dp (seg @ rest) (int (length seg)) (tcp_of_bytes seg) n sch =
        tcp_send_ack si (ack_sent (tcon (sock si n))) n sch"
      using other by (auto simp: tcp_receive_data_def)
    moreover obtain n' where n': "tcp_send_ack si (ack_sent (tcon (sock si n))) n sch = Ret () n' sch"
      "sock si n' = (sock si n)\<lparr>tcon := (tcon (sock si n))\<lparr>ack_sent := ack_sent (tcon (sock si n))\<rparr>\<rparr>"
      "n_kmem n' = n_kmem n" "nic_sent (n_nic n') = nic_sent (n_nic n) @ [ack_frame n si (ack_sent (tcon (sock si n)))]"
      "length (sockets n') = length (sockets n)"
      by (rule tcp_send_ack_effect [OF send' si])
    ultimately show ?thesis using run True st by (intro that [of n']) simp_all
  qed
qed

text \<open>The general form covers the segments that the other side's \<^verbatim>\<open>tcp_pack\<close> makes.\<close>

lemma tcp_segment_valid:
  assumes "length packet = TCP_PACKET_SIZE" "length data \<le> MSS"
    and "seg = tcp_segment packet peer (MYIP n) sp dp sq ak fl 20 data"
  shows "valid_segment n peer sp dp seg" "seg_data seg = data" "th_flags (tcp_of_bytes seg) = fl"
    "htonl (seq_num (tcp_of_bytes seg)) = sq" "length seg = 20 + length data"
proof -
  obtain ck where h: "tcp_of_bytes seg = \<lparr>th_src_port = htons sp, th_dst_port = htons dp,
      seq_num = htonl sq, ack_num = htonl ak, th_offset = 0x50, th_flags = fl,
      window_size = htons (of_nat WINDOW_SIZE), th_checksum = ck, urgent_ptr = 0\<rparr>"
    using tcp_of_tcp_segment [OF assms(1,2), of 20 peer "MYIP n" sp dp sq ak fl "[]"] unfolding assms(3) by auto
  show l: "length seg = 20 + length data" unfolding assms(3) using assms(1,2) by (simp add: length_tcp_segment)
  have hl: "header_len seg = 20" by (simp add: header_len_def h)
  have "checksum seg (pseudo_ip_sum (MYIP n) peer (of_nat (unat (20 :: uchar) + length data))) = 0"
    unfolding assms(3) using assms(1,2) by (intro tcp_segment_checksum) simp_all
  then show "valid_segment n peer sp dp seg" by (simp add: valid_segment_def Let_def h hl l)
  show "seg_data seg = data" unfolding seg_data_def hl unfolding assms(3) using assms(1,2) by (simp add: tcp_segment_data)
  show "th_flags (tcp_of_bytes seg) = fl" "htonl (seq_num (tcp_of_bytes seg)) = sq" by (simp_all add: h)
qed

text \<open>C2: Every valid segment of an established connection (right ports and checksum, reserved header bits
  zero, any header length and any flags; not one that the listening socket of the same port takes; room in the
  receive buffer for its data), on a host that knows the hardware address of the next hop to the peer and whose send window
  is consistent. Without the ACK flag: if it has the expected sequence number its data is appended
  to the receive buffer, after the bytes received before, and acknowledged by one segment whose acknowledgement
  number is the sequence number plus the length of the data; with any other sequence number it changes nothing in the
  buffer and is answered with the last acknowledgement again. With the ACK flag, its data is dropped: the
  buffer and the expected sequence number stay and nothing is sent.\<close>

theorem tcp_data_delivered:
  assumes est: "established n si dp peer sp" and send: "can_send n peer" and win: "win_ok (tcon (sock si n))"
    and seg: "valid_segment n peer sp dp seg"
    and np: "\<not> passive_takes n dp (th_flags (tcp_of_bytes seg))"
    and buf: "so_buffer (sock si n) \<noteq> 0" "0 \<le> so_end (sock si n)"
      "so_end (sock si n) + int (length (seg_data seg)) \<le> 4096"
  shows "\<exists>n'. tcp_receive (seg @ rest) (int (length seg)) peer n sch = Ret () n' sch \<and>
    (if th_flags (tcp_of_bytes seg) AND TCP_FLAG_ACK \<noteq> 0 then
       so_end (sock si n') = so_end (sock si n) \<and> mem (n_kmem n') = mem (n_kmem n) \<and>
       ack_sent (tcon (sock si n')) = ack_sent (tcon (sock si n)) \<and> nic_sent (n_nic n') = nic_sent (n_nic n)
     else if htonl (seq_num (tcp_of_bytes seg)) = ack_sent (tcon (sock si n)) then
       so_end (sock si n') = so_end (sock si n) + int (length (seg_data seg)) \<and>
       mload (so_buffer (sock si n)) (nat (so_end (sock si n'))) (mem (n_kmem n')) =
         mload (so_buffer (sock si n)) (nat (so_end (sock si n))) (mem (n_kmem n)) @ seg_data seg \<and>
       ack_sent (tcon (sock si n')) = ack_sent (tcon (sock si n)) + of_nat (length (seg_data seg)) \<and>
       nic_sent (n_nic n') = nic_sent (n_nic n) @
         [ack_frame n si (ack_sent (tcon (sock si n)) + of_nat (length (seg_data seg)))]
     else
       so_end (sock si n') = so_end (sock si n) \<and> mem (n_kmem n') = mem (n_kmem n) \<and>
       ack_sent (tcon (sock si n')) = ack_sent (tcon (sock si n)) \<and>
       nic_sent (n_nic n') = nic_sent (n_nic n) @ [ack_frame n si (ack_sent (tcon (sock si n)))])"
proof (cases "th_flags (tcp_of_bytes seg) AND TCP_FLAG_ACK = 0 \<and>
    htonl (seq_num (tcp_of_bytes seg)) = ack_sent (tcon (sock si n))")
  case True
  obtain n' where n': "tcp_receive (seg @ rest) (int (length seg)) peer n sch = Ret () n' sch"
    "sock si n' = (sock si n)\<lparr>so_end := so_end (sock si n) + int (length (seg_data seg)),
       tcon := (tcon (sock si n))\<lparr>seq_received := ack_sent (tcon (sock si n)),
         ack_sent := ack_sent (tcon (sock si n)) + of_nat (length (seg_data seg))\<rparr>\<rparr>"
    "mem (n_kmem n') = mstore (so_buffer (sock si n) + of_nat (nat (so_end (sock si n)))) (seg_data seg) (mem (n_kmem n))"
    "nic_sent (n_nic n') = nic_sent (n_nic n) @ [ack_frame n si (ack_sent (tcon (sock si n)) + of_nat (length (seg_data seg)))]"
    by (rule tcp_data_in_order [OF est send seg np _ buf]) (use True in auto)
  have "mload (so_buffer (sock si n)) (nat (so_end (sock si n) + int (length (seg_data seg)))) (mem (n_kmem n')) =
      mload (so_buffer (sock si n)) (nat (so_end (sock si n))) (mem (n_kmem n)) @ seg_data seg"
    unfolding n'(3) using mload_mstore_extend [of "nat (so_end (sock si n))" "seg_data seg"] buf(2,3)
    by (simp add: nat_add_distrib)
  with n' True show ?thesis by (intro exI [of _ n']) simp
next
  case False
  then obtain n' where n': "tcp_receive (seg @ rest) (int (length seg)) peer n sch = Ret () n' sch"
    "sock si n' = (sock si n)\<lparr>tcon := tcon (sock si n')\<rparr>"
    "ack_sent (tcon (sock si n')) = ack_sent (tcon (sock si n))" "n_kmem n' = n_kmem n"
    "nic_sent (n_nic n') = nic_sent (n_nic n) @
       (if th_flags (tcp_of_bytes seg) AND TCP_FLAG_ACK \<noteq> 0 then [] else [ack_frame n si (ack_sent (tcon (sock si n)))])"
    by (rule_tac tcp_other_segment [OF est send seg np win, of rest sch]) auto
  have "so_end (sock si n') = so_end (sock si n)" using arg_cong [OF n'(2), of so_end] by simp
  with n'(1,3-5) False show ?thesis by (intro exI [of _ n']) auto
qed

text \<open>A data segment with the expected sequence number is delivered; the same segment with the ACK flag is not.\<close>

definition demo_seg :: "uchar \<Rightarrow> bytes" where
  "demo_seg fl = tcp_segment (replicate TCP_PACKET_SIZE 0) 0xc0a80203 (MYIP demo_net) 80 1024 7 0 fl 20 [104, 105]"

lemma demo_seg_valid:
  "valid_segment demo_net 0xc0a80203 80 1024 (demo_seg fl)" "seg_data (demo_seg fl) = [104, 105]"
  "th_flags (tcp_of_bytes (demo_seg fl)) = fl" "htonl (seq_num (tcp_of_bytes (demo_seg fl))) = 7"
  using tcp_segment_valid [of "replicate TCP_PACKET_SIZE 0" "[104, 105]" "demo_seg fl" "0xc0a80203" demo_net 80 1024 7 0 fl]
  by (simp_all add: demo_seg_def)

lemma demo_sock: "so_buffer (sock 0 demo_net) = 0x80200000" "so_end (sock 0 demo_net) = 2"
  "ack_sent (tcon (sock 0 demo_net)) = 7" "\<not> passive_takes demo_net 1024 fl"
  by (simp_all add: sock_def passive_takes_def demo_defs)

theorem tcp_data_delivered_witness:
  "(\<exists>n'. tcp_receive (demo_seg 0 @ []) (int (length (demo_seg 0))) 0xc0a80203 demo_net [] = Ret () n' [] \<and>
      so_end (sock 0 n') = 4 \<and> ack_sent (tcon (sock 0 n')) = 9) \<and>
   (\<exists>n'. tcp_receive (demo_seg TCP_FLAG_ACK @ []) (int (length (demo_seg TCP_FLAG_ACK))) 0xc0a80203 demo_net [] = Ret () n' [] \<and>
      so_end (sock 0 n') = 2 \<and> ack_sent (tcon (sock 0 n')) = 7)"
proof -
  note f = tcp_data_delivered [OF demo_established demo_can_send demo_window(4) demo_seg_valid(1) demo_sock(4), of _ "[]" "[]",
      unfolded demo_seg_valid demo_sock]
  show ?thesis using f [of 0] f [of TCP_FLAG_ACK] by (auto simp: demo_sock)
qed

end
