(* ===== verification/NetRx.thy ===== *)
theory NetRx
  imports Tcp
begin

text \<open>
  The receive path: \<^verbatim>\<open>ip_receive\<close> (\<^verbatim>\<open>src/ip.c\<close>), \<^verbatim>\<open>ether_receive\<close> (\<^verbatim>\<open>src/ether.c\<close>) and the interrupt
  handler of the card with its receive ring (\<^verbatim>\<open>src/rtl8139.c\<close>). A pointer into the ring is the list of
  bytes from there to the end of the ring. The loop of \<^verbatim>\<open>nicintr\<close> runs as long as the card reports
  events and takes a number \<open>gas\<close> of rounds.

  The lemmas show that a frame that carries a datagram of \<^verbatim>\<open>ip_send\<close> is taken apart into exactly
  the payload, its length and the sender's address, that every frame is either handled or dropped by
  the checks in the order of the code, and which events the interrupt handler acknowledges.
\<close>

section \<open>IP and Ethernet\<close>

definition ip_receive :: "bytes \<Rightarrow> int \<Rightarrow> bytes \<Rightarrow> unit nm" where
  "ip_receive ip_dgram dsize rx_mac =
     thn (requirek (IP_HDR_SIZE \<le> length ip_dgram) (OutOfBounds ''ip header''))
     (let h = ip_of_bytes ip_dgram; payload = drop IP_HDR_SIZE ip_dgram;
          sz = int (unat (htons (tlen h))) - int IP_HDR_SIZE; src = htonl (src_ip h) in
      if drop_bit 4 (version_ihl h) \<noteq> IP_VERSION_4 then print_line (str ''Not an IPv4 packet.'')
      else if ttl h = 0 then print_line (str ''Received IP packet was dead with TTL=0.'')
      else if checksum (take IP_HDR_SIZE ip_dgram) 0 \<noteq> 0 then print_line (str ''Invalid checksum'')
      else
        bnd (gets id) (\<lambda>n.
        thn (if src AND GATEWAY n = MYIP n AND GATEWAY n then arp_add src rx_mac else ret ())
        (if protocol h = IP_PROTOCOL_ICMP then icmp_receive payload sz src
         else if protocol h = IP_PROTOCOL_TCP then tcp_receive payload sz src
         else thn (requirek (int IP_HDR_SIZE \<le> dsize \<and> nat (dsize - int IP_HDR_SIZE) \<le> length payload)
                     (OutOfBounds ''message''))
           (print_line (str ''message = '' @ takeWhile (\<lambda>c. c \<noteq> 0) (take (nat (dsize - int IP_HDR_SIZE)) payload))))))"

definition ether_receive :: "bytes \<Rightarrow> int \<Rightarrow> unit nm" where
  "ether_receive eth_frame pkt_size =
     thn (requirek (ETHERNET_HDR_SIZE \<le> length eth_frame) (OutOfBounds ''frame''))
     (let src = take MAC_SIZE (drop MAC_SIZE eth_frame); type = htons (rd16 eth_frame 12);
          payload = drop ETHERNET_HDR_SIZE eth_frame in
      if type = ETHERNET_TYPE_IP then ip_receive payload (pkt_size - int ETHERNET_HDR_SIZE) src
      else if type = ETHERNET_TYPE_ARP then arp_receive payload
      else ret ())"

section \<open>The receive ring\<close>

definition rtl8139_packetOK :: "uint32 \<Rightarrow> uint32 \<Rightarrow> uint32 \<Rightarrow> bool" where
  "rtl8139_packetOK rx_status rx_size pkt_length =
     (let bad_packet = (rx_status AND 0x10 \<noteq> 0 \<or> rx_status AND 0x08 \<noteq> 0 \<or> rx_status AND 0x04 \<noteq> 0 \<or>
                        rx_status AND 0x02 \<noteq> 0) in
      if \<not> bad_packet \<and> rx_status AND 0x01 \<noteq> 0 then \<not> (1514 < pkt_length \<or> pkt_length < 60)
      else False)"

definition rx_advance :: "uint32 \<Rightarrow> uint32 \<Rightarrow> unit nm" where
  "rx_advance cur rx_size =
     (let cur' = (cur + rx_size + 4 + 3) AND 0xfffffffc in
      thn (nic_upd (\<lambda>c. c\<lparr>cur_rx := cur'\<rparr>)) (reg_wr CurAddrPacket ((cur' - 0x10) AND 0xffff)))"

definition rtl8139_receive :: "int nm" where
  "rtl8139_receive =
     bnd (reg_rd Cmd) (\<lambda>tmpCmd0. let tmpCmd = tmpCmd0 AND 0xff in
     thn (nic_upd (\<lambda>c. c\<lparr>cur_rx := cur_rx c mod of_nat RX_BUF_LEN\<rparr>))
     (bnd (gets (\<lambda>n. n_nic n)) (\<lambda>c.
      let cur = cur_rx c;
          rx_status = rd32 (rx_ring c) (unat cur);
          rx_size = drop_bit 16 rx_status;
          pkt_length = rx_size - 4 in
      thn (requirek (unat cur + 4 \<le> length (rx_ring c)) (OutOfBounds ''rx_ring''))
      (if tmpCmd AND RxBufEmpty \<noteq> 0 then ret 1
       else if rtl8139_packetOK rx_status rx_size pkt_length then
         thn (if of_nat RX_BUF_LEN < cur + pkt_length then
                (let k = unat (cur + pkt_length - of_nat RX_BUF_LEN) in
                 thn (requirek (RX_BUF_LEN + k \<le> length (rx_ring c)) (OutOfBounds ''rx_ring''))
                 (nic_upd (\<lambda>c. c\<lparr>rx_ring := splice_at 0 (take k (drop RX_BUF_LEN (rx_ring c))) (rx_ring c)\<rparr>)))
              else ret ())
         (thn (rx_advance cur rx_size)
         (thn (nic_upd (\<lambda>c. c\<lparr>packets_received_good := packets_received_good c + 1\<rparr>))
         (thn (nic_upd (\<lambda>c. c\<lparr>byte_received := byte_received c + ucast pkt_length\<rparr>))
         (bnd (gets (\<lambda>n. rx_ring (n_nic n))) (\<lambda>ring.
          thn (ether_receive (drop (unat cur + 4) ring) (uint pkt_length)) (ret 1))))))
       else
         thn (nic_upd (\<lambda>c. c\<lparr>cur_rx := 0\<rparr>))
         (thn (reg_wr Cmd (tmpCmd OR CmdTxEnb OR CmdRxEnb))
         (thn (rx_advance 0 rx_size) (ret 1)))))))"

definition read_isr :: "uint32 nm" where
  "read_isr = bnd (reg_rd ISR) (\<lambda>v. ret (v AND 0xffff))"

fun nicintr_loop :: "nat \<Rightarrow> uint32 \<Rightarrow> unit nm" where
  "nicintr_loop 0 status = (if status = 0 then ret () else spinning)"
| "nicintr_loop (Suc gas) status =
     (if status = 0 then ret ()
      else
        bnd (if status AND TxOK \<noteq> 0 then
               thn (reg_wr ISR (status AND TxOK))
               (thn (nic_upd (\<lambda>c. c\<lparr>cur_tx := (cur_tx c + 1) mod NUM_TX_DESC\<rparr>)) (ret (status AND TxOK)))
             else ret status) (\<lambda>status.
        bnd (if status AND TxErr \<noteq> 0 then
               thn (reg_wr ISR (status AND TxErr)) (thn rtl8139_reset (ret (status AND TxErr)))
             else ret status) (\<lambda>status.
        bnd (if status AND RxOK \<noteq> 0 then
               thn rtl8139_receive (thn (reg_wr ISR (status AND RxOK)) (ret (status AND RxOK)))
             else ret status) (\<lambda>status.
        thn (if status AND RxErr \<noteq> 0 then
               thn (reg_wr ISR (status AND RxErr)) rtl8139_reset
             else ret ())
        (bnd read_isr (nicintr_loop gas))))))"

definition nicintr :: "nat \<Rightarrow> unit nm" where
  "nicintr gas = bnd read_isr (nicintr_loop gas)"

section \<open>Frames that carry a datagram\<close>

lemma ether_receive_frame:
  assumes "length d = 6" "length m = 6"
  shows "ether_receive (wire_frame (ether_frame d m ty p) @ rest) sz n sch =
    (if ty = ETHERNET_TYPE_IP then ip_receive (p @ replicate (ETH_ZLEN - length (ether_frame d m ty p)) 0 @ rest) (sz - 14) m n sch
     else if ty = ETHERNET_TYPE_ARP then arp_receive (p @ replicate (ETH_ZLEN - length (ether_frame d m ty p)) 0 @ rest) n sch
     else Ret () n sch)"
proof -
  obtain d0 d1 d2 d3 d4 d5 m0 m1 m2 m3 m4 m5 where
    "d = [d0, d1, d2, d3, d4, d5]" "m = [m0, m1, m2, m3, m4, m5]" using assms length6 by metis
  then show ?thesis
    by (simp add: ether_receive_def wire_frame_def ether_frame_def rd16_def le16_def Let_def)
qed

lemma ip_receive_datagram:
  assumes "length buffer \<le> MAX_TRANSPORT_PAYLOAD_SIZE"
  shows "ip_receive (datagram a proto buffer src dst @ rest) dsize m n sch =
    thn (if src AND GATEWAY n = MYIP n AND GATEWAY n then arp_add src m else ret ())
     (if proto = IP_PROTOCOL_ICMP then icmp_receive (buffer @ rest) (int (length buffer)) src
      else if proto = IP_PROTOCOL_TCP then tcp_receive (buffer @ rest) (int (length buffer)) src
      else thn (requirek (20 \<le> dsize \<and> nat (dsize - 20) \<le> length (buffer @ rest)) (OutOfBounds ''message''))
        (print_line (str ''message = '' @ takeWhile (\<lambda>c. c \<noteq> 0) (take (nat (dsize - 20)) (buffer @ rest))))) n sch"
proof -
  define h where "h = ip_make_header proto (n_ip_id a) src dst (length buffer)"
  have f: "ip_of_bytes (ip_bytes h @ buffer @ rest) = h" by (rule ip_of_ip_bytes)
  have "unat (of_nat (20 + length buffer) :: ushort) = 20 + length buffer"
    using assms by (simp only: unat_of_nat) (simp add: take_bit_eq_mod)
  then have tl: "int (unat (htons (tlen h))) - 20 = int (length buffer)"
    by (simp add: h_def ip_make_header_fields)
  have ck: "checksum (take 20 (ip_bytes h @ buffer @ rest)) 0 = 0"
    using ip_header_checksum [of proto "n_ip_id a" src dst "length buffer"] by (simp add: h_def)
  have hf: "drop_bit 4 (version_ihl h) = 4" "ttl h \<noteq> 0" "protocol h = proto" "htonl (src_ip h) = src"
    by (simp_all add: h_def ip_make_header_fields)
  have dr: "drop IP_HDR_SIZE (ip_bytes h @ buffer @ rest) = buffer @ rest" by simp
  show ?thesis
    unfolding ip_receive_def datagram_def h_def [symmetric] append_assoc Let_def f tl hf(1,3,4) dr of_nat_numeral
    by (simp add: ck [simplified] hf(2))
qed

text \<open>What a host does with a datagram from \<open>src\<close>, sent by hardware address \<open>m\<close>.\<close>

definition deliver :: "uchar \<Rightarrow> bytes \<Rightarrow> bytes \<Rightarrow> uint32 \<Rightarrow> bytes \<Rightarrow> int \<Rightarrow> unit nm" where
  "deliver proto buffer tail src m dsize n sch =
     thn (if src AND GATEWAY n = MYIP n AND GATEWAY n then arp_add src m else ret ())
      (if proto = IP_PROTOCOL_ICMP then icmp_receive (buffer @ tail) (int (length buffer)) src
       else if proto = IP_PROTOCOL_TCP then tcp_receive (buffer @ tail) (int (length buffer)) src
       else thn (requirek (20 \<le> dsize \<and> nat (dsize - 20) \<le> length (buffer @ tail)) (OutOfBounds ''message''))
         (print_line (str ''message = '' @ takeWhile (\<lambda>c. c \<noteq> 0) (take (nat (dsize - 20)) (buffer @ tail))))) n sch"

definition ip_frame :: "net \<Rightarrow> uchar \<Rightarrow> bytes \<Rightarrow> uint32 \<Rightarrow> bytes" where
  "ip_frame n proto buffer dst = wire_frame (ether_frame (the (arp_cached n dst)) (n_mac n) ETHERNET_TYPE_IP
     (datagram n proto buffer (MYIP n) dst))"

definition pad_of :: "bytes \<Rightarrow> bytes" where
  "pad_of buffer = replicate (26 - length buffer) 0"

lemma ether_receive_ip_frame:
  assumes "length (the (arp_cached a dst)) = 6" "length (n_mac a) = 6"
    "length buffer \<le> MAX_TRANSPORT_PAYLOAD_SIZE"
  shows "ether_receive (ip_frame a proto buffer dst @ rest) sz n sch =
    deliver proto buffer (pad_of buffer @ rest) (MYIP a) (n_mac a) (sz - 14) n sch"
proof -
  have l: "60 - length (ether_frame (the (arp_cached a dst)) (n_mac a) ETHERNET_TYPE_IP
     (datagram a proto buffer (MYIP a) dst)) = 26 - length buffer"
    using assms by (simp add: length_ether_frame datagram_def)
  show ?thesis
    unfolding ip_frame_def ether_receive_frame [OF assms(1,2)] l pad_of_def [symmetric]
    by (simp only: refl if_True ip_receive_datagram [OF assms(3)] deliver_def)
qed

lemma sent_ip_frame:
  "nic_sent (n_nic (sent_ip n proto buffer dst)) = nic_sent (n_nic n) @ [ip_frame n proto buffer dst]"
  by (simp add: sent_ip_def after_send_def ip_frame_def)

text \<open>C35: A datagram arrives as it was sent: \<^verbatim>\<open>ip_send\<close> puts exactly one frame on the wire, and a host
  that receives this frame, whatever follows it in its receive ring, accepts the header and
  passes the payload with its exact length and the sender's address to the handler of its
  protocol, after recording the sender in the ARP cache where its address matches.\<close>

theorem ip_datagram_delivered:
  assumes "can_send a dst" "length (the (arp_cached a dst)) = MAC_SIZE"
    "length buffer \<le> MAX_TRANSPORT_PAYLOAD_SIZE"
  shows "\<exists>a' frame. ip_send proto buffer (MYIP a) dst a sch = Ret () a' sch \<and>
    nic_sent (n_nic a') = nic_sent (n_nic a) @ [frame] \<and> 60 \<le> length frame \<and>
    ether_receive (frame @ rest) sz b sch' =
      deliver proto buffer (pad_of buffer @ rest) (MYIP a) (n_mac a) (sz - 14) b sch'"
proof -
  have m: "length (n_mac a) = 6" using assms(1) by (simp add: can_send_def net_ok_def)
  show ?thesis
    using ip_send_sent [OF assms(1,3)] sent_ip_frame ether_receive_ip_frame [OF assms(2) m assms(3)]
    by (intro exI conjI) (auto simp: ip_frame_def length_wire_frame)
qed

theorem ip_datagram_delivered_witness:
  "\<exists>a' frame. ip_send 1 [8, 0, 0, 0] (MYIP demo_net) 0xc0a80203 demo_net [] = Ret () a' [] \<and>
    nic_sent (n_nic a') = nic_sent (n_nic demo_net) @ [frame] \<and> 60 \<le> length frame \<and>
    ether_receive (frame @ []) 60 demo_net [] =
      deliver 1 [8, 0, 0, 0] (pad_of [8, 0, 0, 0] @ []) (MYIP demo_net) (n_mac demo_net) (60 - 14) demo_net []"
  by (rule ip_datagram_delivered [OF demo_can_send])
    (simp_all add: arp_cached_def arp_live_def next_hop_def demo_defs)

section \<open>Ping\<close>

text \<open>The host need not learn the address: it is no candidate for the ARP cache, or it is in it.\<close>

definition known :: "net \<Rightarrow> uint32 \<Rightarrow> bool" where
  "known n ip \<longleftrightarrow> ip AND GATEWAY n = MYIP n AND GATEWAY n \<longrightarrow>
     find_idx (arp_live (n_ticks n) ip) (arp_cache n) \<noteq> None"

lemma deliver_known:
  assumes "known n src" "\<not> arp_lk n"
  shows "\<exists>n'. deliver IP_PROTOCOL_ICMP buffer tail src m sz n sch =
    icmp_receive (buffer @ tail) (int (length buffer)) src n' sch \<and> (n' = n \<or> n' = n\<lparr>arp_lk := False\<rparr>)"
  using assms by (auto simp: deliver_def known_def arp_add_def arp_search_def split: option.split)

lemma ping_answer:
  assumes "can_send n src" "body = le16 ident @ le16 (htons q) @ data" "length body \<le> 1476"
    "pkt = [ICMP_TYPE_ECHO, code] @ le16 sm @ body"
  obtains sm' where "icmp_receive (pkt @ tail) (int (length pkt)) src n sch =
    Ret () (sent_ip n IP_PROTOCOL_ICMP ([ICMP_TYPE_ECHOREPLY, code] @ le16 sm' @ body) src) sch"
    "checksum ([ICMP_TYPE_ECHOREPLY, code] @ le16 sm' @ body) 0 = 0"
proof -
  have b: "4 \<le> length body" using assms(2) by simp
  have p: "pkt @ tail = [ICMP_TYPE_ECHO, code] @ le16 sm @ body @ tail" using assms(4) by simp
  have l: "int (length pkt) = int (length body) + 4" using assms(4) by simp
  from icmp_send_echo_reply_run [OF p l, of src n sch] obtain sm' where
    r: "icmp_send_echo_reply (pkt @ tail) (int (length pkt)) src n sch =
      ip_send IP_PROTOCOL_ICMP ([ICMP_TYPE_ECHOREPLY, code] @ le16 sm' @ body) (MYIP n) src n sch"
    "checksum ([ICMP_TYPE_ECHOREPLY, code] @ le16 sm' @ body) 0 = 0" by auto
  have "ip_send IP_PROTOCOL_ICMP ([ICMP_TYPE_ECHOREPLY, code] @ le16 sm' @ body) (MYIP n) src n sch =
      Ret () (sent_ip n IP_PROTOCOL_ICMP ([ICMP_TYPE_ECHOREPLY, code] @ le16 sm' @ body) src) sch"
    using assms(3) by (intro ip_send_sent [OF assms(1)]) simp
  with r icmp_receive_echo [OF p b] that show ?thesis by simp
qed

lemma sent_ip_keeps:
  "n_ticks (sent_ip n p buf d) = n_ticks n" "arp_cache (sent_ip n p buf d) = arp_cache n"
  "GATEWAY (sent_ip n p buf d) = GATEWAY n" "MYIP (sent_ip n p buf d) = MYIP n" "\<not> arp_lk (sent_ip n p buf d)"
  by (simp_all add: sent_ip_def)

text \<open>C1: Ping works end to end between two hosts that know each other's hardware address: the echo
  request that one host sends, received by the other, makes it send one frame, and that frame,
  received by the first, records the reply with the size, the sender's address and the sequence
  number of the request.\<close>

theorem ping_roundtrip:
  assumes a: "can_send a (MYIP b)" "length (the (arp_cached a (MYIP b))) = MAC_SIZE" "known a (MYIP b)"
    and b: "can_send b (MYIP a)" "length (the (arp_cached b (MYIP a))) = MAC_SIZE" "known b (MYIP a)"
  shows "\<exists>a' request b' reply a''.
    icmp_send_echo_request (MYIP b) seq_no a sch = Ret () a' sch \<and>
    nic_sent (n_nic a') = nic_sent (n_nic a) @ [request] \<and>
    ether_receive (request @ rest) sz b sch' = Ret () b' sch' \<and>
    nic_sent (n_nic b') = nic_sent (n_nic b) @ [reply] \<and>
    ether_receive (reply @ rest') sz' a' sch'' = Ret () a'' sch'' \<and>
    icmp_echo_reply_received a'' = 1 \<and>
    icmp_reply_pkt_info a'' = \<lparr>icmp_size = 64, icmp_src_ip = MYIP b, icmp_seq_no = seq_no\<rparr>"
proof -
  have mac: "length (n_mac a) = 6" "length (n_mac b) = 6"
    using a(1) b(1) by (simp_all add: can_send_def net_ok_def)
  let ?body = "le16 (htons 1) @ le16 (htons seq_no) @ replicate 56 (0x41 :: uchar)"
  obtain sm where req: "icmp_echo_request seq_no = [ICMP_TYPE_ECHO, 0] @ le16 sm @ ?body"
    using icmp_echo_request_eq [of seq_no] by auto
  define r where "r = icmp_echo_request seq_no"
  have lr: "length r = 64" by (simp add: r_def length_icmp_echo_request)
  define a' where "a' = sent_ip a IP_PROTOCOL_ICMP r (MYIP b)"
  have s1: "icmp_send_echo_request (MYIP b) seq_no a sch = Ret () a' sch"
    using ip_send_sent [OF a(1), of r IP_PROTOCOL_ICMP sch] lr
    by (simp add: icmp_send_echo_request_def r_def [symmetric] a'_def)
  obtain b1 where b1: "deliver IP_PROTOCOL_ICMP r (pad_of r @ rest) (MYIP a) (n_mac a) (sz - 14) b sch' =
      icmp_receive (r @ pad_of r @ rest) (int (length r)) (MYIP a) b1 sch'" "b1 = b \<or> b1 = b\<lparr>arp_lk := False\<rparr>"
    using deliver_known [OF b(3)] b(1) by (meson can_send_def)
  have cb: "can_send b1 (MYIP a)" "arp_cached b1 (MYIP a) = arp_cached b (MYIP a)" "n_mac b1 = n_mac b"
    "MYIP b1 = MYIP b" "nic_sent (n_nic b1) = nic_sent (n_nic b)"
    using b1(2) b(1) by (auto simp: can_send_def net_ok_def arp_cached_def next_hop_def)
  obtain sm' where "icmp_receive (r @ pad_of r @ rest) (int (length r)) (MYIP a) b1 sch' =
      Ret () (sent_ip b1 IP_PROTOCOL_ICMP ([ICMP_TYPE_ECHOREPLY, 0] @ le16 sm' @ ?body) (MYIP a)) sch'"
    by (rule ping_answer [OF cb(1) refl _ req [folded r_def], of "pad_of r @ rest" sch']) auto
  define g where "g = [ICMP_TYPE_ECHOREPLY, 0] @ le16 sm' @ ?body"
  have s2: "ether_receive (ip_frame a IP_PROTOCOL_ICMP r (MYIP b) @ rest) sz b sch' =
      Ret () (sent_ip b1 IP_PROTOCOL_ICMP g (MYIP a)) sch'"
    unfolding ether_receive_ip_frame [OF a(2) mac(1), of r, unfolded lr, simplified] b1(1) g_def by fact
  have lg: "length g = 64" by (simp add: g_def)
  have ka: "known a' (MYIP b)" "\<not> arp_lk a'" using a(3) by (simp_all add: known_def a'_def sent_ip_keeps)
  obtain a1 where a1: "deliver IP_PROTOCOL_ICMP g (pad_of g @ rest') (MYIP b) (n_mac b) (sz' - 14) a' sch'' =
      icmp_receive (g @ pad_of g @ rest') (int (length g)) (MYIP b) a1 sch''"
    using deliver_known [OF ka] by blast
  have "icmp_receive (g @ pad_of g @ rest') (int (length g)) (MYIP b) a1 sch'' =
      Ret () (a1\<lparr>icmp_echo_reply_received := 1,
        icmp_reply_pkt_info := \<lparr>icmp_size = int (length g), icmp_src_ip = MYIP b, icmp_seq_no = seq_no\<rparr>\<rparr>) sch''"
    by (rule icmp_receive_reply [of _ 0 sm' "htons 1" seq_no "replicate 56 0x41 @ pad_of g @ rest'"]) (simp add: g_def)
  then have s3: "ether_receive (ip_frame b1 IP_PROTOCOL_ICMP g (MYIP a) @ rest') sz' a' sch'' =
      Ret () (a1\<lparr>icmp_echo_reply_received := 1,
        icmp_reply_pkt_info := \<lparr>icmp_size = 64, icmp_src_ip = MYIP b, icmp_seq_no = seq_no\<rparr>\<rparr>) sch''"
    using ether_receive_ip_frame [of b1 "MYIP a" g IP_PROTOCOL_ICMP rest' sz' a' sch''] cb b(2) mac(2) lg a1 by simp
  from s1 s2 s3 show ?thesis
    unfolding a'_def using sent_ip_frame [of a IP_PROTOCOL_ICMP r "MYIP b"]
      sent_ip_frame [of b1 IP_PROTOCOL_ICMP g "MYIP a"] cb(5)
    by (intro exI conjI) (assumption | simp)+
qed

definition demo_peer :: net where
  "demo_peer = boot_net\<lparr>MYIP := 0xc0a80203, n_mac := [2, 0, 0, 0, 0, 1],
     arp_cache := \<lparr>ae_ip = 0xc0a80202, ae_mac = [2, 0, 0, 0, 0, 0], valid_until = 120000, ae_status = USED\<rparr>
       # replicate 9 boot_arp_entry\<rparr>"

theorem ping_roundtrip_witness:
  "\<exists>a' request b' reply a''.
    icmp_send_echo_request (MYIP demo_peer) 5 demo_net [] = Ret () a' [] \<and>
    nic_sent (n_nic a') = nic_sent (n_nic demo_net) @ [request] \<and>
    ether_receive (request @ []) 98 demo_peer [] = Ret () b' [] \<and>
    nic_sent (n_nic b') = nic_sent (n_nic demo_peer) @ [reply] \<and>
    ether_receive (reply @ []) 98 a' [] = Ret () a'' [] \<and>
    icmp_echo_reply_received a'' = 1 \<and>
    icmp_reply_pkt_info a'' = \<lparr>icmp_size = 64, icmp_src_ip = MYIP demo_peer, icmp_seq_no = 5\<rparr>"
proof (rule ping_roundtrip)
  show "can_send demo_net (MYIP demo_peer)" using demo_can_send by (simp add: demo_peer_def)
qed (simp_all add: can_send_def net_ok_def nic_ok_def known_def arp_cached_def arp_live_def next_hop_def demo_peer_def demo_defs)

section \<open>Taking a packet from the ring\<close>

definition rx_status_ok :: "nat \<Rightarrow> uint32" where
  "rx_status_ok sz = push_bit 16 (of_nat sz) OR 1"

lemma rx_status_ok_bits:
  assumes "k < 5"
  shows "rx_status_ok sz AND push_bit k 1 = (if k = 0 then 1 else 0)"
proof (rule bit_word_eqI)
  fix j assume "j < LENGTH(32)"
  then show "bit (rx_status_ok sz AND push_bit k 1) j = bit (if k = 0 then 1 else 0 :: uint32) j"
    using assms by (auto simp: rx_status_ok_def bit_simps bit_1_iff)
qed

lemma rx_status_ok_flags:
  "rx_status_ok sz AND 1 = 1" "rx_status_ok sz AND 2 = 0" "rx_status_ok sz AND 4 = 0" "rx_status_ok sz AND 8 = 0"
  "rx_status_ok sz AND 16 = 0"
  using rx_status_ok_bits [of 0 sz] rx_status_ok_bits [of 1 sz] rx_status_ok_bits [of 2 sz]
    rx_status_ok_bits [of 3 sz] rx_status_ok_bits [of 4 sz] by simp_all

lemma rx_status_ok_size: "sz < 65536 \<Longrightarrow> drop_bit 16 (rx_status_ok sz) = of_nat sz"
proof -
  assume "sz < 65536"
  then have sm: "take_bit 16 (of_nat sz :: uint32) = of_nat sz"
    by (simp add: take_bit_of_nat take_bit_nat_eq_self)
  have "drop_bit 16 (rx_status_ok sz) = take_bit 16 (of_nat sz)"
    by (rule bit_word_eqI) (auto simp: rx_status_ok_def bit_simps bit_1_iff)
  then show ?thesis using sm by simp
qed

lemma splice_front_drop:
  "length bs \<le> k \<Longrightarrow> k \<le> length xs \<Longrightarrow> drop k (splice_at 0 bs xs) = drop k xs"
  by (simp add: splice_at_def)

text \<open>C36: A packet with a good status word (no error flag, length from 60 to 1514 bytes) whose bytes lie without a
  break in the array of the ring: \<^verbatim>\<open>ether_receive\<close> gets exactly the bytes behind the status word, with the length of
  the frame without its checksum; the read position moves to the next multiple of 4 behind the packet, and the
  card is told so. If the packet reaches beyond \<^verbatim>\<open>RX_BUF_LEN\<close>, into the 16 spare bytes of the array, the bytes from
  there on are also copied to the start of the ring. When the card reports an empty ring nothing is delivered.
  A packet that does not fit before the end of the array, which the card continues at the start of the ring, is
  not covered: \<open>rtl8139_receive_overrun\<close> shows that the code then reads outside the array.\<close>

theorem rtl8139_receive_frame:
  assumes ring: "rx_ring (n_nic n) = pre @ le32 st @ frame @ post" "length (rx_ring (n_nic n)) = RX_BUF_LEN + 16"
    and pos: "length pre = unat (cur_rx (n_nic n) mod of_nat RX_BUF_LEN)"
    and good: "drop_bit 16 st = of_nat (length frame + 4)"
      "rtl8139_packetOK st (of_nat (length frame + 4)) (of_nat (length frame))"
  shows "\<exists>n'. rtl8139_receive n sch =
      (if nic_dev (n_nic n) Cmd (nic_log (n_nic n)) AND RxBufEmpty \<noteq> 0 then Ret 1 n' sch
       else thn (ether_receive (frame @ post) (int (length frame))) (ret 1) n' sch) \<and>
    nic_sent (n_nic n') = nic_sent (n_nic n) \<and>
    (if nic_dev (n_nic n) Cmd (nic_log (n_nic n)) AND RxBufEmpty \<noteq> 0 then rx_ring (n_nic n') = rx_ring (n_nic n)
     else
       rx_ring (n_nic n') = splice_at 0 (take (length pre + length frame - RX_BUF_LEN) (drop RX_BUF_LEN (rx_ring (n_nic n))))
         (rx_ring (n_nic n)) \<and>
       cur_rx (n_nic n') = (of_nat (length pre) + of_nat (length frame + 4) + 7) AND 0xfffffffc \<and>
       last (nic_log (n_nic n')) = RegWr CurAddrPacket ((cur_rx (n_nic n') - 0x10) AND 0xffff) \<and>
       packets_received_good (n_nic n') = packets_received_good (n_nic n) + 1)"
proof -
  define cur where "cur = cur_rx (n_nic n) mod of_nat RX_BUF_LEN"
  define k where "k = length pre + length frame - RX_BUF_LEN"
  have ce: "cur_rx (n_nic n) mod 8192 = cur" by (simp add: cur_def)
  have u: "unat cur = length pre" using pos by (simp add: cur_def)
  have cu: "cur = of_nat (length pre)" by (simp flip: u)
  have fit: "length pre + 4 + length frame \<le> RX_BUF_LEN + 16" using ring by simp
  have st: "rd32 (rx_ring (n_nic n)) (length pre) = st"
    unfolding ring(1) by (simp add: rd32_def nth_append le32_def)
  have dr: "drop (length pre + 4) (rx_ring (n_nic n)) = frame @ post" unfolding ring(1) by simp
  have lr: "length pre + 4 \<le> length (rx_ring (n_nic n))" using fit ring(2) by simp
  have pl: "of_nat (length frame + 4) - 4 = (of_nat (length frame) :: uint32)" by simp
  have uf: "unat (of_nat (length frame) :: uint32) = length frame" using fit by (intro unat_of_nat_word) simp
  have ui: "uint (of_nat (length frame) :: uint32) = int (length frame)" using uf by (metis uint_nat)
  have us: "unat (cur + (of_nat (length frame) :: uint32)) = length pre + length frame"
    using fit u uf by (simp add: unat_plus_if')
  have cross: "8192 < cur + (of_nat (length frame) :: uint32) \<longleftrightarrow> RX_BUF_LEN < length pre + length frame"
    using us by (simp add: word_less_nat_alt)
  have kk: "unat (cur + of_nat (length frame) - of_nat RX_BUF_LEN :: uint32) = k" if "RX_BUF_LEN < length pre + length frame"
    using us that by (simp add: unat_sub word_le_nat_alt k_def)
  have cp: "length pre < RX_BUF_LEN" using u by (simp add: cur_def unat_mod_distrib flip: u)
  have "length frame \<le> 1514"
    using good(2) uf by (auto simp: rtl8139_packetOK_def Let_def word_less_nat_alt split: if_splits)
  then have k16: "RX_BUF_LEN + k \<le> length (rx_ring (n_nic n))" "k \<le> length pre + 4"
    using fit ring(2) cp unfolding k_def by linarith+
  have keep: "drop (length pre + 4) (splice_at 0 (take k (drop RX_BUF_LEN (rx_ring (n_nic n)))) (rx_ring (n_nic n))) = frame @ post"
    using splice_front_drop [of "take k (drop RX_BUF_LEN (rx_ring (n_nic n)))" "length pre + 4" "rx_ring (n_nic n)"] k16 lr dr by simp
  have no: "splice_at 0 (take k (drop RX_BUF_LEN (rx_ring (n_nic n)))) (rx_ring (n_nic n)) = rx_ring (n_nic n)"
    if "\<not> RX_BUF_LEN < length pre + length frame" using that by (simp add: k_def splice_at_def)
  have ff: "(w AND 0xff) AND RxBufEmpty = w AND RxBufEmpty" for w :: uint32 by (simp add: and.assoc)
  note run = rtl8139_receive_def nic_simps Let_def u st good(1) pl ff rx_advance_def ui uf cross
  show ?thesis
  proof (cases "nic_dev (n_nic n) Cmd (nic_log (n_nic n)) AND RxBufEmpty = 0")
    case False
    then show ?thesis
      using lr by (simp add: run ce)
  next
    case True
    show ?thesis
    proof (cases "RX_BUF_LEN < length pre + length frame")
      case c: True
      then show ?thesis
        using True lr good(2) k16(1) keep kk [OF c] unfolding k_def [symmetric]
        by (simp add: run ce del: of_nat_add)
          (rule exI, rule conjI, rule refl, simp add: cu add.commute)
    next
      case nc: False
      then show ?thesis
        using True lr good(2) no [OF nc] dr unfolding k_def [symmetric]
        by (simp add: run ce del: of_nat_add)
          (rule exI, rule conjI, rule refl, simp add: cu add.commute)
    qed
  qed
qed

text \<open>A packet that reaches beyond the spare bytes: the copy to the start of the ring reads outside the array.\<close>

lemma rtl8139_receive_overrun:
  assumes len: "length (rx_ring (n_nic n)) = RX_BUF_LEN + 16"
    and pos: "pos = unat (cur_rx (n_nic n) mod of_nat RX_BUF_LEN)"
    and size: "drop_bit 16 (rd32 (rx_ring (n_nic n)) pos) = of_nat (L + 4)" "L \<le> 1514"
    and good: "rtl8139_packetOK (rd32 (rx_ring (n_nic n)) pos) (of_nat (L + 4)) (of_nat L)"
    and nonempty: "nic_dev (n_nic n) Cmd (nic_log (n_nic n)) AND RxBufEmpty = 0"
    and over: "RX_BUF_LEN + 16 < pos + L"
  shows "rtl8139_receive n sch = Fail (OutOfBounds ''rx_ring'')"
proof -
  define cur where "cur = cur_rx (n_nic n) mod of_nat RX_BUF_LEN"
  have ce: "cur_rx (n_nic n) mod 8192 = cur" by (simp add: cur_def)
  have u: "unat cur = pos" using pos by (simp add: cur_def)
  have p: "pos < RX_BUF_LEN" unfolding u [symmetric] by (simp add: cur_def unat_mod_distrib)
  have uL: "unat (of_nat L :: uint32) = L" using size(2) by (intro unat_of_nat_word) simp
  have us: "unat (cur + (of_nat L :: uint32)) = pos + L" using p size(2) u uL by (simp add: unat_plus_if')
  have cross: "of_nat RX_BUF_LEN < cur + (of_nat L :: uint32)" using us over by (simp add: word_less_nat_alt)
  have kk: "unat (cur + of_nat L - of_nat RX_BUF_LEN :: uint32) = pos + L - RX_BUF_LEN"
    using us over by (simp add: unat_sub word_le_nat_alt)
  have pl: "of_nat (L + 4) - 4 = (of_nat L :: uint32)" by simp
  have ff: "(w AND 0xff) AND RxBufEmpty = w AND RxBufEmpty" for w :: uint32 by (simp add: and.assoc)
  have "\<not> pos + L - RX_BUF_LEN \<le> 16" using over by simp
  then show ?thesis
    using len p nonempty good cross kk
    by (simp add: rtl8139_receive_def nic_simps Let_def u size(1) pl ff ce del: of_nat_add)
qed

definition demo_rx :: net where
  "demo_rx = boot_net\<lparr>n_nic := idle_nic\<lparr>rx_ring :=
     le32 (rx_status_ok 64) @ replicate 60 0 @ replicate 8144 0\<rparr>\<rparr>"

theorem rtl8139_receive_frame_witness:
  "\<exists>n'. rtl8139_receive demo_rx [] =
      thn (ether_receive (replicate 60 0 @ replicate 8144 0) 60) (ret 1) n' [] \<and> cur_rx (n_nic n') = 68"
proof -
  have ok: "drop_bit 16 (rx_status_ok 64) = 64" "rtl8139_packetOK (rx_status_ok 64) 64 60"
    using rx_status_ok_size [of 64] by (simp_all add: rtl8139_packetOK_def rx_status_ok_flags)
  have "nic_dev (n_nic demo_rx) Cmd (nic_log (n_nic demo_rx)) AND RxBufEmpty = 0"
    by (simp add: demo_rx_def idle_nic_def)
  with rtl8139_receive_frame [of demo_rx "[]" "rx_status_ok 64" "replicate 60 0" "replicate 8144 0" "[]"] ok
  show ?thesis
    by (simp add: demo_rx_def boot_net_def idle_nic_def del: replicate_Suc) (elim exE conjE, intro exI conjI, assumption, simp)
qed

end
