(* ===== verification/Socket.thy ===== *)
theory Socket
  imports NetRx
begin

text \<open>
  \<^verbatim>\<open>src/socket.c\<close>, the table of open files of \<^verbatim>\<open>src/file.c\<close> and the network system calls of
  \<^verbatim>\<open>src/sysnet.c\<close>. A \<^verbatim>\<open>struct file *\<close> is an index of \<open>ftable\<close>, a \<^verbatim>\<open>struct socket *\<close> an index of
  \<open>sockets\<close>. Closing, reading and writing a file that is a pipe or an inode are arguments of
  \<open>fileclose\<close>, \<open>fileread\<close> and \<open>filewrite\<close>: those components have theories of their own. The
  arguments of a system call are given as the words that \<^verbatim>\<open>argint\<close> fetches; a user buffer is the
  list of its bytes.
\<close>

section \<open>The table of open files\<close>

abbreviation acquire_ftable :: "unit nm" where "acquire_ftable \<equiv> lock_acquire ftable_lk ftable_lk_update"
abbreviation release_ftable :: "unit nm" where "release_ftable \<equiv> lock_release ftable_lk ftable_lk_update"
abbreviation acquire_socks :: "unit nm" where "acquire_socks \<equiv> lock_acquire socklock socklock_update"
abbreviation release_socks :: "unit nm" where "release_socks \<equiv> lock_release socklock socklock_update"
abbreviation acquire_ports :: "unit nm" where "acquire_ports \<equiv> lock_acquire portlock portlock_update"
abbreviation release_ports :: "unit nm" where "release_ports \<equiv> lock_release portlock portlock_update"

definition file_upd :: "nat \<Rightarrow> (kfile \<Rightarrow> kfile) \<Rightarrow> unit nm" where
  "file_upd fi g = upd (\<lambda>n. n\<lparr>ftable := (ftable n)[fi := g (ftable n ! fi)]\<rparr>)"

definition filealloc :: "nat option nm" where
  "filealloc =
     thn acquire_ftable
     (bnd (gets (\<lambda>n. find_idx (\<lambda>f. f_ref f = 0) (ftable n))) (\<lambda>r.
      case r of
        Some fi \<Rightarrow> thn (file_upd fi (\<lambda>f. f\<lparr>f_ref := 1\<rparr>)) (thn release_ftable (ret (Some fi)))
      | None \<Rightarrow> thn release_ftable (ret None)))"

definition current :: "int nm" where
  "current = bnd (gets n_myproc) (\<lambda>p. case p of None \<Rightarrow> panic ''trap'' | Some pid \<Rightarrow> ret pid)"

definition fdalloc :: "nat \<Rightarrow> int nm" where
  "fdalloc fi =
     thn current
     (bnd (gets (\<lambda>n. find_idx (\<lambda>f. f = None) (ofile n))) (\<lambda>r.
      case r of
        Some fd \<Rightarrow> thn (upd (\<lambda>n. n\<lparr>ofile := (ofile n)[fd := Some fi]\<rparr>)) (ret (int fd))
      | None \<Rightarrow> ret (-1)))"

definition filedup :: "nat \<Rightarrow> nat nm" where
  "filedup fi =
     thn acquire_ftable
     (bnd (gets (\<lambda>n. f_ref (ftable n ! fi))) (\<lambda>r.
      if r < 1 then panic ''filedup''
      else thn (file_upd fi (\<lambda>f. f\<lparr>f_ref := f_ref f + 1\<rparr>)) (thn release_ftable (ret fi))))"

section \<open>Allocation of sockets\<close>

definition socketinit :: "unit nm" where
  "socketinit = upd (\<lambda>n. n\<lparr>socklock := False\<rparr>)"

definition portinit :: "unit nm" where
  "portinit =
     thn (upd (\<lambda>n. n\<lparr>ports := (\<lambda>i. if i < NPORTS then (ports n i)\<lparr>po_pid := -1\<rparr> else ports n i)\<rparr>))
     (upd (\<lambda>n. n\<lparr>portlock := False\<rparr>))"

definition netinit :: "unit nm" where
  "netinit = seqk [nicinit, arpinit, portinit, socketinit]"

definition socketalloc :: "nat option nm" where
  "socketalloc =
     thn acquire_socks
     (bnd (gets (\<lambda>n. find_idx (\<lambda>s. so_state s = SOCKET_FREE) (sockets n))) (\<lambda>r.
      case r of
        Some si \<Rightarrow> thn (sock_upd si (\<lambda>s. s\<lparr>so_state := SOCKET_UNBOUND\<rparr>)) (thn release_socks (ret (Some si)))
      | None \<Rightarrow> thn release_socks (ret None)))"

definition socketfree :: "nat \<Rightarrow> unit nm" where
  "socketfree si = thn acquire_socks (thn (sock_upd si (\<lambda>s. s\<lparr>so_state := SOCKET_FREE\<rparr>)) release_socks)"

abbreviation net_kalloc :: "uint32 nm" where "net_kalloc \<equiv> zoom n_kmem n_kmem_update kalloc"

definition net_kfree :: "uint32 \<Rightarrow> unit nm" where
  "net_kfree v = bnd (gets n_kend) (\<lambda>kend. zoom n_kmem n_kmem_update (kfree kend v))"

definition port_upd :: "nat \<Rightarrow> (port \<Rightarrow> port) \<Rightarrow> unit nm" where
  "port_upd i g = upd (\<lambda>n. n\<lparr>ports := (ports n)(i := g (ports n i))\<rparr>)"

definition socketclose :: "nat \<Rightarrow> unit nm" where
  "socketclose si =
     bnd (gets (sock si)) (\<lambda>s.
     let i = unat (so_port s) in
     thn (net_kfree (so_buffer s))
     (thn (sock_upd si (\<lambda>_. boot_socket))
     (thn (socketfree si)
     (thn acquire_ports
     (thn (requirek (i < NPORTS) (OutOfBounds ''ports''))
     (thn (bnd (gets (\<lambda>n. ports n i)) (\<lambda>p.
             if active_socket p = Some si then
               thn (port_upd i (\<lambda>p. p\<lparr>active_socket := None\<rparr>))
               (if passive_socket p = None then port_upd i (\<lambda>p. p\<lparr>po_pid := -1\<rparr>) else ret ())
             else if passive_socket p = Some si then
               thn (port_upd i (\<lambda>p. p\<lparr>passive_socket := None\<rparr>)) (port_upd i (\<lambda>p. p\<lparr>po_pid := -1\<rparr>))
             else ret ()))
     release_ports))))))"

definition fileclose :: "(kfile \<Rightarrow> unit nm) \<Rightarrow> (kfile \<Rightarrow> unit nm) \<Rightarrow> nat \<Rightarrow> unit nm" where
  "fileclose close_pipe close_inode fi =
     thn acquire_ftable
     (bnd (gets (\<lambda>n. f_ref (ftable n ! fi))) (\<lambda>r.
      if r < 1 then panic ''fileclose''
      else thn (file_upd fi (\<lambda>f. f\<lparr>f_ref := f_ref f - 1\<rparr>))
        (if r - 1 > 0 then release_ftable
         else bnd (gets (\<lambda>n. ftable n ! fi)) (\<lambda>ff.
           thn (file_upd fi (\<lambda>f. f\<lparr>f_ref := 0\<rparr>))
           (thn (file_upd fi (\<lambda>f. f\<lparr>f_type := FD_NONE\<rparr>))
           (thn release_ftable
           (thn (if f_type ff = FD_PIPE then close_pipe ff else ret ())
           (if f_type ff = FD_SOCKET then
              (case f_socket ff of Some si \<Rightarrow> socketclose si | None \<Rightarrow> oob ''null socket'')
            else if f_type ff = FD_INODE then close_inode ff
            else ret ()))))))))"

text \<open>\<^verbatim>\<open>socket()\<close>. A file that \<open>filealloc\<close> hands out and that gets no descriptor is closed again.\<close>

definition socket_open :: "(kfile \<Rightarrow> unit nm) \<Rightarrow> (kfile \<Rightarrow> unit nm) \<Rightarrow> int \<Rightarrow> int nm" where
  "socket_open close_pipe close_inode type =
     bnd socketalloc (\<lambda>r.
     case r of
       None \<Rightarrow> ret (-1)
     | Some si \<Rightarrow>
         bnd filealloc (\<lambda>f.
         case f of
           None \<Rightarrow> thn (socketfree si) (ret (-1))
         | Some fi \<Rightarrow>
             bnd (fdalloc fi) (\<lambda>fd.
             if fd < 0 then thn (fileclose close_pipe close_inode fi) (thn (socketfree si) (ret (-1)))
             else
               thn (sock_upd si (\<lambda>s. s\<lparr>so_type := type\<rparr>))
               (bnd net_kalloc (\<lambda>b.
               thn (sock_upd si (\<lambda>s. s\<lparr>so_buffer := b\<rparr>))
               (thn (file_upd fi (\<lambda>f. f\<lparr>f_type := FD_SOCKET, f_off := 0, f_readable := True, f_writable := True,
                       f_socket := Some si\<rparr>))
               (ret fd)))))))"

section \<open>Operations on a socket descriptor\<close>

text \<open>The checks at the start of \<^verbatim>\<open>bind\<close>, \<^verbatim>\<open>listen\<close>, \<^verbatim>\<open>connect\<close> and \<^verbatim>\<open>accept\<close>.\<close>

definition sockfd_lookup :: "int \<Rightarrow> nat option nm" where
  "sockfd_lookup sockfd =
     (if sockfd < 0 \<or> int NOFILE \<le> sockfd then ret None
      else thn current
       (bnd (gets (\<lambda>n. ofile n ! nat sockfd)) (\<lambda>f.
        case f of
          None \<Rightarrow> ret None
        | Some fi \<Rightarrow>
            bnd (gets (\<lambda>n. ftable n ! fi)) (\<lambda>f.
            if f_type f \<noteq> FD_SOCKET then ret None else ret (f_socket f)))))"

definition bind :: "int \<Rightarrow> uint32 \<Rightarrow> ushort \<Rightarrow> int nm" where
  "bind sockfd addr port =
     bnd (gets MYIP) (\<lambda>myip.
     if NPORTS < unat port then ret (-1)
     else if addr \<noteq> myip then ret (-1)
     else bnd (sockfd_lookup sockfd) (\<lambda>r.
       case r of
         None \<Rightarrow> ret (-1)
       | Some si \<Rightarrow>
           bnd (gets (sock si)) (\<lambda>s.
           if so_state s \<noteq> SOCKET_UNBOUND then ret (-1)
           else thn (requirek (unat port < NPORTS) (OutOfBounds ''ports''))
             (bnd (gets (\<lambda>n. ports n (unat port))) (\<lambda>p.
              if po_pid p \<noteq> -1 then ret (-1)
              else thn acquire_ports
                (bnd current (\<lambda>pid.
                 thn (port_upd (unat port) (\<lambda>p. p\<lparr>po_pid := pid\<rparr>))
                 (thn (port_upd (unat port) (\<lambda>p. p\<lparr>passive_socket := Some si\<rparr>))
                 (thn release_ports
                 (thn (sock_upd si (\<lambda>s. s\<lparr>so_addr := addr, so_port := port, so_state := SOCKET_BOUND\<rparr>))
                 (ret 0)))))))))))"

definition listen :: "int \<Rightarrow> int nm" where
  "listen sockfd =
     bnd (sockfd_lookup sockfd) (\<lambda>r.
     case r of
       None \<Rightarrow> ret (-1)
     | Some si \<Rightarrow>
         bnd (gets (sock si)) (\<lambda>s.
         if so_state s \<noteq> SOCKET_BOUND then ret (-1)
         else thn (sock_upd si (\<lambda>s. s\<lparr>waitqueue := initqueue (waitqueue s)\<rparr>))
           (thn (tcon_upd si (\<lambda>c. c\<lparr>tc_state := TCP_LISTEN\<rparr>)) (ret 0))))"

abbreviation port_chan :: "ushort \<Rightarrow> chan" where "port_chan p \<equiv> Chan ''ports'' (unat p)"

text \<open>The ephemeral port that \<^verbatim>\<open>connect\<close> takes.\<close>

definition free_port :: "net \<Rightarrow> nat option" where
  "free_port n = find (\<lambda>i. po_pid (ports n i) = -1) [1024..<NPORTS]"

text \<open>The TCP header at the start of the socket's buffer.\<close>

definition buffer_hdr :: "nat \<Rightarrow> tcp_hdr nm" where
  "buffer_hdr si = bnd (gets id) (\<lambda>n.
     if so_buffer (sock si n) = 0 then oob ''null buffer''
     else ret (tcp_of_bytes (mload (so_buffer (sock si n)) 20 (mem (n_kmem n)))))"

text \<open>What \<^verbatim>\<open>connect\<close> does when the reply is there.\<close>

definition connect_finish :: "nat \<Rightarrow> int nm" where
  "connect_finish si =
     bnd (buffer_hdr si) (\<lambda>h.
     thn (tcon_upd si (\<lambda>c. c\<lparr>ack_received := htonl (ack_num h), seq_received := htonl (seq_num h),
           base_seq := htonl (ack_num h), next_seq := htonl (ack_num h)\<rparr>))
     (thn (tcp_send_ack si (htonl (seq_num h) + 1))
     (thn (tcon_upd si (\<lambda>c. c\<lparr>window := initqueue (window c)\<rparr>))
     (thn (tcon_upd si (\<lambda>c. c\<lparr>tc_state := TCP_ESTABLISHED\<rparr>))
     (ret 0)))))"

definition connect :: "int \<Rightarrow> uint32 \<Rightarrow> ushort \<Rightarrow> int nm" where
  "connect sockfd daddr dport =
     bnd (sockfd_lookup sockfd) (\<lambda>r.
     case r of
       None \<Rightarrow> ret (-1)
     | Some si \<Rightarrow>
         thn acquire_ports
         (bnd (gets free_port) (\<lambda>p.
          case p of
            None \<Rightarrow> thn release_ports (ret (-1))
          | Some i \<Rightarrow>
              bnd current (\<lambda>pid.
              thn (port_upd i (\<lambda>p. p\<lparr>po_pid := pid, active_socket := Some si\<rparr>))
              (bnd (gets MYIP) (\<lambda>myip.
              thn (sock_upd si (\<lambda>s. s\<lparr>so_addr := myip, so_port := of_nat i, so_state := SOCKET_BOUND\<rparr>))
              (thn release_ports
              (thn (tcon_upd si (\<lambda>c. c\<lparr>dst_addr := daddr, dst_port := dport\<rparr>))
              (thn (tcp_send_syn si)
              (thn (tcon_upd si (\<lambda>c. c\<lparr>tc_state := TCP_SYN_SENT\<rparr>))
              (bnd (gets (sock si)) (\<lambda>s.
              thn (sleepnolock (port_chan (so_port s))) (connect_finish si)))))))))))))"

text \<open>The pending request at the head of the queue; \<open>dequeue\<close> gives -1 when there is none.\<close>

definition take_request :: "nat \<Rightarrow> tcp_request nm" where
  "take_request si =
     bnd (gets (\<lambda>n. dequeue (waitqueue (sock si n)))) (\<lambda>(v, q).
     thn (sock_upd si (\<lambda>s. s\<lparr>waitqueue := q\<rparr>))
     (bnd (gets requests) (\<lambda>rs.
      if 0 < v \<and> v \<le> int (length rs) then ret (rs ! nat (v - 1)) else oob ''request'')))"

definition accept :: "(kfile \<Rightarrow> unit nm) \<Rightarrow> (kfile \<Rightarrow> unit nm) \<Rightarrow> int \<Rightarrow> int nm" where
  "accept close_pipe close_inode sockfd =
     bnd (sockfd_lookup sockfd) (\<lambda>r.
     case r of
       None \<Rightarrow> ret (-1)
     | Some si \<Rightarrow>
         bnd (gets id) (\<lambda>n.
         let s = sock si n in
         if tc_state (tcon s) \<noteq> TCP_LISTEN then ret (-1)
         else thn (requirek (unat (so_port s) < NPORTS) (OutOfBounds ''ports''))
         (if active_socket (ports n (unat (so_port s))) \<noteq> None then ret (-1)
          else
            thn (if isqueueempty (waitqueue s) then
                   thn (sock_upd si (\<lambda>s. s\<lparr>so_state := SOCKET_WAIT\<rparr>)) (sleepnolock (port_chan (so_port s)))
                 else ret ())
            (thn (sock_upd si (\<lambda>s. s\<lparr>so_state := SOCKET_BOUND\<rparr>))
            (bnd (take_request si) (\<lambda>request.
            (let h = tcp_of_bytes (request_packet request) in
            thn (tcon_upd si (\<lambda>c. c\<lparr>dst_addr := client_ip request, dst_port := htons (th_src_port h),
                   seq_received := htonl (seq_num h)\<rparr>))
            (thn (tcp_send_synack si)
            (thn (tcon_upd si (\<lambda>c. c\<lparr>tc_state := TCP_SYNACK_SENT\<rparr>))
            (bnd (gets (sock si)) (\<lambda>s.
            thn (sleepnolock (port_chan (so_port s)))
            (thn (tcon_upd si (\<lambda>c. c\<lparr>tc_state := TCP_LISTEN\<rparr>))
            (bnd (socket_open close_pipe close_inode 0) (\<lambda>newfd.
            thn (requirek (0 \<le> newfd) (OutOfBounds ''ofile''))
            (bnd (sockfd_lookup newfd) (\<lambda>ns.
            case ns of
              None \<Rightarrow> oob ''null socket''
            | Some ni \<Rightarrow>
                bnd (gets (sock si)) (\<lambda>s.
                thn (port_upd (unat (so_port s)) (\<lambda>p. p\<lparr>active_socket := Some ni\<rparr>))
                (thn (sock_upd ni (\<lambda>ns. ns\<lparr>so_addr := so_addr s, so_port := so_port s, so_state := SOCKET_CONNECTED\<rparr>))
                (thn (tcon_upd ni (\<lambda>c. c\<lparr>dst_addr := dst_addr (tcon s), dst_port := dst_port (tcon s),
                       ack_received := ack_received (tcon s), seq_received := seq_received (tcon s),
                       base_seq := ack_received (tcon s), next_seq := ack_received (tcon s),
                       ack_sent := ack_sent (tcon s)\<rparr>))
                (thn (tcon_upd ni (\<lambda>c. c\<lparr>window := initqueue (window c)\<rparr>))
                (thn (tcon_upd ni (\<lambda>c. c\<lparr>tc_state := TCP_ESTABLISHED\<rparr>))
                (ret newfd))))))))))))))))))))))"

definition socketwrite :: "nat \<Rightarrow> nat \<Rightarrow> bytes \<Rightarrow> int nm" where
  "socketwrite gas si payload =
     bnd (gets (sock si)) (\<lambda>s.
     if tc_state (tcon s) \<noteq> TCP_ESTABLISHED then ret (-1)
     else thn (tcp_tx gas si payload) (ret (int (length payload))))"

text \<open>The result is the return value and the bytes stored in the caller's buffer.\<close>

definition socketread :: "nat \<Rightarrow> int \<Rightarrow> (int \<times> bytes) nm" where
  "socketread si sz =
     bnd (gets (sock si)) (\<lambda>s.
     if tc_state (tcon s) \<noteq> TCP_ESTABLISHED then ret (-1, [])
     else
       thn (if so_offset s = so_end s then
              thn (sock_upd si (\<lambda>s. s\<lparr>so_state := SOCKET_WAIT\<rparr>))
              (thn (sleepnolock (port_chan (so_port s)))
              (sock_upd si (\<lambda>s. s\<lparr>so_state := SOCKET_CONNECTED\<rparr>)))
            else ret ())
       (bnd (gets id) (\<lambda>n.
        let s = sock si n; maxbytes = so_end s - so_offset s; k = (if maxbytes \<ge> sz then sz else maxbytes) in
        thn (requirek (k = 0 \<or> so_buffer s \<noteq> 0 \<and> 0 < k \<and> 0 \<le> so_offset s \<and> so_offset s + k \<le> 4096)
               (OutOfBounds ''socket buffer''))
        (thn (sock_upd si (\<lambda>s. s\<lparr>so_offset := so_offset s + k\<rparr>))
        (ret (k, mload (so_buffer s + of_int (so_offset s)) (nat k) (mem (n_kmem n))))))))"

definition fileread :: "(kfile \<Rightarrow> int \<Rightarrow> (int \<times> bytes) nm) \<Rightarrow> (kfile \<Rightarrow> int \<Rightarrow> (int \<times> bytes) nm) \<Rightarrow> nat \<Rightarrow> int \<Rightarrow> (int \<times> bytes) nm" where
  "fileread read_pipe read_inode fi k =
     bnd (gets (\<lambda>n. ftable n ! fi)) (\<lambda>f.
     if \<not> f_readable f then ret (-1, [])
     else case f_type f of
         FD_PIPE \<Rightarrow> read_pipe f k
       | FD_SOCKET \<Rightarrow> (case f_socket f of Some si \<Rightarrow> socketread si k | None \<Rightarrow> oob ''null socket'')
       | FD_INODE \<Rightarrow> read_inode f k
       | FD_NONE \<Rightarrow> panic ''fileread'')"

definition filewrite :: "(kfile \<Rightarrow> bytes \<Rightarrow> int nm) \<Rightarrow> (kfile \<Rightarrow> bytes \<Rightarrow> int nm) \<Rightarrow> nat \<Rightarrow> nat \<Rightarrow> bytes \<Rightarrow> int nm" where
  "filewrite write_pipe write_inode gas fi payload =
     bnd (gets (\<lambda>n. ftable n ! fi)) (\<lambda>f.
     if \<not> f_writable f then ret (-1)
     else case f_type f of
         FD_PIPE \<Rightarrow> write_pipe f payload
       | FD_SOCKET \<Rightarrow> (case f_socket f of Some si \<Rightarrow> socketwrite gas si payload | None \<Rightarrow> oob ''null socket'')
       | FD_INODE \<Rightarrow> write_inode f payload
       | FD_NONE \<Rightarrow> panic ''filewrite'')"

section \<open>System calls\<close>

text \<open>\<open>None\<close> is an argument that \<^verbatim>\<open>argint\<close> cannot fetch.\<close>

type_synonym arg = "uint32 option"

definition sys_ifset :: "arg \<Rightarrow> arg \<Rightarrow> arg \<Rightarrow> int nm" where
  "sys_ifset a0 a1 a2 =
     (case (a0, a1, a2) of
        (Some ip, Some netmask, Some gateway) \<Rightarrow>
          thn (upd (\<lambda>n. n\<lparr>MYIP := ip\<rparr>))
          (thn (upd (\<lambda>n. n\<lparr>NETMASK := netmask\<rparr>))
          (thn (upd (\<lambda>n. n\<lparr>GATEWAY := gateway\<rparr>))
          (thn (bnd (gets GATEWAY) arp_resolve) (ret 0))))
      | _ \<Rightarrow> ret (-1))"

definition print_dotted :: "string \<Rightarrow> (net \<Rightarrow> uint32) \<Rightarrow> unit nm" where
  "print_dotted label get =
     bnd (gets get) (\<lambda>a.
     case cprintf (str (label @ ''%d.%d.%d.%d'')) [AInt (octet 3 a), AInt (octet 2 a), AInt (octet 1 a), AInt (octet 0 a)] of
       Some out \<Rightarrow> print_line out | None \<Rightarrow> oob ''cprintf'')"

definition sys_ifconfig :: "int nm" where
  "sys_ifconfig =
     thn (print_dotted ''IP: '' MYIP)
     (thn (print_dotted ''Netmask: '' NETMASK)
     (thn (print_dotted ''Gateway: '' GATEWAY)
     (ret 0)))"

definition sys_socket :: "(kfile \<Rightarrow> unit nm) \<Rightarrow> (kfile \<Rightarrow> unit nm) \<Rightarrow> arg \<Rightarrow> int nm" where
  "sys_socket close_pipe close_inode a0 =
     (case a0 of Some t \<Rightarrow> socket_open close_pipe close_inode (sint t) | None \<Rightarrow> ret (-1))"

definition sys_bind :: "arg \<Rightarrow> arg \<Rightarrow> arg \<Rightarrow> int nm" where
  "sys_bind a0 a1 a2 =
     (case (a0, a1, a2) of
        (Some sockfd, Some addr, Some port) \<Rightarrow> bind (sint sockfd) addr (ucast port)
      | _ \<Rightarrow> ret (-1))"

definition sys_listen :: "arg \<Rightarrow> int nm" where
  "sys_listen a0 = (case a0 of Some fd \<Rightarrow> listen (sint fd) | None \<Rightarrow> ret (-1))"

definition sys_connect :: "arg \<Rightarrow> arg \<Rightarrow> arg \<Rightarrow> int nm" where
  "sys_connect a0 a1 a2 =
     (case (a0, a1, a2) of
        (Some sockfd, Some daddr, Some dport) \<Rightarrow> connect (sint sockfd) daddr (ucast dport)
      | _ \<Rightarrow> ret (-1))"

definition sys_accept :: "(kfile \<Rightarrow> unit nm) \<Rightarrow> (kfile \<Rightarrow> unit nm) \<Rightarrow> arg \<Rightarrow> int nm" where
  "sys_accept close_pipe close_inode a0 =
     (case a0 of Some fd \<Rightarrow> accept close_pipe close_inode (sint fd) | None \<Rightarrow> ret (-1))"

definition sys_test :: "arg \<Rightarrow> int nm" where
  "sys_test a0 = (case a0 of Some dst \<Rightarrow> ret 0 | None \<Rightarrow> ret (-1))"

definition sys_get_icmp_echo_reply_status :: "int nm" where
  "sys_get_icmp_echo_reply_status =
     bnd (gets icmp_echo_reply_received) (\<lambda>status.
     thn (upd (\<lambda>n. n\<lparr>icmp_echo_reply_received := 0\<rparr>)) (ret status))"

definition sys_get_icmp_echo_reply_packet :: "int nm" where
  "sys_get_icmp_echo_reply_packet =
     bnd (gets icmp_reply_pkt_info) (\<lambda>p.
     let srcip = htonl (icmp_src_ip p) in
     case cprintf (str ''%d bytes from %d.%d.%d.%d: icmp_seq=%d '')
        [AInt (of_int (icmp_size p)), AInt (octet 0 srcip), AInt (octet 1 srcip), AInt (octet 2 srcip), AInt (octet 3 srcip),
         AInt (ucast (icmp_seq_no p))] of
       Some out \<Rightarrow> thn (print_line out) (ret 0) | None \<Rightarrow> oob ''cprintf'')"

definition sys_icmp_send_echo_request :: "arg \<Rightarrow> arg \<Rightarrow> int nm" where
  "sys_icmp_send_echo_request a0 a1 =
     (case a0 of
        None \<Rightarrow> ret (-1)
      | Some dst \<Rightarrow>
          (case a1 of
             None \<Rightarrow> ret (-1)
           | Some seq_no \<Rightarrow> thn (icmp_send_echo_request dst (ucast seq_no)) (ret 0)))"

section \<open>Ports\<close>

definition fd_sock :: "net \<Rightarrow> int \<Rightarrow> nat option" where
  "fd_sock n fd = (if fd < 0 \<or> int NOFILE \<le> fd then None
     else case ofile n ! nat fd of
       None \<Rightarrow> None
     | Some fi \<Rightarrow> if f_type (ftable n ! fi) \<noteq> FD_SOCKET then None else f_socket (ftable n ! fi))"

lemma current_run: "n_myproc n = Some pid \<Longrightarrow> current n sch = Ret pid n sch"
  by (simp add: current_def)

lemma sockfd_lookup_run:
  "n_myproc n = Some pid \<Longrightarrow> sockfd_lookup fd n sch = Ret (fd_sock n fd) n sch"
  by (auto simp: sockfd_lookup_def fd_sock_def current_run split: option.split)

lemma sockfd_lookup_Ret:
  "sockfd_lookup fd n sch = Ret r n' sch' \<Longrightarrow> n' = n \<and> sch' = sch \<and> r = fd_sock n fd"
  by (cases "n_myproc n")
    (auto simp: sockfd_lookup_run, auto simp: sockfd_lookup_def current_def fd_sock_def split: if_splits)

text \<open>What \<^verbatim>\<open>bind\<close> does, when there is a current process.\<close>

lemma bind_run:
  assumes "n_myproc n = Some pid"
  shows "bind fd addr port n sch =
    (if NPORTS < unat port \<or> addr \<noteq> MYIP n then Ret (-1) n sch
     else case fd_sock n fd of
       None \<Rightarrow> Ret (-1) n sch
     | Some si \<Rightarrow>
         if so_state (sock si n) \<noteq> SOCKET_UNBOUND then Ret (-1) n sch
         else if unat port = NPORTS then Fail (OutOfBounds ''ports'')
         else if po_pid (ports n (unat port)) \<noteq> -1 then Ret (-1) n sch
         else if portlock n then Fail (Panic ''acquire'')
         else Ret 0 (n\<lparr>ports := (ports n)(unat port := (ports n (unat port))\<lparr>po_pid := pid, passive_socket := Some si\<rparr>),
           portlock := False,
           sockets := (sockets n)[si := (sock si n)\<lparr>so_addr := addr, so_port := port, so_state := SOCKET_BOUND\<rparr>]\<rparr>) sch)"
  using assms
  by (auto simp: bind_def sockfd_lookup_run [OF assms] current_run port_upd_def sock_upd_def sock_def split: option.split)

text \<open>C31: A port belongs to one process: after a successful \<^verbatim>\<open>bind\<close>, every further \<^verbatim>\<open>bind\<close> of that port, by
  any process, on any descriptor and for any address, returns -1 and changes nothing. The port
  records the binding process and the socket, and the other ports are as before.\<close>

theorem bind_exclusive:
  assumes "bind fd addr port n sch = Ret 0 n' sch'" "n_myproc n = Some pid" "pid \<noteq> -1" "n_myproc m \<noteq> None"
    "ports m = ports n'"
  shows "bind fd' addr' port m sch'' = Ret (-1) m sch'' \<and>
    po_pid (ports n' (unat port)) = pid \<and> passive_socket (ports n' (unat port)) = fd_sock n fd \<and>
    (\<forall>q. q \<noteq> unat port \<longrightarrow> ports n' q = ports n q)"
proof -
  obtain pm where pm: "n_myproc m = Some pm" using assms(4) by blast
  have "unat port < NPORTS \<and> po_pid (ports n' (unat port)) = pid \<and> passive_socket (ports n' (unat port)) = fd_sock n fd \<and>
    (\<forall>q. q \<noteq> unat port \<longrightarrow> ports n' q = ports n q)"
    using assms(1) unfolding bind_run [OF assms(2)] by (auto split: if_splits option.splits)
  with assms(3,5) show ?thesis unfolding bind_run [OF pm] by (auto split: option.split)
qed

text \<open>C34: The check of the port number in \<^verbatim>\<open>bind\<close> lets the number \<^verbatim>\<open>NPORTS\<close> pass: for an unbound socket and
  the host's own address it reads beyond the end of \<^verbatim>\<open>ports\<close>.\<close>

theorem bind_last_port_out_of_bounds:
  assumes "n_myproc n = Some pid" "fd_sock n fd = Some si" "so_state (sock si n) = SOCKET_UNBOUND"
  shows "bind fd (MYIP n) (of_nat NPORTS) n sch = Fail (OutOfBounds ''ports'')"
  using assms by (simp add: bind_run)

text \<open>A host with an unbound socket behind descriptor 0, for the examples.\<close>

definition demo_unbound :: net where
  "demo_unbound = boot_net\<lparr>n_myproc := Some 4,
     sockets := boot_socket\<lparr>so_state := SOCKET_UNBOUND, so_buffer := 0x80200000\<rparr> # replicate 19 boot_socket,
     ports := (\<lambda>_. boot_port\<lparr>po_pid := -1\<rparr>),
     ftable := boot_file\<lparr>f_type := FD_SOCKET, f_ref := 1, f_readable := True, f_writable := True, f_socket := Some 0\<rparr>
       # replicate 99 boot_file,
     ofile := Some 0 # replicate 15 None,
     arp_cache := arp_cache demo_net\<rparr>"

lemma demo_unbound_facts:
  "n_myproc demo_unbound = Some 4" "fd_sock demo_unbound 0 = Some 0" "so_state (sock 0 demo_unbound) = SOCKET_UNBOUND"
  "MYIP demo_unbound = 0xc0a80202" "\<not> portlock demo_unbound" "po_pid (ports demo_unbound i) = -1"
  by (simp_all add: demo_unbound_def fd_sock_def sock_def boot_defs)

theorem bind_exclusive_witness:
  "\<exists>n'. bind 0 0xc0a80202 80 demo_unbound [] = Ret 0 n' [] \<and>
     bind 0 0xc0a80202 80 n' [] = Ret (-1) n' [] \<and> po_pid (ports n' 80) = 4 \<and> ports n' 81 = ports demo_unbound 81"
proof -
  obtain n' where n': "bind 0 0xc0a80202 80 demo_unbound [] = Ret 0 n' []" "n_myproc n' = Some 4"
    using demo_unbound_facts by (auto simp: bind_run)
  from bind_exclusive [OF n'(1) demo_unbound_facts(1) _ _ refl, of 0 "0xc0a80202" "[]"] n' show ?thesis by auto
qed

theorem bind_last_port_out_of_bounds_witness:
  "bind 0 (MYIP demo_unbound) (of_nat NPORTS) demo_unbound [] = Fail (OutOfBounds ''ports'')"
  by (rule bind_last_port_out_of_bounds [OF demo_unbound_facts(1,2,3)])

section \<open>Connection requests\<close>

lemma segment_facts:
  assumes len: "length packet = TCP_PACKET_SIZE" "length data \<le> MSS" "20 \<le> unat hs" "unat hs + length data \<le> TCP_PACKET_SIZE"
    and seg: "seg = tcp_segment packet peer (MYIP n) sp dp sq ak fl hs data"
  obtains h where "tcp_of_bytes (seg @ rest) = h" "th_src_port h = htons sp" "th_dst_port h = htons dp"
    "seq_num h = htonl sq" "ack_num h = htonl ak" "th_flags h = fl" "length seg = unat hs + length data"
    "checksum (take (nat (int (length seg))) (seg @ rest)) (pseudo_ip_sum (MYIP n) peer (of_int (int (length seg)))) = 0"
proof -
  obtain ck where h: "tcp_of_bytes (seg @ rest) = \<lparr>th_src_port = htons sp, th_dst_port = htons dp,
      seq_num = htonl sq, ack_num = htonl ak, th_offset = push_bit 4 (drop_bit 2 hs), th_flags = fl,
      window_size = htons (of_nat WINDOW_SIZE), th_checksum = ck, urgent_ptr = 0\<rparr>"
    using tcp_of_tcp_segment [OF len(1-3)] unfolding seg by blast
  have l: "length seg = unat hs + length data" unfolding seg using len by (simp add: length_tcp_segment)
  have "checksum seg (pseudo_ip_sum (MYIP n) peer (of_nat (unat hs + length data))) = 0"
    unfolding seg using len by (intro tcp_segment_checksum) simp_all
  then have "checksum (take (nat (int (length seg))) (seg @ rest)) (pseudo_ip_sum (MYIP n) peer (of_int (int (length seg)))) = 0"
    unfolding l [symmetric] by simp
  with h l show ?thesis by (intro that [OF h]) simp_all
qed

definition listening :: "net \<Rightarrow> nat \<Rightarrow> ushort \<Rightarrow> bool" where
  "listening n si port \<longleftrightarrow> unat port < NPORTS \<and> po_pid (ports n (unat port)) \<noteq> -1 \<and>
     passive_socket (ports n (unat port)) = Some si \<and> tc_state (tcon (sock si n)) = TCP_LISTEN \<and>
     qinv (waitqueue (sock si n)) \<and> \<not> isqueuefull (waitqueue (sock si n))"

text \<open>C33: The search for an entry in the table of pending requests is inverted. In a system where no
  request has been recorded (every \<^verbatim>\<open>client_ip\<close> is 0, as it is from boot on), a well-formed
  connection request to a listening socket makes \<^verbatim>\<open>tcp_receive\<close> write beyond the end of
  \<^verbatim>\<open>requests\<close>.\<close>

theorem syn_overflows_requests:
  assumes lis: "listening n si dp" and none: "\<forall>r\<in>set (requests n). client_ip r = 0"
    and len: "length packet = TCP_PACKET_SIZE" "length data \<le> MSS" "20 \<le> unat hs" "unat hs + length data \<le> TCP_PACKET_SIZE"
    and syn: "fl AND TCP_FLAG_SYN \<noteq> 0"
    and seg: "seg = tcp_segment packet peer (MYIP n) sp dp sq ak fl hs data"
  shows "tcp_receive (seg @ rest) (int (length seg)) peer n sch = Fail (OutOfBounds ''requests'')"
proof -
  from segment_facts [OF len seg, of rest] obtain h where h: "tcp_of_bytes (seg @ rest) = h"
    "th_dst_port h = htons dp" "th_flags h = fl" "length seg = unat hs + length data"
    "checksum (take (nat (int (length seg))) (seg @ rest)) (pseudo_ip_sum (MYIP n) peer (of_int (int (length seg)))) = 0"
    by metis
  have l: "20 \<le> length seg" using h(4) len(3) by simp
  have full: "find_idx (\<lambda>r. client_ip r \<noteq> 0) (requests n) = None"
    using none by (simp add: find_idx_None_iff)
  have q: "qsize (waitqueue (sock si n)) \<noteq> 0" using lis by (auto simp: listening_def qinv_def QUEUE_SIZE_def)
  show ?thesis
    unfolding tcp_receive_def Let_def h(1,2,3) htons_htons
    using lis syn h(5) l q full
    by (simp add: listening_def queue_full_def tcp_receive_syn_def)
qed

definition demo_listen :: net where
  "demo_listen = demo_unbound\<lparr>
     sockets := (sock 0 demo_unbound)\<lparr>so_port := 80, so_state := SOCKET_BOUND, waitqueue := initqueue boot_queue,
       tcon := boot_tcon\<lparr>tc_state := TCP_LISTEN\<rparr>\<rparr> # replicate 19 boot_socket,
     ports := (\<lambda>_. boot_port\<lparr>po_pid := -1\<rparr>)(80 := \<lparr>po_pid = 4, active_socket = None, passive_socket = Some 0\<rparr>)\<rparr>"

theorem syn_overflows_requests_witness:
  "tcp_receive (tcp_segment (replicate TCP_PACKET_SIZE 0) 0xc0a80203 (MYIP demo_listen) 5000 80 0 0 TCP_FLAG_SYN 24 mss_option @ [])
     (int (length (tcp_segment (replicate TCP_PACKET_SIZE 0) 0xc0a80203 (MYIP demo_listen) 5000 80 0 0 TCP_FLAG_SYN 24 mss_option)))
     0xc0a80203 demo_listen [] = Fail (OutOfBounds ''requests'')"
proof (rule syn_overflows_requests [OF _ _ _ _ _ _ _ refl])
  have q: "qinv (initqueue boot_queue)" "\<not> isqueuefull (initqueue boot_queue)"
    by (simp_all add: boot_queue_def initqueue_def qinv_def isqueuefull_def QUEUE_SIZE_def)
  then show "listening demo_listen 0 80"
    by (simp add: listening_def demo_listen_def demo_unbound_def sock_def)
qed (simp_all add: demo_listen_def demo_unbound_def boot_net_def mss_option_def)

section \<open>Reading the stream\<close>

text \<open>The bytes that have been received and not yet read.\<close>

definition unread :: "nat \<Rightarrow> net \<Rightarrow> bytes" where
  "unread si n = (let s = sock si n in
     mload (so_buffer s + of_int (so_offset s)) (nat (so_end s - so_offset s)) (mem (n_kmem n)))"

definition buffer_ok :: "nat \<Rightarrow> net \<Rightarrow> bool" where
  "buffer_ok si n \<longleftrightarrow> si < length (sockets n) \<and> tc_state (tcon (sock si n)) = TCP_ESTABLISHED \<and>
     so_buffer (sock si n) \<noteq> 0 \<and> 0 \<le> so_offset (sock si n) \<and> so_offset (sock si n) \<le> so_end (sock si n) \<and>
     so_end (sock si n) \<le> 4096"

lemma mload_split: "k \<le> m \<Longrightarrow> mload a m M = mload a k M @ mload (a + of_nat k) (m - k) M"
  using mload_plus [of a k "m - k" M] by simp

lemma length_unread: "length (unread si n) = nat (so_end (sock si n) - so_offset (sock si n))"
  by (simp add: unread_def Let_def)

lemma socketread_run:
  assumes ok: "buffer_ok si n" and some: "so_offset (sock si n) < so_end (sock si n)" and sz: "0 \<le> sz"
  shows "\<exists>n'. socketread si sz n sch = Ret (int (length (take (nat sz) (unread si n))), take (nat sz) (unread si n)) n' sch \<and>
    unread si n' = drop (nat sz) (unread si n) \<and> buffer_ok si n'"
proof -
  define s where "s = sock si n"
  define k where "k = min sz (so_end s - so_offset s)"
  have k: "0 \<le> k" "k \<le> so_end s - so_offset s" "(if so_end s - so_offset s \<ge> sz then sz else so_end s - so_offset s) = k"
    using sz some by (auto simp: k_def s_def)
  let ?a = "so_buffer s + of_int (so_offset s)" and ?M = "mem (n_kmem n)"
  let ?n = "n\<lparr>sockets := (sockets n)[si := s\<lparr>so_offset := so_offset s + k\<rparr>]\<rparr>"
  have u: "unread si n = mload ?a (nat k) ?M @ mload (?a + of_int k) (nat (so_end s - so_offset s - k)) ?M"
    using mload_split [of "nat k" "nat (so_end s - so_offset s)" ?a ?M] k(1,2)
    by (simp add: unread_def Let_def s_def [symmetric] nat_diff_distrib)
  have tk: "take (nat sz) (unread si n) = mload ?a (nat k) ?M"
    "drop (nat sz) (unread si n) = mload (?a + of_int k) (nat (so_end s - so_offset s - k)) ?M"
  proof -
    define A where "A = mload ?a (nat k) ?M"
    define B where "B = mload (?a + of_int k) (nat (so_end s - so_offset s - k)) ?M"
    have "length A = nat sz \<or> length A \<le> nat sz \<and> B = []"
      by (cases "sz \<le> so_end s - so_offset s") (simp_all add: A_def B_def k_def mload_def nat_mono)
    then have "take (nat sz) (A @ B) = A" "drop (nat sz) (A @ B) = B" by auto
    then show "take (nat sz) (unread si n) = mload ?a (nat k) ?M"
      "drop (nat sz) (unread si n) = mload (?a + of_int k) (nat (so_end s - so_offset s - k)) ?M"
      unfolding u A_def B_def by simp_all
  qed
  have run: "socketread si sz n sch = Ret (k, mload ?a (nat k) ?M) ?n sch"
    using ok some sz
    by (cases "sz \<le> so_end s - so_offset s"; cases "sz = 0")
      (auto simp: socketread_def buffer_ok_def s_def [symmetric] sock_upd_def Let_def sock_def [symmetric] k_def)
  have n': "sock si ?n = s\<lparr>so_offset := so_offset s + k\<rparr>" using ok by (simp add: buffer_ok_def sock_def)
  have "unread si ?n = mload (?a + of_int k) (nat (so_end s - so_offset s - k)) ?M"
    unfolding unread_def Let_def n' by (simp add: algebra_simps)
  moreover have "buffer_ok si ?n" using ok k unfolding buffer_ok_def n' by (simp add: s_def [symmetric])
  ultimately show ?thesis using run k(1) unfolding tk by (intro exI [of _ ?n]) simp
qed

lemma unread_extend:
  assumes ok: "buffer_ok si n" and room: "so_end (sock si n) + int (length data) \<le> 4096"
    and s': "sock si n' = (sock si n)\<lparr>so_end := so_end (sock si n) + int (length data), tcon := c\<rparr>"
    and m': "mem (n_kmem n') = mstore (so_buffer (sock si n) + of_nat (nat (so_end (sock si n)))) data (mem (n_kmem n))"
  shows "unread si n' = unread si n @ data"
proof -
  define s where "s = sock si n"
  define k where "k = nat (so_end s - so_offset s)"
  have o: "0 \<le> so_offset s" "so_offset s \<le> so_end s" "so_end s \<le> 4096" using ok by (auto simp: buffer_ok_def s_def)
  have "of_nat (nat (so_end s)) = (of_int (so_offset s) + of_nat k :: uint32)"
    using o by (simp add: k_def)
  then have a: "so_buffer s + of_nat (nat (so_end s)) = so_buffer s + of_int (so_offset s) + of_nat k" by simp
  have l: "nat (so_end s + int (length data) - so_offset s) = k + length data" using o by (simp add: k_def)
  have "k + length data \<le> 4096" using o room by (simp add: k_def s_def [symmetric] nat_le_iff)
  from mload_mstore_extend [OF this, of "so_buffer s + of_int (so_offset s)" "mem (n_kmem n)"]
  show ?thesis unfolding unread_def Let_def s' m' s_def [symmetric] a by (simp add: l k_def [symmetric])
qed

lemma unread_same:
  assumes "sock si n' = (sock si n)\<lparr>tcon := c\<rparr>" "n_kmem n' = n_kmem n"
  shows "unread si n' = unread si n"
  unfolding unread_def Let_def assms by simp

text \<open>C30: A socket is a byte stream. Let any valid segment of an established connection arrive (right ports and
  checksum, reserved header bits zero, any header length and flags, not one that the listening socket of the same
  port takes, room in the receive buffer), on a host that knows the hardware address of the next hop to the peer and whose
  send window is consistent. If it has the expected sequence number and not the ACK flag, its data is
  appended to the bytes that wait to be read; otherwise, and so for data in a segment with the ACK flag, they stay as
  they are. If there are bytes then, \<^verbatim>\<open>socketread\<close> returns the oldest of them, at most as many as asked for, and leaves
  exactly the rest for the next call.\<close>

theorem tcp_stream_read:
  assumes ok: "buffer_ok si n" and est: "established n si dp peer sp" and send: "can_send n peer"
    and win: "win_ok (tcon (sock si n))" and seg: "valid_segment n peer sp dp seg"
    and np: "\<not> passive_takes n dp (th_flags (tcp_of_bytes seg))"
    and room: "so_end (sock si n) + int (length (seg_data seg)) \<le> 4096"
    and data: "data = (if th_flags (tcp_of_bytes seg) AND TCP_FLAG_ACK = 0 \<and>
        htonl (seq_num (tcp_of_bytes seg)) = ack_sent (tcon (sock si n)) then seg_data seg else [])"
    and some: "unread si n @ data \<noteq> []" and sz: "0 \<le> sz"
  shows "\<exists>n' n''. tcp_receive (seg @ rest) (int (length seg)) peer n sch = Ret () n' sch \<and>
    unread si n' = unread si n @ data \<and>
    socketread si sz n' sch = Ret (int (length (take (nat sz) (unread si n @ data))), take (nat sz) (unread si n @ data)) n'' sch \<and>
    unread si n'' = drop (nat sz) (unread si n @ data)"
proof -
  have b: "so_buffer (sock si n) \<noteq> 0" "0 \<le> so_end (sock si n)" using ok by (auto simp: buffer_ok_def)
  have "\<exists>n'. tcp_receive (seg @ rest) (int (length seg)) peer n sch = Ret () n' sch \<and>
      unread si n' = unread si n @ data \<and> buffer_ok si n'"
  proof (cases "th_flags (tcp_of_bytes seg) AND TCP_FLAG_ACK = 0 \<and>
      htonl (seq_num (tcp_of_bytes seg)) = ack_sent (tcon (sock si n))")
    case True
    obtain n' where n': "tcp_receive (seg @ rest) (int (length seg)) peer n sch = Ret () n' sch"
      "sock si n' = (sock si n)\<lparr>so_end := so_end (sock si n) + int (length (seg_data seg)),
         tcon := (tcon (sock si n))\<lparr>seq_received := ack_sent (tcon (sock si n)),
           ack_sent := ack_sent (tcon (sock si n)) + of_nat (length (seg_data seg))\<rparr>\<rparr>"
      "mem (n_kmem n') = mstore (so_buffer (sock si n) + of_nat (nat (so_end (sock si n)))) (seg_data seg) (mem (n_kmem n))"
      "length (sockets n') = length (sockets n)"
      by (rule tcp_data_in_order [OF est send seg np _ b room]) (use True in auto)
    have "unread si n' = unread si n @ seg_data seg" by (rule unread_extend [OF ok room n'(2,3)])
    moreover have "buffer_ok si n'" using ok room n'(4) unfolding buffer_ok_def n'(2) by auto
    ultimately show ?thesis using n'(1) True data by auto
  next
    case False
    then obtain n' where n': "tcp_receive (seg @ rest) (int (length seg)) peer n sch = Ret () n' sch"
      "sock si n' = (sock si n)\<lparr>tcon := tcon (sock si n')\<rparr>" "tc_state (tcon (sock si n')) = TCP_ESTABLISHED"
      "n_kmem n' = n_kmem n" "length (sockets n') = length (sockets n)"
      by (rule_tac tcp_other_segment [OF est send seg np win, of rest sch]) auto
    obtain c where c: "sock si n' = (sock si n)\<lparr>tcon := c\<rparr>" "tc_state c = TCP_ESTABLISHED" using n'(2,3) by blast
    have "buffer_ok si n'" using ok n'(5) c(2) unfolding buffer_ok_def c(1) by auto
    then show ?thesis using n'(1) unread_same [OF c(1) n'(4)] False data by auto
  qed
  then obtain n' where n': "tcp_receive (seg @ rest) (int (length seg)) peer n sch = Ret () n' sch"
    "unread si n' = unread si n @ data" "buffer_ok si n'" by blast
  then have "0 < length (unread si n')" using some by simp
  then have "so_offset (sock si n') < so_end (sock si n')" by (simp add: length_unread)
  from socketread_run [OF n'(3) this sz, of sch] n'(1,2) show ?thesis by auto
qed

theorem tcp_stream_read_witness:
  "(\<exists>n' n''. tcp_receive (demo_seg 0 @ []) (int (length (demo_seg 0))) 0xc0a80203 demo_net [] = Ret () n' [] \<and>
      unread 0 n' = [0, 0, 104, 105] \<and> socketread 0 3 n' [] = Ret (3, [0, 0, 104]) n'' [] \<and> unread 0 n'' = [105]) \<and>
   (\<exists>n'. tcp_receive (demo_seg TCP_FLAG_ACK @ []) (int (length (demo_seg TCP_FLAG_ACK))) 0xc0a80203 demo_net [] = Ret () n' [] \<and>
      unread 0 n' = [0, 0])"
proof -
  have u: "unread 0 demo_net = [0, 0]" by (simp add: unread_def sock_def demo_defs mload_def upt_rec)
  have "buffer_ok 0 demo_net" by (simp add: buffer_ok_def sock_def demo_defs)
  note f = tcp_stream_read [OF this demo_established demo_can_send demo_window(4) demo_seg_valid(1) demo_sock(4) _ refl,
      where sz = 3 and rest = "[]" and sch = "[]", unfolded demo_seg_valid demo_sock u]
  show ?thesis using f [of 0] f [of TCP_FLAG_ACK] by auto
qed

section \<open>Opening and closing\<close>

lemma zoom_run: "m (get s) [] = Ret a t [] \<Longrightarrow> zoom get put m s sch = Ret a (put (\<lambda>_. t) s) sch"
  by (simp add: zoom_def)

text \<open>A socket that no port refers to.\<close>

definition unported :: "nat \<Rightarrow> net \<Rightarrow> bool" where
  "unported si n \<longleftrightarrow> (\<forall>i. active_socket (ports n i) \<noteq> Some si \<and> passive_socket (ports n i) \<noteq> Some si)"

definition quiet :: "net \<Rightarrow> bool" where
  "quiet n \<longleftrightarrow> \<not> socklock n \<and> \<not> ftable_lk n \<and> \<not> portlock n \<and> n_myproc n \<noteq> None"

lemma socketalloc_run:
  assumes "\<not> socklock n"
  shows "socketalloc n sch = (case find_idx (\<lambda>s. so_state s = SOCKET_FREE) (sockets n) of
      None \<Rightarrow> Ret None (n\<lparr>socklock := False\<rparr>) sch
    | Some si \<Rightarrow> Ret (Some si) (n\<lparr>sockets := (sockets n)[si := (sockets n ! si)\<lparr>so_state := SOCKET_UNBOUND\<rparr>], socklock := False\<rparr>) sch)"
  using assms by (simp add: socketalloc_def sock_upd_def split: option.split)

lemma filealloc_run:
  assumes "\<not> ftable_lk n"
  shows "filealloc n sch = (case find_idx (\<lambda>f. f_ref f = 0) (ftable n) of
      None \<Rightarrow> Ret None (n\<lparr>ftable_lk := False\<rparr>) sch
    | Some fi \<Rightarrow> Ret (Some fi) (n\<lparr>ftable := (ftable n)[fi := (ftable n ! fi)\<lparr>f_ref := 1\<rparr>], ftable_lk := False\<rparr>) sch)"
  using assms by (simp add: filealloc_def file_upd_def split: option.split)

lemma net_kalloc_run:
  assumes "free_pages (n_kend n) (n_kmem n) (p # ps)"
  obtains k' where "\<And>sch. zoom n_kmem n_kmem_update kalloc n sch = Ret p (n\<lparr>n_kmem := k'\<rparr>) sch"
    "free_pages (n_kend n) k' ps"
  using kalloc_free_pages [OF assms, of "[]"] by (auto simp: zoom_def)

lemma net_kfree_run:
  assumes "free_pages (n_kend n) (n_kmem n) ps" "valid_page (n_kend n) v" "v \<noteq> 0" "v \<notin> set ps"
  obtains k' where "\<And>sch. net_kfree v n sch = Ret () (n\<lparr>n_kmem := k'\<rparr>) sch" "free_pages (n_kend n) k' (v # ps)"
  using kfree_free_pages [OF assms, of "[]"] by (auto simp: zoom_def net_kfree_def)

lemma socket_open_run:
  assumes q: "quiet n" and si: "find_idx (\<lambda>s. so_state s = SOCKET_FREE) (sockets n) = Some si"
    and fi: "find_idx (\<lambda>f. f_ref f = 0) (ftable n) = Some fi" and fd: "find_idx (\<lambda>f. f = None) (ofile n) = Some fd"
    and fp: "free_pages (n_kend n) (n_kmem n) (p # ps)"
  obtains n' where "\<And>sch. socket_open cp ci t n sch = Ret (int fd) n' sch"
    "sockets n' = (sockets n)[si := (sockets n ! si)\<lparr>so_state := SOCKET_UNBOUND, so_type := t, so_buffer := p\<rparr>]"
    "ftable n' = (ftable n)[fi := (ftable n ! fi)\<lparr>f_ref := 1, f_type := FD_SOCKET, f_off := 0, f_readable := True,
       f_writable := True, f_socket := Some si\<rparr>]"
    "ofile n' = (ofile n)[fd := Some fi]" "free_pages (n_kend n) (n_kmem n') ps" "ports n' = ports n" "quiet n'" "n_kend n' = n_kend n"
proof -
  define n1 where "n1 = n\<lparr>socklock := False, ftable := (ftable n)[fi := (ftable n ! fi)\<lparr>f_ref := 1\<rparr>], ftable_lk := False,
    ofile := (ofile n)[fd := Some fi], sockets := (sockets n)[si := (sockets n ! si)\<lparr>so_state := SOCKET_UNBOUND, so_type := t\<rparr>]\<rparr>"
  have "free_pages (n_kend n1) (n_kmem n1) (p # ps)" using fp by (simp add: n1_def)
  then obtain k' where k': "\<And>sch. zoom n_kmem n_kmem_update kalloc n1 sch = Ret p (n1\<lparr>n_kmem := k'\<rparr>) sch"
    "free_pages (n_kend n1) k' ps" by (rule net_kalloc_run) blast
  have b: "si < length (sockets n)" "fi < length (ftable n)" using si fi by (auto dest: find_idx_SomeD)
  obtain pid where "n_myproc n = Some pid" using q by (auto simp: quiet_def)
  then have run: "socket_open cp ci t n sch = Ret (int fd) (n1\<lparr>n_kmem := k',
      sockets := (sockets n)[si := (sockets n ! si)\<lparr>so_state := SOCKET_UNBOUND, so_type := t, so_buffer := p\<rparr>],
      ftable := (ftable n)[fi := (ftable n ! fi)\<lparr>f_ref := 1, f_type := FD_SOCKET, f_off := 0, f_readable := True,
        f_writable := True, f_socket := Some si\<rparr>]\<rparr>) sch" for sch
    using q b k'(1) [unfolded n1_def] si fi fd
    by (simp add: socket_open_def socketalloc_run filealloc_run fdalloc_def current_run sock_upd_def sock_def file_upd_def
        quiet_def n1_def)
  show ?thesis
    by (rule that [OF run]) (use q k'(2) in \<open>simp_all add: n1_def quiet_def\<close>)
qed

lemma socketclose_run:
  assumes q: "\<not> socklock n" "\<not> portlock n" and up: "unported si n" and i: "si < length (sockets n)"
    and po: "unat (so_port (sock si n)) < NPORTS"
    and fp: "free_pages (n_kend n) (n_kmem n) ps" "valid_page (n_kend n) v" "v \<noteq> 0" "v \<notin> set ps" "so_buffer (sock si n) = v"
  obtains n' where "\<And>sch. socketclose si n sch = Ret () n' sch" "sockets n' = (sockets n)[si := boot_socket]"
    "free_pages (n_kend n) (n_kmem n') (v # ps)" "ports n' = ports n" "ftable n' = ftable n" "ofile n' = ofile n"
proof -
  obtain k' where k': "\<And>sch. net_kfree v n sch = Ret () (n\<lparr>n_kmem := k'\<rparr>) sch" "free_pages (n_kend n) k' (v # ps)"
    using net_kfree_run [OF fp(1-4)] by blast
  have f: "boot_socket\<lparr>so_state := SOCKET_FREE\<rparr> = boot_socket" by (simp add: boot_socket_def)
  have "socketclose si n sch = Ret () (n\<lparr>n_kmem := k', sockets := (sockets n)[si := boot_socket], socklock := False, portlock := False\<rparr>) sch" for sch
    using q up i po fp(5) k'(1) f
    by (simp add: socketclose_def socketfree_def sock_upd_def sock_def unported_def Let_def)
  from that [OF this] k'(2) show ?thesis by simp
qed

text \<open>Closing the last reference to a file that is a socket.\<close>

lemma fileclose_socket_run:
  assumes q: "quiet n" and f: "fi < length (ftable n)" "f_ref (ftable n ! fi) = 1" "f_type (ftable n ! fi) = FD_SOCKET"
      "f_socket (ftable n ! fi) = Some si"
    and si: "si < length (sockets n)" "unported si n" "unat (so_port (sock si n)) < NPORTS"
    and fp: "free_pages (n_kend n) (n_kmem n) ps" "valid_page (n_kend n) v" "v \<noteq> 0" "v \<notin> set ps" "so_buffer (sock si n) = v"
  obtains n' where "\<And>sch. fileclose cp ci fi n sch = Ret () n' sch" "sockets n' = (sockets n)[si := boot_socket]"
    "free_pages (n_kend n) (n_kmem n') (v # ps)" "ports n' = ports n" "ofile n' = ofile n"
    "ftable n' = (ftable n)[fi := (ftable n ! fi)\<lparr>f_ref := 0, f_type := FD_NONE\<rparr>]"
proof -
  define m where "m = n\<lparr>ftable := (ftable n)[fi := (ftable n ! fi)\<lparr>f_ref := 0, f_type := FD_NONE\<rparr>], ftable_lk := False\<rparr>"
  have sm: "sock si m = sock si n" by (simp add: m_def sock_def)
  obtain n' where n': "\<And>sch. socketclose si m sch = Ret () n' sch" "sockets n' = (sockets m)[si := boot_socket]"
    "free_pages (n_kend m) (n_kmem n') (v # ps)" "ports n' = ports m" "ftable n' = ftable m" "ofile n' = ofile m"
    using q si fp by (rule_tac socketclose_run [of m si ps v]) (auto simp: sm, auto simp: m_def quiet_def unported_def)
  have "fileclose cp ci fi n sch = Ret () n' sch" for sch
    using q f n'(1) [unfolded m_def] by (simp add: fileclose_def file_upd_def quiet_def)
  from that [OF this] n'(2-6) show ?thesis by (simp add: m_def)
qed

definition demo_open :: net where
  "demo_open = boot_net\<lparr>n_kmem := after_kfree 0x80200000 (n_kmem boot_net)\<rparr>"

lemma demo_open_facts:
  "free_pages (n_kend demo_open) (n_kmem demo_open) [0x80200000]" "quiet demo_open"
  "find_idx (\<lambda>s. so_state s = SOCKET_FREE) (sockets demo_open) = Some 0" "sockets demo_open ! 0 = boot_socket"
  "unported 0 demo_open" "find_idx (\<lambda>f. f_ref f = 0) (ftable demo_open) = Some 0"
  "find_idx (\<lambda>f. f = None) (ofile demo_open) = Some 0"
proof -
  have "free_pages 0x80130000 (n_kmem boot_net) []" by (simp add: free_pages_def boot_net_def)
  moreover have "valid_page 0x80130000 0x80200000"
    by (simp add: valid_page_def PGSIZE_def V2P_def KERNBASE_def PHYSTOP_def)
  ultimately show "free_pages (n_kend demo_open) (n_kmem demo_open) [0x80200000]"
    using kfree_free_pages [of "0x80130000" "n_kmem boot_net" "[]" "0x80200000" "[]"]
    by (simp add: demo_open_def boot_net_def)
qed (simp_all add: demo_open_def quiet_def unported_def boot_net_def boot_port_def boot_file_def boot_socket_def find_idx_Some_iff)

section \<open>The handshake of a client\<close>









lemma can_send_ports [simp]:
  "can_send (n\<lparr>ports := x\<rparr>) ip = can_send n ip" "can_send (n\<lparr>portlock := y\<rparr>) ip = can_send n ip"
  by (simp_all add: can_send_def net_ok_def arp_cached_def next_hop_def)


lemma free_port_lock [simp]: "free_port (n\<lparr>portlock := b\<rparr>) = free_port n"
  unfolding free_port_def by simp





end
