(* ===== verification/Pipe.thy ===== *)
theory Pipe
  imports Socket
begin

text \<open>
  Pipes (\<^verbatim>\<open>src/pipe.c\<close>). A pipe lives in a page of its own; \<open>pipes n p\<close> is the pipe in the page at
  address \<open>p\<close>. \<open>wait_unless\<close> is the loop \<^verbatim>\<open>while(cond){ if(stop) return -1; ...; sleep(...); }\<close>. The
  callers run in a process, so \<^verbatim>\<open>myproc()\<close> is not null.

  The ring buffer with its two free-running counters implements a bounded queue of bytes
  (\<open>pend\<close>, \<open>pipe_fifo\<close>), and a writer that found the pipe full sleeps on the channel that the
  next reader wakes (\<open>pipe_writer_resumes\<close>).
\<close>

section \<open>The operations\<close>

fun wait_unless :: "('s \<Rightarrow> bool) \<Rightarrow> ('s \<Rightarrow> bool) \<Rightarrow> ('s \<Rightarrow> 's) \<Rightarrow> chan \<Rightarrow> ('s \<Rightarrow> bool) \<Rightarrow> ((bool \<Rightarrow> bool) \<Rightarrow> 's \<Rightarrow> 's) \<Rightarrow> ('s, bool) km" where
  "wait_unless cond stop prep ch held put s [] =
     (if \<not> cond s then Ret False s []
      else if stop s then Ret True s []
      else if held (prep s) then Asleep ch (put (\<lambda>_. False) (prep s)) else Fail (Panic ''release''))"
| "wait_unless cond stop prep ch held put s (f # fs) =
     (if \<not> cond s then Ret False s (f # fs)
      else if stop s then Ret True s (f # fs)
      else if held (prep s) then
        (let s' = f (put (\<lambda>_. False) (prep s)) in
         if held s' then Fail (Panic ''acquire'') else wait_unless cond stop prep ch held put (put (\<lambda>_. True) s') fs)
      else Fail (Panic ''release''))"

definition pipe_upd :: "nat \<Rightarrow> (pipe \<Rightarrow> pipe) \<Rightarrow> net \<Rightarrow> net" where
  "pipe_upd p f n = n\<lparr>pipes := (pipes n)(p := f (pipes n p))\<rparr>"

definition pipe_held :: "nat \<Rightarrow> net \<Rightarrow> bool" where
  "pipe_held p n = p_lock (pipes n p)"

definition pipe_lk :: "nat \<Rightarrow> (bool \<Rightarrow> bool) \<Rightarrow> net \<Rightarrow> net" where
  "pipe_lk p f = pipe_upd p (p_lock_update f)"

definition nread_chan :: "nat \<Rightarrow> chan" where
  "nread_chan p = Chan ''nread'' p"

definition nwrite_chan :: "nat \<Rightarrow> chan" where
  "nwrite_chan p = Chan ''nwrite'' p"

abbreviation acquire_pipe :: "nat \<Rightarrow> unit nm" where "acquire_pipe p \<equiv> lock_acquire (pipe_held p) (pipe_lk p)"
abbreviation release_pipe :: "nat \<Rightarrow> unit nm" where "release_pipe p \<equiv> lock_release (pipe_held p) (pipe_lk p)"

definition pipeclose :: "nat \<Rightarrow> bool \<Rightarrow> unit nm" where
  "pipeclose p writable =
     thn (acquire_pipe p)
     (thn (if writable then thn (upd (pipe_upd p (\<lambda>q. q\<lparr>writeopen := False\<rparr>))) (wakeup (nread_chan p))
           else thn (upd (pipe_upd p (\<lambda>q. q\<lparr>readopen := False\<rparr>))) (wakeup (nwrite_chan p)))
     (bnd (gets (\<lambda>n. pipes n p)) (\<lambda>q.
     if \<not> readopen q \<and> \<not> writeopen q then thn (release_pipe p) (net_kfree (of_nat p))
     else release_pipe p)))"

text \<open>How \<^verbatim>\<open>fileclose\<close> calls it.\<close>

definition close_pipe :: "kfile \<Rightarrow> unit nm" where
  "close_pipe ff = (case f_pipe ff of Some p \<Rightarrow> pipeclose p (f_writable ff) | None \<Rightarrow> oob ''null pipe'')"

definition pipealloc :: "(kfile \<Rightarrow> unit nm) \<Rightarrow> (nat \<times> nat) option nm" where
  "pipealloc close_inode =
     bnd filealloc (\<lambda>r0.
     case r0 of
       None \<Rightarrow> ret None
     | Some f0 \<Rightarrow>
         bnd filealloc (\<lambda>r1.
         case r1 of
           None \<Rightarrow> thn (fileclose close_pipe close_inode f0) (ret None)
         | Some f1 \<Rightarrow>
             bnd net_kalloc (\<lambda>p.
             if p = 0 then
               thn (fileclose close_pipe close_inode f0)
               (thn (fileclose close_pipe close_inode f1)
               (ret None))
             else
               thn (upd (pipe_upd (unat p) (\<lambda>q. q\<lparr>readopen := True, writeopen := True, nwrite := 0, nread := 0, p_lock := False\<rparr>)))
               (thn (file_upd f0 (\<lambda>f. f\<lparr>f_type := FD_PIPE, f_readable := True, f_writable := False, f_pipe := Some (unat p)\<rparr>))
               (thn (file_upd f1 (\<lambda>f. f\<lparr>f_type := FD_PIPE, f_readable := False, f_writable := True, f_pipe := Some (unat p)\<rparr>))
               (ret (Some (f0, f1))))))))"

definition pipe_full :: "nat \<Rightarrow> net \<Rightarrow> bool" where
  "pipe_full p n \<longleftrightarrow> nwrite (pipes n p) = nread (pipes n p) + 512"

definition pipe_empty :: "nat \<Rightarrow> net \<Rightarrow> bool" where
  "pipe_empty p n \<longleftrightarrow> nread (pipes n p) = nwrite (pipes n p)"

definition push_byte :: "uchar \<Rightarrow> pipe \<Rightarrow> pipe" where
  "push_byte c q = q\<lparr>p_data := (p_data q)[unat (nwrite q) mod 512 := c], nwrite := nwrite q + 1\<rparr>"

fun pipewrite_loop :: "nat \<Rightarrow> bytes \<Rightarrow> bool nm" where
  "pipewrite_loop p [] = ret True"
| "pipewrite_loop p (c # cs) =
     bnd (wait_unless (pipe_full p) (\<lambda>n. \<not> readopen (pipes n p) \<or> n_killed n)
            (\<lambda>n. n\<lparr>woken := woken n @ [nread_chan p]\<rparr>) (nwrite_chan p) (pipe_held p) (pipe_lk p)) (\<lambda>stopped.
     if stopped then ret False
     else thn (upd (pipe_upd p (push_byte c))) (pipewrite_loop p cs))"

definition pipewrite :: "nat \<Rightarrow> bytes \<Rightarrow> int nm" where
  "pipewrite p addr =
     thn (acquire_pipe p)
     (bnd (pipewrite_loop p addr) (\<lambda>done.
     if \<not> done then thn (release_pipe p) (ret (-1))
     else
       thn (wakeup (nread_chan p))
       (thn (release_pipe p)
       (ret (int (length addr))))))"

fun piperead_loop :: "nat \<Rightarrow> nat \<Rightarrow> bytes nm" where
  "piperead_loop p 0 = ret []"
| "piperead_loop p (Suc k) =
     bnd (gets (\<lambda>n. pipes n p)) (\<lambda>q.
     if nread q = nwrite q then ret []
     else
       thn (upd (pipe_upd p (\<lambda>q. q\<lparr>nread := nread q + 1\<rparr>)))
       (bnd (piperead_loop p k) (\<lambda>cs.
       ret (p_data q ! (unat (nread q) mod 512) # cs))))"

definition piperead :: "nat \<Rightarrow> int \<Rightarrow> (int \<times> bytes) nm" where
  "piperead p k =
     thn (acquire_pipe p)
     (bnd (wait_unless (\<lambda>n. pipe_empty p n \<and> writeopen (pipes n p)) n_killed (\<lambda>n. n) (nread_chan p) (pipe_held p) (pipe_lk p)) (\<lambda>stopped.
     if stopped then thn (release_pipe p) (ret (-1, []))
     else
       bnd (piperead_loop p (nat k)) (\<lambda>cs.
       thn (wakeup (nwrite_chan p))
       (thn (release_pipe p)
       (ret (int (length cs), cs))))))"

section \<open>The queue of bytes in the pipe\<close>

definition pend :: "pipe \<Rightarrow> bytes" where
  "pend q = map (\<lambda>k. p_data q ! (unat (nread q + of_nat k) mod 512)) [0..<unat (nwrite q - nread q)]"

definition pipe_ok :: "pipe \<Rightarrow> bool" where
  "pipe_ok q \<longleftrightarrow> length (p_data q) = 512 \<and> unat (nwrite q - nread q) \<le> 512"

lemma length_pend [simp]: "length (pend q) = unat (nwrite q - nread q)"
  by (simp add: pend_def)

lemma full_iff: "nwrite q = nread q + 512 \<longleftrightarrow> length (pend q) = 512"
proof -
  have "nwrite q = nread q + 512 \<longleftrightarrow> nwrite q - nread q = 512" by (auto simp: algebra_simps)
  also have "\<dots> \<longleftrightarrow> unat (nwrite q - nread q) = unat (512 :: uint32)" by (rule word_unat_eq_iff)
  finally show ?thesis by simp
qed

lemma empty_iff: "nread q = nwrite q \<longleftrightarrow> pend q = []"
  unfolding length_0_conv [symmetric] length_pend by (metis eq_iff_diff_eq_0 unat_eq_0)

lemma ring_index: "unat (w + of_nat k :: uint32) mod 512 = (unat w + k) mod 512"
  by (rule ring_mod) simp

lemma pend_nth: "k < length (pend q) \<Longrightarrow> pend q ! k = p_data q ! ((unat (nread q) + k) mod 512)"
  by (simp add: pend_def ring_index)

lemma pend_push:
  assumes ok: "pipe_ok q" and room: "length (pend q) < 512"
  shows "pend (push_byte c q) = pend q @ [c]" "pipe_ok (push_byte c q)"
proof -
  let ?m = "length (pend q)" and ?r = "unat (nread q)"
  have e: "nwrite q = nread q + of_nat ?m" by simp
  have m: "unat (nwrite q + 1 - nread q) = Suc ?m"
  proof -
    have "nwrite q + 1 - nread q = of_nat (Suc ?m)" by simp
    moreover have "unat (of_nat (Suc ?m) :: uint32) = Suc ?m" using room by (simp add: unat_of_nat_word del: length_pend of_nat_Suc)
    ultimately show ?thesis by (simp only:)
  qed
  have w: "unat (nwrite q) mod 512 = (?r + ?m) mod 512" by (subst e) (rule ring_index)
  show "pend (push_byte c q) = pend q @ [c]"
  proof (rule nth_equalityI)
    show "length (pend (push_byte c q)) = length (pend q @ [c])" using m by (simp add: push_byte_def)
    fix k assume k: "k < length (pend (push_byte c q))"
    then have k': "k \<le> ?m" using m by (simp add: push_byte_def)
    have "pend (push_byte c q) ! k = (p_data q)[(?r + ?m) mod 512 := c] ! ((?r + k) mod 512)"
      using pend_nth [OF k] w by (simp add: push_byte_def)
    also have "\<dots> = (pend q @ [c]) ! k"
    proof (cases "k = ?m")
      case True
      then show ?thesis using ok by (simp add: pipe_ok_def del: length_pend)
    next
      case False
      then have "k < ?m" using k' by simp
      moreover from this have "(?r + k) mod 512 \<noteq> (?r + ?m) mod 512"
        using room by (intro mod_distinct) simp_all
      ultimately show ?thesis by (simp add: nth_append pend_nth)
    qed
    finally show "pend (push_byte c q) ! k = (pend q @ [c]) ! k" .
  qed
  show "pipe_ok (push_byte c q)" using ok m room by (simp add: pipe_ok_def push_byte_def)
qed

lemma pend_pop:
  assumes ok: "pipe_ok q" and ne: "pend q \<noteq> []"
  shows "pend q = p_data q ! (unat (nread q) mod 512) # pend (q\<lparr>nread := nread q + 1\<rparr>)" "pipe_ok (q\<lparr>nread := nread q + 1\<rparr>)"
proof -
  let ?q = "q\<lparr>nread := nread q + 1\<rparr>" and ?m = "length (pend q)" and ?r = "unat (nread q)"
  have m0: "0 < ?m" using ne by (simp only: length_greater_0_conv) simp
  have m: "unat (nwrite q - (nread q + 1)) = ?m - 1"
  proof -
    have "nwrite q - nread q \<noteq> 0" using m0 by auto
    then have "unat (nwrite q - nread q - 1) = unat (nwrite q - nread q) - 1" by (rule unat_minus_one)
    then show ?thesis by (simp add: algebra_simps)
  qed
  show "pend q = p_data q ! (?r mod 512) # pend ?q"
  proof (rule nth_equalityI)
    show "length (pend q) = length (p_data q ! (?r mod 512) # pend ?q)" using m m0 by simp
    fix k assume k: "k < length (pend q)"
    show "pend q ! k = (p_data q ! (?r mod 512) # pend ?q) ! k"
    proof (cases k)
      case 0
      then show ?thesis using pend_nth [OF k] by simp
    next
      case (Suc j)
      then have "j < length (pend ?q)" using k m by simp
      from pend_nth [OF this] have "pend ?q ! j = p_data q ! ((unat (nread q + 1) + j) mod 512)" by simp
      also have "(unat (nread q + 1) + j) mod 512 = (?r + k) mod 512"
        using ring_index [of "nread q" 1] Suc by (metis (no_types) add.assoc add_Suc_right mod_add_left_eq of_nat_1 plus_1_eq_Suc)
      finally show ?thesis using pend_nth [OF k] Suc by simp
    qed
  qed
  show "pipe_ok ?q" using ok m m0 unfolding pipe_ok_def by simp linarith
qed

section \<open>Reading and writing\<close>

lemma wait_unless_done [simp]: "\<not> cond s \<Longrightarrow> wait_unless cond stop prep ch held put s sch = Ret False s sch"
  by (cases sch) simp_all

lemma pipe_upd_simps [simp]:
  "pipes (pipe_upd p f n) p = f (pipes n p)" "x \<noteq> p \<Longrightarrow> pipes (pipe_upd p f n) x = pipes n x"
  "pipe_upd p f (pipe_upd p g n) = pipe_upd p (\<lambda>q. f (g q)) n" "n_killed (pipe_upd p f n) = n_killed n"
  "woken (pipe_upd p f n) = woken n"
  by (simp_all add: pipe_upd_def)

lemma push_lock [simp]: "p_lock (push_byte c q) = p_lock q" "readopen (push_byte c q) = readopen q" "writeopen (push_byte c q) = writeopen q"
  by (simp_all add: push_byte_def)

lemma pipewrite_loop_room:
  assumes "pipe_ok (pipes n p)" "length (pend (pipes n p)) + length cs \<le> 512"
  shows "pipewrite_loop p cs n sch = Ret True (pipe_upd p (fold push_byte cs) n) sch \<and>
    pend (fold push_byte cs (pipes n p)) = pend (pipes n p) @ cs \<and> pipe_ok (fold push_byte cs (pipes n p)) \<and>
    p_lock (fold push_byte cs (pipes n p)) = p_lock (pipes n p)"
  using assms
proof (induction cs arbitrary: n)
  case Nil
  then show ?case by (simp add: pipe_upd_def)
next
  case (Cons c cs)
  let ?n = "pipe_upd p (push_byte c) n"
  have r: "length (pend (pipes n p)) < 512" using Cons.prems(2) by simp
  then have nf: "\<not> pipe_full p n" by (simp add: pipe_full_def full_iff)
  note pp = pend_push [OF Cons.prems(1) r, of c]
  have "length (pend (pipes ?n p)) + length cs \<le> 512" using Cons.prems(2) pp(1) by simp
  with Cons.IH [of ?n] pp nf show ?case by simp
qed

lemma piperead_loop_run:
  assumes "pipe_ok (pipes n p)"
  shows "\<exists>q. (\<forall>sch. piperead_loop p k n sch = Ret (take k (pend (pipes n p))) (pipe_upd p (\<lambda>_. q) n) sch) \<and>
    pend q = drop k (pend (pipes n p)) \<and> pipe_ok q \<and> p_lock q = p_lock (pipes n p) \<and>
    readopen q = readopen (pipes n p) \<and> writeopen q = writeopen (pipes n p)"
  using assms
proof (induction k arbitrary: n)
  case 0
  then show ?case by (intro exI [of _ "pipes n p"]) (simp add: pipe_upd_def)
next
  case (Suc k)
  let ?q = "pipes n p" and ?n = "pipe_upd p (\<lambda>q. q\<lparr>nread := nread q + 1\<rparr>) n"
  show ?case
  proof (cases "pend ?q = []")
    case True
    then show ?thesis using Suc.prems by (intro exI [of _ ?q]) (simp add: empty_iff pipe_upd_def)
  next
    case False
    note pp = pend_pop [OF Suc.prems False]
    obtain q where q: "\<And>sch. piperead_loop p k ?n sch = Ret (take k (pend (pipes ?n p))) (pipe_upd p (\<lambda>_. q) ?n) sch"
      "pend q = drop k (pend (pipes ?n p))" "pipe_ok q" "p_lock q = p_lock (pipes ?n p)" "readopen q = readopen (pipes ?n p)"
      "writeopen q = writeopen (pipes ?n p)"
      using Suc.IH [of ?n] pp(2) by auto
    have "nread ?q \<noteq> nwrite ?q" using False by (simp add: empty_iff)
    then have "piperead_loop p (Suc k) n sch = Ret (take (Suc k) (pend ?q)) (pipe_upd p (\<lambda>_. q) n) sch" for sch
      using q(1) by (simp, subst pp(1)) simp
    moreover have "pend q = drop (Suc k) (pend ?q)" using q(2) by (subst pp(1)) simp
    ultimately show ?thesis using q(3-6) by (intro exI [of _ q]) simp
  qed
qed


lemma pipe_upd_cong: "f (pipes n p) = g (pipes n p) \<Longrightarrow> pipe_upd p f n = pipe_upd p g n"
  by (simp add: pipe_upd_def)

lemma pipe_fields [simp]:
  "pend (q\<lparr>p_lock := b\<rparr>) = pend q" "pipe_ok (q\<lparr>p_lock := b\<rparr>) = pipe_ok q"
  "pipes (n\<lparr>woken := w\<rparr>) = pipes n" "pipe_upd p f (n\<lparr>woken := w\<rparr>) = (pipe_upd p f n)\<lparr>woken := w\<rparr>"
  "fold push_byte cs (q\<lparr>p_lock := b\<rparr>) = (fold push_byte cs q)\<lparr>p_lock := b\<rparr>"
proof -
  show "fold push_byte cs (q\<lparr>p_lock := b\<rparr>) = (fold push_byte cs q)\<lparr>p_lock := b\<rparr>"
  proof (induction cs arbitrary: q)
    case (Cons c cs)
    have "push_byte c (q\<lparr>p_lock := b\<rparr>) = (push_byte c q)\<lparr>p_lock := b\<rparr>" by (cases q) (simp add: push_byte_def)
    then show ?case using Cons [of "push_byte c q"] by simp
  qed simp
qed (simp_all add: pend_def pipe_ok_def pipe_upd_def)

lemmas pipe_lock_defs = pipe_held_def pipe_lk_def

lemma pipewrite_room:
  assumes "\<not> pipe_held p n" "pipe_ok (pipes n p)" "length (pend (pipes n p)) + length xs \<le> 512"
  shows "\<exists>n'. (\<forall>sch. pipewrite p xs n sch = Ret (int (length xs)) n' sch) \<and> pend (pipes n' p) = pend (pipes n p) @ xs \<and>
    pipe_ok (pipes n' p) \<and> \<not> pipe_held p n' \<and> (\<forall>x. x \<noteq> p \<longrightarrow> pipes n' x = pipes n x)"
proof -
  let ?n1 = "pipe_lk p (\<lambda>_. True) n"
  have "pipe_ok (pipes ?n1 p)" "length (pend (pipes ?n1 p)) + length xs \<le> 512"
    using assms by (simp_all add: pipe_lock_defs del: length_pend)
  note w = pipewrite_loop_room [OF this]
  define n' where "n' = (pipe_lk p (\<lambda>_. False) (pipe_upd p (fold push_byte xs) ?n1))\<lparr>woken := woken n @ [nread_chan p]\<rparr>"
  have "pipewrite p xs n sch = Ret (int (length xs)) n' sch" for sch
    using w [of sch] assms(1) by (simp add: pipewrite_def n'_def pipe_lock_defs)
  moreover have "pend (pipes n' p) = pend (pipes n p) @ xs" "pipe_ok (pipes n' p)" "\<not> pipe_held p n'" "\<forall>x. x \<noteq> p \<longrightarrow> pipes n' x = pipes n x"
    using w by (simp_all add: n'_def pipe_lock_defs)
  ultimately show ?thesis by blast
qed

lemma piperead_ready:
  assumes "\<not> pipe_held p n" "pipe_ok (pipes n p)" "pend (pipes n p) \<noteq> [] \<or> \<not> writeopen (pipes n p)"
  shows "\<exists>n'. (\<forall>sch. piperead p k n sch = Ret (int (length (take (nat k) (pend (pipes n p)))), take (nat k) (pend (pipes n p))) n' sch) \<and>
    pend (pipes n' p) = drop (nat k) (pend (pipes n p)) \<and> pipe_ok (pipes n' p) \<and> \<not> pipe_held p n' \<and>
    readopen (pipes n' p) = readopen (pipes n p) \<and> n_killed n' = n_killed n \<and>
    (\<forall>x. x \<noteq> p \<longrightarrow> pipes n' x = pipes n x) \<and> woken n' = woken n @ [nwrite_chan p]"
proof -
  let ?n1 = "pipe_lk p (\<lambda>_. True) n"
  have ok1: "pipe_ok (pipes ?n1 p)" using assms by (simp add: pipe_lock_defs)
  obtain q where q: "\<And>sch. piperead_loop p (nat k) ?n1 sch = Ret (take (nat k) (pend (pipes ?n1 p))) (pipe_upd p (\<lambda>_. q) ?n1) sch"
    "pend q = drop (nat k) (pend (pipes ?n1 p))" "pipe_ok q" "p_lock q" "readopen q = readopen (pipes n p)"
    using piperead_loop_run [OF ok1, of "nat k"] by (auto simp: pipe_lock_defs)
  have ne: "\<not> (pipe_empty p ?n1 \<and> writeopen (pipes ?n1 p))"
    using assms(3) by (simp add: pipe_empty_def pipe_lock_defs empty_iff)
  define n' where "n' = (pipe_lk p (\<lambda>_. False) (pipe_upd p (\<lambda>_. q) ?n1))\<lparr>woken := woken n @ [nwrite_chan p]\<rparr>"
  have "piperead p k n sch = Ret (int (length (take (nat k) (pend (pipes n p)))), take (nat k) (pend (pipes n p))) n' sch" for sch
    using q(1) [of sch] ne assms(1) q(4) by (simp add: piperead_def n'_def pipe_lock_defs)
  moreover have "pend (pipes n' p) = drop (nat k) (pend (pipes n p))" "pipe_ok (pipes n' p)" "\<not> pipe_held p n'" "\<forall>x. x \<noteq> p \<longrightarrow> pipes n' x = pipes n x"
    "woken n' = woken n @ [nwrite_chan p]" "readopen (pipes n' p) = readopen (pipes n p)" "n_killed n' = n_killed n"
    using q by (simp_all add: n'_def pipe_lock_defs)
  ultimately show ?thesis by blast
qed


section \<open>A stream of bytes\<close>

text \<open>A client that writes messages one after the other, and one that reads in pieces.\<close>

fun write_all :: "(bytes \<Rightarrow> ('s, int) km) \<Rightarrow> bytes list \<Rightarrow> ('s, unit) km" where
  "write_all wr [] = ret ()"
| "write_all wr (xs # xss) = bnd (wr xs) (\<lambda>_. write_all wr xss)"

fun read_all :: "(int \<Rightarrow> ('s, int \<times> bytes) km) \<Rightarrow> int list \<Rightarrow> ('s, bytes) km" where
  "read_all rd [] = ret []"
| "read_all rd (k # ks) = bnd (rd k) (\<lambda>(_, cs). bnd (read_all rd ks) (\<lambda>ds. ret (cs @ ds)))"

text \<open>What a client of a byte stream with a buffer of \<open>cap\<close> bytes relies on.\<close>

locale byte_stream =
  fixes ready :: "'s \<Rightarrow> bool"
    and pending :: "'s \<Rightarrow> bytes"
    and cap :: nat
    and wr :: "bytes \<Rightarrow> ('s, int) km"
    and rd :: "int \<Rightarrow> ('s, int \<times> bytes) km"
  assumes wr_law: "ready s \<Longrightarrow> length (pending s) + length xs \<le> cap \<Longrightarrow>
      \<exists>s'. (\<forall>sch. wr xs s sch = Ret (int (length xs)) s' sch) \<and> ready s' \<and> pending s' = pending s @ xs"
    and rd_law: "ready s \<Longrightarrow> pending s \<noteq> [] \<Longrightarrow>
      \<exists>s'. (\<forall>sch. rd k s sch = Ret (int (length (take (nat k) (pending s))), take (nat k) (pending s)) s' sch) \<and>
        ready s' \<and> pending s' = drop (nat k) (pending s)"
begin

text \<open>Messages written one after the other arrive as one stream, in pieces of any size.\<close>

lemma write_all_run:
  "ready s \<Longrightarrow> length (pending s) + length (concat xss) \<le> cap \<Longrightarrow>
   \<exists>s'. (\<forall>sch. write_all wr xss s sch = Ret () s' sch) \<and> ready s' \<and> pending s' = pending s @ concat xss"
proof (induction xss arbitrary: s)
  case (Cons xs xss)
  obtain t where t: "\<And>sch. wr xs s sch = Ret (int (length xs)) t sch" "ready t" "pending t = pending s @ xs"
    using wr_law [of s xs] Cons.prems by auto
  have "length (pending t) + length (concat xss) \<le> cap" using Cons.prems(2) t(3) by simp
  from Cons.IH [OF t(2) this] obtain u where
    "\<And>sch. write_all wr xss t sch = Ret () u sch" "ready u" "pending u = pending t @ concat xss"
    by blast
  with t show ?case by (intro exI [of _ u]) simp
qed simp

lemma read_all_run:
  "ready s \<Longrightarrow> (\<Sum>k\<leftarrow>ks. nat k) \<le> length (pending s) \<Longrightarrow> \<forall>k\<in>set ks. 0 < k \<Longrightarrow>
   \<exists>s'. (\<forall>sch. read_all rd ks s sch = Ret (take (\<Sum>k\<leftarrow>ks. nat k) (pending s)) s' sch) \<and> ready s' \<and>
     pending s' = drop (\<Sum>k\<leftarrow>ks. nat k) (pending s)"
proof (induction ks arbitrary: s)
  case (Cons k ks)
  have "pending s \<noteq> []" using Cons.prems(2,3) by auto
  from rd_law [OF Cons.prems(1) this, of k] obtain t where
    t: "\<And>sch. rd k s sch = Ret (int (length (take (nat k) (pending s))), take (nat k) (pending s)) t sch" "ready t"
      "pending t = drop (nat k) (pending s)"
    by blast
  have "(\<Sum>k\<leftarrow>ks. nat k) \<le> length (pending t)" using Cons.prems(2) t(3) by simp
  from Cons.IH [OF t(2) this] Cons.prems(3) obtain u where
    u: "\<And>sch. read_all rd ks t sch = Ret (take (\<Sum>k\<leftarrow>ks. nat k) (pending t)) u sch" "ready u" "pending u = drop (\<Sum>k\<leftarrow>ks. nat k) (pending t)"
    by auto
  show ?case using t u by (intro exI [of _ u]) (simp add: take_add, simp add: add.commute)
qed simp

end

definition pipe_ready :: "nat \<Rightarrow> net \<Rightarrow> bool" where
  "pipe_ready p n \<longleftrightarrow> \<not> pipe_held p n \<and> pipe_ok (pipes n p)"

interpretation pp: byte_stream "pipe_ready p" "\<lambda>n. pend (pipes n p)" 512 "pipewrite p" "piperead p" for p
proof unfold_locales
  fix s and xs :: bytes assume "pipe_ready p s" "length (pend (pipes s p)) + length xs \<le> 512"
  with pipewrite_room [of p s xs]
  show "\<exists>s'. (\<forall>sch. pipewrite p xs s sch = Ret (int (length xs)) s' sch) \<and> pipe_ready p s' \<and> pend (pipes s' p) = pend (pipes s p) @ xs"
    by (auto simp: pipe_ready_def)
next
  fix s k assume "pipe_ready p s" "pend (pipes s p) \<noteq> []"
  with piperead_ready [of p s k]
  show "\<exists>s'. (\<forall>sch. piperead p k s sch = Ret (int (length (take (nat k) (pend (pipes s p)))), take (nat k) (pend (pipes s p))) s' sch) \<and>
      pipe_ready p s' \<and> pend (pipes s' p) = drop (nat k) (pend (pipes s p))"
    by (auto simp: pipe_ready_def)
qed

text \<open>C8: A pipe is a queue of bytes. From any state of the counters (including just before they wrap
  around), messages that fit into the pipe and are written with \<^verbatim>\<open>pipewrite\<close> come out of \<^verbatim>\<open>piperead\<close>
  calls of any positive sizes as one stream: the bytes that were in the pipe, then the messages in
  order; what has not been read stays in the pipe.\<close>

theorem pipe_fifo:
  assumes "pipe_ready p n" "length (pend (pipes n p) @ concat xss) \<le> 512"
    and "(\<Sum>k\<leftarrow>ks. nat k) \<le> length (pend (pipes n p) @ concat xss)" "\<forall>k\<in>set ks. 0 < k"
  shows "\<exists>n'. (\<forall>sch. thn (write_all (pipewrite p) xss) (read_all (piperead p) ks) n sch =
      Ret (take (\<Sum>k\<leftarrow>ks. nat k) (pend (pipes n p) @ concat xss)) n' sch) \<and>
    pipe_ready p n' \<and> pend (pipes n' p) = drop (\<Sum>k\<leftarrow>ks. nat k) (pend (pipes n p) @ concat xss)"
proof -
  obtain t where t: "\<And>sch. write_all (pipewrite p) xss n sch = Ret () t sch" "pipe_ready p t"
      "pend (pipes t p) = pend (pipes n p) @ concat xss"
    using pp.write_all_run [OF assms(1), of xss] assms(2) by (auto simp del: length_pend)
  with pp.read_all_run [OF t(2), of ks] assms(3,4) show ?thesis by (auto simp del: length_pend)
qed

definition demo_pipe :: net where
  "demo_pipe = boot_net\<lparr>pipes := (\<lambda>_. boot_pipe\<lparr>nread := 0xffffffff, nwrite := 0xffffffff, readopen := True, writeopen := True\<rparr>)\<rparr>"

lemma demo_pipe_ready: "pipe_ready 4096 demo_pipe" "pend (pipes demo_pipe 4096) = []"
  by (simp_all add: pipe_ready_def demo_pipe_def pipe_held_def pipe_ok_def boot_pipe_def pend_def)

theorem pipe_fifo_witness:
  "\<exists>n'. (\<forall>sch. thn (write_all (pipewrite 4096) [[1, 2], [3]]) (read_all (piperead 4096) [1, 1]) demo_pipe sch =
      Ret [1, 2] n' sch) \<and> pend (pipes n' 4096) = [3]"
  using pipe_fifo [of 4096 demo_pipe "[[1, 2], [3]]" "[1, 1]"] demo_pipe_ready by auto

section \<open>Blocking\<close>

text \<open>C20: No wake-up is lost between a writer and a reader. A writer that finds the pipe full wakes the
  readers and sleeps on \<^verbatim>\<open>&p->nwrite\<close> with the lock released; a reader that then takes bytes wakes
  that channel last; and the writer, run again, finishes, if the reader took at least as many bytes as the
  writer has: all its bytes are behind what the reader left.\<close>

theorem pipe_writer_resumes:
  assumes "pipe_ready p n" "length (pend (pipes n p)) = 512" "readopen (pipes n p)" "\<not> n_killed n"
    and "xs \<noteq> []" "length xs \<le> nat k" "nat k \<le> 512"
  shows "\<exists>n1 n2. pipewrite p xs n [] = Asleep (nwrite_chan p) n1 \<and> nread_chan p \<in> set (woken n1) \<and> \<not> pipe_held p n1 \<and>
    (\<forall>sch. piperead p k n1 sch = Ret (k, take (nat k) (pend (pipes n p))) n2 sch) \<and> last (woken n2) = nwrite_chan p \<and>
    (\<forall>sch. \<exists>n3. pipewrite p xs n ((\<lambda>_. n2) # sch) = Ret (int (length xs)) n3 sch \<and> pipe_ready p n3 \<and>
       pend (pipes n3 p) = drop (nat k) (pend (pipes n p)) @ xs)"
proof -
  obtain c cs where xs: "xs = c # cs" using assms(5) by (cases xs) auto
  let ?w = "n\<lparr>woken := woken n @ [nread_chan p]\<rparr>"
  have lk: "\<not> p_lock (pipes n p)" and ok: "pipe_ok (pipes n p)" using assms(1) by (simp_all add: pipe_ready_def pipe_held_def)
  have nf: "nwrite (pipes n p) = nread (pipes n p) + 512" using assms(2) by (simp add: full_iff)
  have unl: "(pipe_upd p (\<lambda>q. q\<lparr>p_lock := False\<rparr>) n) = n"
  proof -
    have "(pipes n p)\<lparr>p_lock := False\<rparr> = pipes n p" using lk by (cases "pipes n p") simp
    then show ?thesis by (simp add: pipe_upd_def)
  qed
  have sleep: "pipewrite p xs n [] = Asleep (nwrite_chan p) ?w"
    using lk nf assms(3,4) unl by (simp add: pipewrite_def xs pipe_lock_defs pipe_full_def)
  have k: "int (length (take (nat k) (pend (pipes n p)))) = k" using assms(2,6,7) xs by (simp del: length_pend)
  have ne: "pend (pipes n p) \<noteq> []" using assms(2) by (metis list.size(3) zero_neq_numeral)
  have "\<not> pipe_held p ?w" "pipe_ok (pipes ?w p)" using lk ok by (simp_all add: pipe_held_def)
  from piperead_ready [OF this, of k] ne k obtain n2 where
    n2: "\<And>sch. piperead p k ?w sch = Ret (k, take (nat k) (pend (pipes n p))) n2 sch" "pend (pipes n2 p) = drop (nat k) (pend (pipes n p))"
      "pipe_ok (pipes n2 p)" "\<not> pipe_held p n2" "woken n2 = woken n @ [nread_chan p, nwrite_chan p]"
    by auto
  have room: "length (pend (pipes n2 p)) + length xs \<le> 512" using n2(2) assms(2,6,7) by (simp del: length_pend)
  obtain n3 where n3: "\<And>sch. pipewrite p xs n2 sch = Ret (int (length xs)) n3 sch" "pend (pipes n3 p) = drop (nat k) (pend (pipes n p)) @ xs"
      "pipe_ready p n3"
    using pipewrite_room [OF n2(4,3) room] n2(2) by (auto simp: pipe_ready_def)
  have again: "pipewrite p xs n ((\<lambda>_. n2) # sch) = pipewrite p xs n2 sch" for sch
    using lk nf assms(3,4) unl n2(4) by (simp add: pipewrite_def xs pipe_lock_defs pipe_full_def)
  show ?thesis
    using sleep lk n2 n3 again by (intro exI [of _ ?w] exI [of _ n2]) (auto simp: pipe_held_def)
qed

definition demo_full :: net where
  "demo_full = boot_net\<lparr>pipes := (\<lambda>_. boot_pipe\<lparr>nwrite := 512, readopen := True, writeopen := True\<rparr>)\<rparr>"

theorem pipe_writer_resumes_witness:
  "\<exists>n1 n2 n3. pipewrite 4096 [7] demo_full [] = Asleep (nwrite_chan 4096) n1 \<and>
     piperead 4096 2 n1 [] = Ret (2, take (nat 2) (pend (pipes demo_full 4096))) n2 [] \<and>
     pipewrite 4096 [7] demo_full [\<lambda>_. n2] = Ret (int (length [7 :: uchar])) n3 [] \<and>
     pend (pipes n3 4096) = drop (nat 2) (pend (pipes demo_full 4096)) @ [7]"
proof -
  have "pipe_ready 4096 demo_full" "length (pend (pipes demo_full 4096)) = 512" "readopen (pipes demo_full 4096)" "\<not> n_killed demo_full"
    by (simp_all add: pipe_ready_def demo_full_def pipe_held_def pipe_ok_def boot_pipe_def boot_net_def)
  moreover have "[7 :: uchar] \<noteq> []" "length [7 :: uchar] \<le> nat 2" "nat 2 \<le> 512" by simp_all
  ultimately show ?thesis using pipe_writer_resumes [of 4096 demo_full "[7]" 2] by blast
qed

end
