(* ===== verification/Bio.thy ===== *)
theory Bio
  imports FsState
begin

text \<open>
  The buffer cache (\<^verbatim>\<open>src/bio.c\<close>) over the memory disk driver (\<^verbatim>\<open>src/memide.c\<close>).

  The cache is a table of \<open>NBUF\<close> buffers on a doubly linked list in order of their last release.
  The list is modelled as the code has it, by the fields \<open>b_prev\<close> and \<open>b_next\<close> of the buffers and
  of the head; \<open>walk\<close> follows the links, with the number of list cells as its bound.

  Shown here:
  \<^item> the links always form one ring through all buffers (\<open>ring\<close>), so following them terminates
    and finds what a search of the list of buffers finds; releasing a buffer moves it to the
    front (\<open>brelse_links\<close>);
  \<^item> no two buffers ever hold the same block, whatever happens while the code sleeps.
\<close>

section \<open>The memory disk\<close>

definition blk :: "nat \<Rightarrow> fsys \<Rightarrow> sleeplock" where
  "blk i s = b_lock (bufs s ! i)"

definition buf_upd :: "nat \<Rightarrow> (buf \<Rightarrow> buf) \<Rightarrow> fsys \<Rightarrow> fsys" where
  "buf_upd i f s = s\<lparr>bufs := (bufs s)[i := f (bufs s ! i)]\<rparr>"

definition blk_put :: "nat \<Rightarrow> (sleeplock \<Rightarrow> sleeplock) \<Rightarrow> fsys \<Rightarrow> fsys" where
  "blk_put i f = buf_upd i (b_lock_update f)"

definition buf_chan :: "nat \<Rightarrow> chan" where
  "buf_chan i = Chan ''buffer'' i"

abbreviation buf_hold :: "nat \<Rightarrow> bool fm" where
  "buf_hold i \<equiv> holdingsleep (blk i) (blk_put i) my_pid"

definition ideinit :: "(uint32 \<Rightarrow> bytes) \<Rightarrow> uint32 \<Rightarrow> unit fm" where
  "ideinit img bytes_in_img = upd (\<lambda>s. s\<lparr>memdisk := img, disksize := bytes_in_img div 512\<rparr>)"

definition disk_put :: "uint32 \<Rightarrow> bytes \<Rightarrow> fsys \<Rightarrow> fsys" where
  "disk_put b d s = s\<lparr>memdisk := (memdisk s)(b := d), d_writes := d_writes s @ [(b, d)]\<rparr>"

definition iderw :: "nat \<Rightarrow> unit fm" where
  "iderw i =
     bnd (buf_hold i) (\<lambda>h.
     if \<not> h then panic ''iderw: buf not locked''
     else bnd (gets (\<lambda>s. bufs s ! i)) (\<lambda>b.
     if b_flags b AND (B_VALID OR B_DIRTY) = B_VALID then panic ''iderw: nothing to do''
     else if b_dev b \<noteq> 1 then panic ''iderw: request not for disk 1''
     else bnd (gets disksize) (\<lambda>ds.
     if ds \<le> b_blockno b then panic ''iderw: block out of range''
     else
       thn (if b_flags b AND B_DIRTY \<noteq> 0 then
              thn (upd (buf_upd i (\<lambda>b. b\<lparr>b_flags := b_flags b AND NOT B_DIRTY\<rparr>)))
                  (upd (disk_put (b_blockno b) (b_data b)))
            else upd (\<lambda>s. buf_upd i (\<lambda>b. b\<lparr>b_data := memdisk s (b_blockno b)\<rparr>) s))
       (upd (buf_upd i (\<lambda>b. b\<lparr>b_flags := b_flags b OR B_VALID\<rparr>))))))"

section \<open>The buffer cache\<close>

definition acquire_bcache :: "unit fm" where
  "acquire_bcache = lock_acquire bcache_lk bcache_lk_update"

definition release_bcache :: "unit fm" where
  "release_bcache = lock_release bcache_lk bcache_lk_update"

text \<open>\<^verbatim>\<open>binit\<close>: the links of the empty ring, then every buffer inserted behind the head.\<close>

definition set_next :: "nat \<Rightarrow> nat \<Rightarrow> fsys \<Rightarrow> fsys" where
  "set_next i j = buf_upd i (\<lambda>b. b\<lparr>b_next := j\<rparr>)"

definition set_prev :: "nat \<Rightarrow> nat \<Rightarrow> fsys \<Rightarrow> fsys" where
  "set_prev i j = buf_upd i (\<lambda>b. b\<lparr>b_prev := j\<rparr>)"

definition insert_front :: "nat \<Rightarrow> unit fm" where
  "insert_front i =
     thn (upd (\<lambda>s. set_next i (b_next (bufs s ! NBUF)) s))
     (thn (upd (set_prev i NBUF))
     (thn (upd (\<lambda>s. set_prev (b_next (bufs s ! NBUF)) i s))
     (upd (set_next NBUF i))))"

definition binit_step :: "nat \<Rightarrow> unit fm" where
  "binit_step i =
     thn (upd (\<lambda>s. set_next i (b_next (bufs s ! NBUF)) s))
     (thn (upd (set_prev i NBUF))
     (thn (upd (blk_put i (\<lambda>_. initsleeplock)))
     (thn (upd (\<lambda>s. set_prev (b_next (bufs s ! NBUF)) i s))
     (upd (set_next NBUF i)))))"

definition binit :: "unit fm" where
  "binit =
     thn (upd (\<lambda>s. s\<lparr>bcache_lk := False\<rparr>))
     (thn (upd (set_prev NBUF NBUF))
     (thn (upd (set_next NBUF NBUF))
     (seqk (map binit_step [0..<NBUF]))))"

text \<open>\<^verbatim>\<open>for(b = start; b != &bcache.head; b = b->link) if(P(b)) ...\<close>\<close>

fun walk :: "nat \<Rightarrow> (buf \<Rightarrow> nat) \<Rightarrow> (buf \<Rightarrow> bool) \<Rightarrow> buf list \<Rightarrow> nat \<Rightarrow> nat option option" where
  "walk 0 link P bs i = None"
| "walk (Suc k) link P bs i =
     (if i = NBUF then Some None
      else if P (bs ! i) then Some (Some i)
      else walk k link P bs (link (bs ! i)))"

definition bget :: "uint32 \<Rightarrow> uint32 \<Rightarrow> nat fm" where
  "bget dev blockno =
     thn acquire_bcache
     (bnd (gets bufs) (\<lambda>bs.
     case walk (Suc NBUF) b_next (\<lambda>b. b_dev b = dev \<and> b_blockno b = blockno) bs (b_next (bs ! NBUF)) of
       None \<Rightarrow> spin
     | Some (Some i) \<Rightarrow>
         thn (upd (buf_upd i (\<lambda>b. b\<lparr>b_refcnt := b_refcnt b + 1\<rparr>)))
         (thn release_bcache
         (thn (acquiresleep (blk i) (blk_put i) my_pid (buf_chan i))
         (ret i)))
     | Some None \<Rightarrow>
         (case walk (Suc NBUF) b_prev (\<lambda>b. b_refcnt b = 0 \<and> b_flags b AND B_DIRTY = 0) bs (b_prev (bs ! NBUF)) of
            None \<Rightarrow> spin
          | Some (Some i) \<Rightarrow>
              thn (upd (buf_upd i (\<lambda>b. b\<lparr>b_dev := dev, b_blockno := blockno, b_flags := 0, b_refcnt := 1\<rparr>)))
              (thn release_bcache
              (thn (acquiresleep (blk i) (blk_put i) my_pid (buf_chan i))
              (ret i)))
          | Some None \<Rightarrow> panic ''bget: no buffers'')))"

definition bread :: "uint32 \<Rightarrow> uint32 \<Rightarrow> nat fm" where
  "bread dev blockno =
     bnd (bget dev blockno) (\<lambda>i.
     bnd (gets (\<lambda>s. bufs s ! i)) (\<lambda>b.
     thn (if b_flags b AND B_VALID = 0 then iderw i else ret ())
     (ret i)))"

definition bwrite :: "nat \<Rightarrow> unit fm" where
  "bwrite i =
     bnd (buf_hold i) (\<lambda>h.
     if \<not> h then panic ''bwrite''
     else thn (upd (buf_upd i (\<lambda>b. b\<lparr>b_flags := b_flags b OR B_DIRTY\<rparr>))) (iderw i))"

definition unlink :: "nat \<Rightarrow> unit fm" where
  "unlink i =
     thn (upd (\<lambda>s. set_prev (b_next (bufs s ! i)) (b_prev (bufs s ! i)) s))
     (upd (\<lambda>s. set_next (b_prev (bufs s ! i)) (b_next (bufs s ! i)) s))"

definition brelse :: "nat \<Rightarrow> unit fm" where
  "brelse i =
     bnd (buf_hold i) (\<lambda>h.
     if \<not> h then panic ''brelse''
     else
       thn (releasesleep (blk i) (blk_put i) f_wake (buf_chan i))
       (thn acquire_bcache
       (thn (upd (buf_upd i (\<lambda>b. b\<lparr>b_refcnt := b_refcnt b - 1\<rparr>)))
       (bnd (gets (\<lambda>s. b_refcnt (bufs s ! i))) (\<lambda>r.
       thn (if r = 0 then thn (unlink i) (insert_front i) else ret ())
       release_bcache)))))"

section \<open>The table of buffers\<close>

lemma buf_upd_fields [simp]:
  "bufs (buf_upd i f s) = (bufs s)[i := f (bufs s ! i)]" "memdisk (buf_upd i f s) = memdisk s"
  "disksize (buf_upd i f s) = disksize s" "d_writes (buf_upd i f s) = d_writes s"
  "bcache_lk (buf_upd i f s) = bcache_lk s" "log_lk (buf_upd i f s) = log_lk s" "lg (buf_upd i f s) = lg s"
  "sb (buf_upd i f s) = sb s" "icache_lk (buf_upd i f s) = icache_lk s" "inodes (buf_upd i f s) = inodes s"
  "my_pid (buf_upd i f s) = my_pid s" "my_cwd (buf_upd i f s) = my_cwd s" "f_woken (buf_upd i f s) = f_woken s"
  by (simp_all add: buf_upd_def)

lemma buf_upd_buf_upd: "i < length (bufs s) \<Longrightarrow> buf_upd i f (buf_upd i g s) = buf_upd i (\<lambda>b. f (g b)) s"
  by (simp add: buf_upd_def)

lemma buf_upd_cong: "f (bufs s ! i) = g (bufs s ! i) \<Longrightarrow> buf_upd i f s = buf_upd i g s"
  by (simp add: buf_upd_def)

lemma buf_upd_id: "f (bufs s ! i) = bufs s ! i \<Longrightarrow> buf_upd i f s = s"
  by (simp add: buf_upd_def)

lemma buf_upd_lk: "buf_upd i f (s\<lparr>bcache_lk := l\<rparr>) = (buf_upd i f s)\<lparr>bcache_lk := l\<rparr>"
  by (simp add: buf_upd_def)

lemma b_lock_update_cong: "f (b_lock b) = g (b_lock b) \<Longrightarrow> b_lock_update f b = b_lock_update g b"
  by (cases b) simp

lemma b_lock_update_id: "f (b_lock b) = b_lock b \<Longrightarrow> b_lock_update f b = b"
  by (cases b) simp

interpretation bl: lock_view "\<lambda>s. i < length (bufs s)" "blk i" "blk_put i" my_pid f_wake for i
  by unfold_locales (auto simp: blk_def blk_put_def f_wake_def buf_upd_def comp_def b_lock_update_id
      dest: b_lock_update_cong)

section \<open>The ring of buffers\<close>

text \<open>\<open>path nx pv a xs b\<close>: following \<open>nx\<close> from \<open>a\<close> leads through \<open>xs\<close> to \<open>b\<close>, and \<open>pv\<close> leads back.\<close>

fun path :: "(nat \<Rightarrow> nat) \<Rightarrow> (nat \<Rightarrow> nat) \<Rightarrow> nat \<Rightarrow> nat list \<Rightarrow> nat \<Rightarrow> bool" where
  "path nx pv a [] b \<longleftrightarrow> nx a = b \<and> pv b = a"
| "path nx pv a (x # xs) b \<longleftrightarrow> nx a = x \<and> pv x = a \<and> path nx pv x xs b"

lemma path_append: "path nx pv a (us @ x # vs) b \<longleftrightarrow> path nx pv a us x \<and> path nx pv x vs b"
  by (induction us arbitrary: a) auto

lemma path_rev: "path nx pv a xs b \<Longrightarrow> path pv nx b (rev xs) a"
  by (induction xs arbitrary: a) (auto simp: path_append)

lemma path_cong:
  "(\<And>x. x \<in> insert a (set xs) \<Longrightarrow> nx' x = nx x) \<Longrightarrow> (\<And>x. x \<in> insert b (set xs) \<Longrightarrow> pv' x = pv x) \<Longrightarrow>
   path nx' pv' a xs b = path nx pv a xs b"
  by (induction xs arbitrary: a) auto

lemma path_redirect:
  "path nx pv a us x \<Longrightarrow> distinct (a # us) \<Longrightarrow> c \<notin> set us \<Longrightarrow> path (nx(pv x := c)) (pv(c := pv x)) a us c"
proof (induction us arbitrary: a)
  case (Cons u us)
  then have "path (nx(pv x := c)) (pv(c := pv x)) u us c"
    using Cons.IH [of u] by (simp del: fun_upd_apply)
  moreover have "pv x \<noteq> a"
    using Cons.prems path_rev [of nx pv u us x] by (cases us rule: rev_cases) (auto simp: path_append)
  ultimately show ?case using Cons.prems by (auto simp: fun_upd_def)
qed auto

lemma path_unlink:
  assumes p: "path nx pv H (us @ i # vs) H" and d: "distinct (H # us @ i # vs)"
  shows "path (nx(pv i := nx i)) (pv(nx i := pv i)) H (us @ vs) H"
proof -
  have pu: "path nx pv H us i" and pi: "path nx pv i vs H" using p by (simp_all add: path_append)
  have last: "pv i \<in> set (H # us)"
    using pu by (cases us rule: rev_cases) (auto simp: path_append)
  show ?thesis
  proof (cases vs)
    case Nil
    then have "nx i = H" using pi by simp
    then show ?thesis using path_redirect [OF pu, of H] d Nil by simp
  next
    case (Cons v ws)
    then have v: "nx i = v" "path nx pv v ws H" using pi by auto
    have "path (nx(pv i := v)) (pv(v := pv i)) v ws H = path nx pv v ws H"
      using d last Cons by (intro path_cong) auto
    then show ?thesis using path_redirect [OF pu, of v] d Cons v by (auto simp: path_append)
  qed
qed

lemma path_push:
  assumes p: "path nx pv H ws H" and d: "distinct (H # i # ws)"
  shows "path (nx(i := nx H, H := i)) (pv(i := H, nx H := i)) H (i # ws) H"
proof (cases ws)
  case Nil
  then show ?thesis using p d by auto
next
  case (Cons w vs)
  then have w: "nx H = w" "path nx pv w vs H" using p by auto
  have "path (nx(i := nx H, H := i)) (pv(i := H, nx H := i)) w vs H = path nx pv w vs H"
    using d w Cons by (intro path_cong) auto
  then show ?thesis using d w Cons by auto
qed

definition nxt :: "fsys \<Rightarrow> nat \<Rightarrow> nat" where "nxt s i = b_next (bufs s ! i)"

definition prv :: "fsys \<Rightarrow> nat \<Rightarrow> nat" where "prv s i = b_prev (bufs s ! i)"

abbreviation links :: "fsys \<Rightarrow> nat list \<Rightarrow> bool" where
  "links s xs \<equiv> path (nxt s) (prv s) NBUF xs NBUF"

definition ring :: "fsys \<Rightarrow> nat list \<Rightarrow> bool" where
  "ring s xs \<longleftrightarrow> length (bufs s) = Suc NBUF \<and> distinct xs \<and> set xs = {..<NBUF} \<and> links s xs"

lemma walk_path:
  "path (\<lambda>i. link (bs ! i)) pv a xs NBUF \<Longrightarrow> NBUF \<notin> set xs \<Longrightarrow> length xs < k \<Longrightarrow>
   walk k link P bs (link (bs ! a)) = Some (find (\<lambda>i. P (bs ! i)) xs)"
proof (induction xs arbitrary: a k)
  case Nil
  then show ?case by (cases k) auto
next
  case (Cons x xs)
  then obtain k' where k: "k = Suc k'" "length xs < k'" by (cases k) auto
  then show ?case using Cons.IH [of x k'] Cons.prems by auto
qed

lemma length_ring: "ring s xs \<Longrightarrow> length xs = NBUF"
  by (metis card_lessThan distinct_card ring_def)

lemma walk_next:
  assumes "ring s xs"
  shows "walk (Suc NBUF) b_next P (bufs s) (b_next (bufs s ! NBUF)) = Some (find (\<lambda>i. P (bufs s ! i)) xs)"
proof -
  have "path (\<lambda>i. b_next (bufs s ! i)) (prv s) NBUF xs NBUF"
    using assms by (simp add: ring_def nxt_def cong: path_cong)
  then show ?thesis using assms length_ring [OF assms]
    by (intro walk_path) (auto simp: ring_def)
qed

lemma walk_prev:
  assumes "ring s xs"
  shows "walk (Suc NBUF) b_prev P (bufs s) (b_prev (bufs s ! NBUF)) = Some (find (\<lambda>i. P (bufs s ! i)) (rev xs))"
proof -
  have "path (\<lambda>i. b_prev (bufs s ! i)) (nxt s) NBUF (rev xs) NBUF"
    using assms path_rev [of "nxt s" "prv s" NBUF xs NBUF] by (simp add: ring_def prv_def cong: path_cong)
  then show ?thesis using assms length_ring [OF assms]
    by (intro walk_path) (auto simp: ring_def)
qed

lemma path_range:
  "path nx pv a xs b \<Longrightarrow> x \<in> insert a (set xs) \<Longrightarrow> nx x \<in> insert b (set xs)"
  by (induction xs arbitrary: a) auto

lemma ring_links: "ring s xs \<Longrightarrow> links s xs" "ring s xs \<Longrightarrow> path (prv s) (nxt s) NBUF (rev xs) NBUF"
  by (simp_all add: ring_def path_rev)

lemma ring_table: "ring s xs \<Longrightarrow> length (bufs s) = Suc NBUF" and ring_mem: "ring s xs \<Longrightarrow> set xs = {..<NBUF}"
  by (simp_all add: ring_def)

lemma ring_set:
  assumes "ring s xs"
  shows "insert NBUF (set xs) = {..NBUF}"
proof -
  have "set xs = {..<NBUF}" using assms by (simp add: ring_def)
  then show ?thesis by (simp add: lessThan_Suc_atMost [symmetric] lessThan_Suc)
qed

lemma ring_next: "ring s xs \<Longrightarrow> i \<le> NBUF \<Longrightarrow> nxt s i \<le> NBUF"
  using path_range [OF ring_links(1), of s xs i] ring_set [of s xs] by blast

lemma ring_prev: "ring s xs \<Longrightarrow> i \<le> NBUF \<Longrightarrow> prv s i \<le> NBUF"
  using path_range [OF ring_links(2), of s xs i] ring_set [of s xs] by simp

lemma ring_cong:
  assumes "ring s xs" "length (bufs t) = length (bufs s)"
    "\<And>i. i < length (bufs s) \<Longrightarrow> b_next (bufs t ! i) = b_next (bufs s ! i) \<and> b_prev (bufs t ! i) = b_prev (bufs s ! i)"
  shows "ring t xs"
proof -
  have "links t xs = links s xs"
    using assms by (intro path_cong) (auto simp: nxt_def prv_def ring_def)
  with assms show ?thesis by (simp add: ring_def)
qed

text \<open>A buffer without its links.\<close>

definition core :: "buf \<Rightarrow> buf" where
  "core b = b\<lparr>b_prev := 0, b_next := 0\<rparr>"

lemma core_link [simp]: "core (b\<lparr>b_next := v\<rparr>) = core b" "core (b\<lparr>b_prev := v\<rparr>) = core b"
  by (cases b; simp add: core_def)+

text \<open>\<open>relinked s t\<close>: the two states differ at most in the links.\<close>

definition relinked :: "fsys \<Rightarrow> fsys \<Rightarrow> bool" where
  "relinked s t \<longleftrightarrow> t = s\<lparr>bufs := bufs t\<rparr> \<and> length (bufs t) = length (bufs s) \<and>
     (\<forall>j<length (bufs s). core (bufs t ! j) = core (bufs s ! j))"

lemma relinked_trans: "relinked s t \<Longrightarrow> relinked t u \<Longrightarrow> relinked s u"
  by (cases s; cases t; cases u) (auto simp: relinked_def)

lemma relinked_set [simp, intro]: "relinked s (set_next k v s)" "relinked s (set_prev k v s)"
  by (auto simp: relinked_def set_next_def set_prev_def buf_upd_def nth_upd)

lemma relinked_refl [simp]: "relinked s s"
  by (simp add: relinked_def)

lemma relinked_step: "relinked s t \<Longrightarrow> relinked s (set_next k v t)" "relinked s t \<Longrightarrow> relinked s (set_prev k v t)"
  using relinked_trans relinked_set by blast+

lemma length_set_link [simp]:
  "length (bufs (set_next k v s)) = length (bufs s)" "length (bufs (set_prev k v s)) = length (bufs s)"
  by (simp_all add: set_next_def set_prev_def)

lemma link_set [simp]:
  "k < length (bufs s) \<Longrightarrow> nxt (set_next k v s) = (nxt s)(k := v)"
  "k < length (bufs s) \<Longrightarrow> prv (set_prev k v s) = (prv s)(k := v)"
  "k < length (bufs s) \<Longrightarrow> nxt (set_prev k v s) = nxt s"
  "k < length (bufs s) \<Longrightarrow> prv (set_next k v s) = prv s"
  by (auto simp: fun_eq_iff nth_list_update set_next_def set_prev_def nxt_def prv_def)

lemma unlink_ring:
  assumes r: "ring s xs" and i: "i < NBUF"
  obtains s' where "\<And>sch. unlink i s sch = Ret () s' sch" "relinked s s'" "links s' (remove1 i xs)"
proof -
  obtain us vs where xs: "xs = us @ i # vs" using r i by (metis lessThan_iff ring_def split_list)
  have d: "distinct (NBUF # us @ i # vs)" using r by (auto simp: ring_def xs)
  have pth: "links s (us @ i # vs)" using r by (simp add: ring_def xs)
  have le: "nxt s i < length (bufs s)" "prv s i < length (bufs s)"
    using ring_next [OF r, of i] ring_prev [OF r, of i] i r by (simp_all add: ring_def)
  have ni: "nxt s i \<noteq> i" using pth d by (cases vs) (auto simp: path_append)
  define t where "t = set_prev (nxt s i) (prv s i) s"
  have t: "nxt t = nxt s" "prv t i = prv s i" "prv t = (prv s)(nxt s i := prv s i)" "length (bufs t) = length (bufs s)"
    using le ni by (simp_all add: t_def)
  have run: "unlink i s sch = Ret () (set_next (prv s i) (nxt s i) t) sch" for sch
    using t(1,2) by (simp add: unlink_def flip: nxt_def prv_def t_def)
  have "links (set_next (prv s i) (nxt s i) t) (us @ vs)"
    using path_unlink [OF pth d] le t by simp
  moreover have "remove1 i xs = us @ vs" using d by (simp add: xs remove1_append)
  moreover have "relinked s (set_next (prv s i) (nxt s i) t)"
    unfolding t_def by (intro relinked_step relinked_refl)
  ultimately show thesis using that run by simp
qed

lemma insert_front_ring:
  assumes l: "links s ws" and len: "length (bufs s) = Suc NBUF" and d: "distinct (NBUF # i # ws)"
    and i: "i < NBUF" and ws: "set ws \<subseteq> {..<NBUF}"
  obtains s' where "\<And>sch. insert_front i s sch = Ret () s' sch" "relinked s s'" "links s' (i # ws)"
proof -
  have le: "nxt s NBUF < length (bufs s)" using path_range [OF l, of NBUF] ws len by auto
  define t where "t = set_prev i NBUF (set_next i (nxt s NBUF) s)"
  have t: "nxt t NBUF = nxt s NBUF" "nxt t = (nxt s)(i := nxt s NBUF)" "prv t = (prv s)(i := NBUF)"
    "length (bufs t) = length (bufs s)"
    using i len by (simp_all add: t_def)
  define s' where "s' = set_next NBUF i (set_prev (nxt s NBUF) i t)"
  have run: "insert_front i s sch = Ret () s' sch" for sch
    using t(1) by (simp add: insert_front_def s'_def flip: nxt_def t_def)
  have "links s' (i # ws)"
    using path_push [OF l d] le t len by (simp add: s'_def del: path.simps)
  moreover have "relinked s s'" unfolding s'_def t_def by (intro relinked_step relinked_refl)
  ultimately show thesis using that run by blast
qed

lemma to_front:
  assumes r: "ring s xs" and i: "i < NBUF"
  obtains s' where "\<And>sch. thn (unlink i) (insert_front i) s sch = Ret () s' sch" "relinked s s'"
    "ring s' (i # remove1 i xs)"
proof -
  obtain t where t: "\<And>sch. unlink i s sch = Ret () t sch" "relinked s t" "links t (remove1 i xs)"
    using unlink_ring [OF r i] by blast
  have len: "length (bufs t) = Suc NBUF" using t(2) r by (simp add: relinked_def ring_def)
  have d: "distinct (NBUF # i # remove1 i xs)" "set (remove1 i xs) \<subseteq> {..<NBUF}"
    using r i by (auto simp: ring_def)
  obtain u where u: "\<And>sch. insert_front i t sch = Ret () u sch" "relinked t u" "links u (i # remove1 i xs)"
    using insert_front_ring [OF t(3) len d(1) i d(2)] by blast
  have "ring u (i # remove1 i xs)"
    using u(2,3) len d r i by (auto simp: ring_def relinked_def)
  then show thesis using that [of u] t(1) u(1) relinked_trans [OF t(2) u(2)] by simp
qed

section \<open>One buffer per block\<close>

definition unique_bufs :: "fsys \<Rightarrow> bool" where
  "unique_bufs s \<longleftrightarrow> (\<forall>i<NBUF. \<forall>j<NBUF.
     b_dev (bufs s ! i) \<noteq> 0 \<and> b_dev (bufs s ! i) = b_dev (bufs s ! j) \<and> b_blockno (bufs s ! i) = b_blockno (bufs s ! j) \<longrightarrow>
     i = j)"

definition cache_inv :: "fsys \<Rightarrow> bool" where
  "cache_inv s \<longleftrightarrow> (\<exists>xs. ring s xs) \<and> unique_bufs s"

lemma unique_cong:
  "(\<And>i. i < NBUF \<Longrightarrow> b_dev (bufs t ! i) = b_dev (bufs s ! i) \<and> b_blockno (bufs t ! i) = b_blockno (bufs s ! i)) \<Longrightarrow>
   unique_bufs t = unique_bufs s"
  by (simp add: unique_bufs_def)

lemma core_fields:
  assumes "core b = core c"
  shows "b_dev b = b_dev c" "b_blockno b = b_blockno c" "b_flags b = b_flags c" "b_lock b = b_lock c"
    "b_refcnt b = b_refcnt c" "b_data b = b_data c"
  using assms by (cases b; cases c; simp add: core_def)+

lemma cache_inv_other [simp]:
  "cache_inv (s\<lparr>bcache_lk := l\<rparr>) = cache_inv s" "cache_inv (f_wake c s) = cache_inv s" "cache_inv (disk_put b d s) = cache_inv s"
proof -
  have "ring (s\<lparr>bcache_lk := l\<rparr>) = ring s" "ring (f_wake c s) = ring s" "ring (disk_put b d s) = ring s"
    by (auto simp: ring_def f_wake_def disk_put_def nxt_def [abs_def] prv_def [abs_def] fun_eq_iff)
  then show "cache_inv (s\<lparr>bcache_lk := l\<rparr>) = cache_inv s" "cache_inv (f_wake c s) = cache_inv s" "cache_inv (disk_put b d s) = cache_inv s"
    by (simp_all add: cache_inv_def unique_bufs_def f_wake_def disk_put_def)
qed

lemma ring_buf_upd:
  "ring s xs \<Longrightarrow> b_next (f (bufs s ! i)) = b_next (bufs s ! i) \<Longrightarrow> b_prev (f (bufs s ! i)) = b_prev (bufs s ! i) \<Longrightarrow>
   ring (buf_upd i f s) xs"
  by (erule ring_cong) (auto simp: nth_upd)

lemma cache_inv_buf_upd:
  assumes "cache_inv s" "b_next (f (bufs s ! i)) = b_next (bufs s ! i)" "b_prev (f (bufs s ! i)) = b_prev (bufs s ! i)"
    "b_dev (f (bufs s ! i)) = b_dev (bufs s ! i)" "b_blockno (f (bufs s ! i)) = b_blockno (bufs s ! i)"
  shows "cache_inv (buf_upd i f s)"
proof -
  obtain xs where r: "ring s xs" using assms(1) by (auto simp: cache_inv_def)
  have "unique_bufs (buf_upd i f s) = unique_bufs s"
    using assms(4,5) ring_table [OF r] by (intro unique_cong) (auto simp: nth_upd)
  with assms ring_buf_upd [OF r, of f i] show ?thesis by (auto simp: cache_inv_def)
qed

lemma cache_inv_blk_put: "cache_inv s \<Longrightarrow> cache_inv (blk_put i f s)"
  unfolding blk_put_def by (rule cache_inv_buf_upd) simp_all

lemma keeps_blk:
  "keeps cache_inv (acquiresleep (blk i) (blk_put i) my_pid ch)" "keeps cache_inv (buf_hold i)"
  "keeps cache_inv (releasesleep (blk i) (blk_put i) f_wake ch)"
  by (rule keeps_sleeplock; simp add: cache_inv_blk_put)+

lemmas keeps_cache = keeps_rules keeps_upd keeps_blk keeps_lock_acquire keeps_lock_release

lemma keeps_iderw: "keeps cache_inv (iderw i)"
  unfolding iderw_def
  by (intro keeps_cache; (simp; fail)?; erule cache_inv_buf_upd; simp)

lemma keeps_bwrite: "keeps cache_inv (bwrite i)"
  unfolding bwrite_def
  by (intro keeps_cache keeps_iderw; (simp; fail)?; erule cache_inv_buf_upd; simp)

text \<open>Giving a buffer to a block that no buffer holds.\<close>

lemma cache_inv_claim:
  assumes "cache_inv s" "\<forall>j<NBUF. b_dev (bufs s ! j) = dev \<longrightarrow> b_blockno (bufs s ! j) \<noteq> blockno"
  shows "cache_inv (buf_upd i (\<lambda>b. b\<lparr>b_dev := dev, b_blockno := blockno, b_flags := 0, b_refcnt := 1\<rparr>) s)"
proof -
  obtain xs where r: "ring s xs" and u: "unique_bufs s" using assms(1) by (auto simp: cache_inv_def)
  have len: "length (bufs s) = Suc NBUF" using r by (simp add: ring_def)
  have "unique_bufs (buf_upd i (\<lambda>b. b\<lparr>b_dev := dev, b_blockno := blockno, b_flags := 0, b_refcnt := 1\<rparr>) s)"
    unfolding unique_bufs_def
  proof (intro allI impI)
    fix k j
    let ?bs = "bufs (buf_upd i (\<lambda>b. b\<lparr>b_dev := dev, b_blockno := blockno, b_flags := 0, b_refcnt := 1\<rparr>) s)"
    assume k: "k < NBUF" and j: "j < NBUF"
      and e: "b_dev (?bs ! k) \<noteq> 0 \<and> b_dev (?bs ! k) = b_dev (?bs ! j) \<and> b_blockno (?bs ! k) = b_blockno (?bs ! j)"
    show "k = j"
    proof (cases "i = k \<or> i = j")
      case True
      then show ?thesis using e k j assms(2) len by (auto simp: nth_upd split: if_splits)
    next
      case False
      then show ?thesis using e k j u len by (auto simp: nth_upd unique_bufs_def)
    qed
  qed
  moreover have "ring (buf_upd i (\<lambda>b. b\<lparr>b_dev := dev, b_blockno := blockno, b_flags := 0, b_refcnt := 1\<rparr>) s) xs"
    by (rule ring_buf_upd [OF r]) simp_all
  ultimately show ?thesis by (auto simp: cache_inv_def)
qed

lemma find_ring_None:
  "ring s xs \<Longrightarrow> find (\<lambda>i. P (bufs s ! i)) xs = None \<longleftrightarrow> (\<forall>j<NBUF. \<not> P (bufs s ! j))"
  by (auto simp: find_None_iff dest: ring_mem)

lemma keeps_bget: "keeps cache_inv (bget dev blockno)"
proof (rule keepsI)
  fix s sch assume inv: "cache_inv s" and env: "env_keeps cache_inv sch"
  let ?s = "s\<lparr>bcache_lk := True\<rparr>"
  have inv': "cache_inv ?s" using inv by simp
  then obtain xs where r: "ring ?s xs" by (auto simp: cache_inv_def)
  let ?hit = "\<lambda>b. b_dev b = dev \<and> b_blockno b = blockno"
  let ?free = "\<lambda>b. b_refcnt b = 0 \<and> b_flags b AND B_DIRTY = 0"
  have tail: "okafter cache_inv (thn release_bcache (thn (acquiresleep (blk i) (blk_put i) my_pid (buf_chan i)) (ret i)) t sch)"
    if "cache_inv t" for i t
    using that env unfolding release_bcache_def by (intro keepsD [of cache_inv] keeps_cache) simp_all
  note walks = walk_next [OF r, of ?hit] walk_prev [OF r, of ?free]
  show "okafter cache_inv (bget dev blockno s sch)"
  proof (cases "bcache_lk s")
    case True
    then show ?thesis by (simp add: bget_def acquire_bcache_def)
  next
    case False
    show ?thesis
    proof (cases "find (\<lambda>i. ?hit (bufs ?s ! i)) xs")
      case (Some i)
      have "cache_inv (buf_upd i (\<lambda>b. b\<lparr>b_refcnt := b_refcnt b + 1\<rparr>) ?s)"
        by (rule cache_inv_buf_upd [OF inv']) simp_all
      from tail [OF this, of i] show ?thesis using False Some walks
        by (simp add: bget_def acquire_bcache_def)
    next
      case None
      then have "cache_inv (buf_upd i (\<lambda>b. b\<lparr>b_dev := dev, b_blockno := blockno, b_flags := 0, b_refcnt := 1\<rparr>) ?s)" for i
        using find_ring_None [OF r, of ?hit] by (intro cache_inv_claim [OF inv']) auto
      note claim = tail [OF this]
      show ?thesis using False None walks claim
        by (cases "find (\<lambda>i. ?free (bufs ?s ! i)) (rev xs)") (simp_all add: bget_def acquire_bcache_def)
    qed
  qed
qed

lemma keeps_bread: "keeps cache_inv (bread dev blockno)"
  unfolding bread_def by (intro keeps_cache keeps_bget keeps_iderw)

lemma relinked_core: "relinked s t \<Longrightarrow> j < length (bufs s) \<Longrightarrow> core (bufs t ! j) = core (bufs s ! j)"
  by (simp add: relinked_def)

lemma relinked_cache_inv:
  assumes "relinked s t" "ring t ys" "unique_bufs s" "length (bufs s) = Suc NBUF"
  shows "cache_inv t"
proof -
  have "unique_bufs t = unique_bufs s"
    using core_fields [OF relinked_core [OF assms(1)]] assms(4) by (intro unique_cong) simp
  with assms show ?thesis by (auto simp: cache_inv_def)
qed

lemma keeps_to_front: "i < NBUF \<Longrightarrow> keeps cache_inv (thn (unlink i) (insert_front i))"
proof (rule keepsI)
  fix s sch assume i: "i < NBUF" and "cache_inv s" and env: "env_keeps cache_inv sch"
  then obtain xs where r: "ring s xs" and u: "unique_bufs s" by (auto simp: cache_inv_def)
  obtain t where "\<And>sch. thn (unlink i) (insert_front i) s sch = Ret () t sch" "relinked s t" "ring t (i # remove1 i xs)"
    using to_front [OF r i] by blast
  then show "okafter cache_inv (thn (unlink i) (insert_front i) s sch)"
    using relinked_cache_inv [of s t] u ring_table [OF r] env by simp
qed

lemma keeps_brelse: "i < NBUF \<Longrightarrow> keeps cache_inv (brelse i)"
  unfolding brelse_def acquire_bcache_def release_bcache_def
  by (intro keeps_cache keeps_to_front; (simp; fail)?; erule cache_inv_buf_upd; simp)

section \<open>Initialisation\<close>

lemma buf_fields_commute:
  "b\<lparr>b_next := n, b_prev := p\<rparr>\<lparr>b_lock := l\<rparr> = b\<lparr>b_lock := l\<rparr>\<lparr>b_next := n, b_prev := p\<rparr>"
  by (cases b) simp

lemma binit_step_insert:
  assumes "i < NBUF" "length (bufs s) = Suc NBUF"
  shows "binit_step i s sch = insert_front i (blk_put i (\<lambda>_. initsleeplock) s) sch"
proof -
  have "blk_put i (\<lambda>_. initsleeplock) (set_prev i NBUF (set_next i v s)) =
      set_prev i NBUF (set_next i v (blk_put i (\<lambda>_. initsleeplock) s))" for v
    using assms by (simp add: blk_put_def set_next_def set_prev_def buf_upd_buf_upd)
      (rule buf_upd_cong, simp add: buf_fields_commute)
  moreover have "b_next (bufs (blk_put i f s) ! NBUF) = b_next (bufs s ! NBUF)" for f
    using assms by (simp add: blk_put_def)
  ultimately show ?thesis by (simp add: binit_step_def insert_front_def)
qed

text \<open>All buffers still unused, the first \<open>k\<close> of them on the list.\<close>

definition binit_inv :: "fsys \<Rightarrow> nat \<Rightarrow> fsys \<Rightarrow> bool" where
  "binit_inv s0 k s \<longleftrightarrow> length (bufs s) = Suc NBUF \<and> links s (rev [0..<k]) \<and> s = s0\<lparr>bcache_lk := False, bufs := bufs s\<rparr> \<and>
     (\<forall>j<NBUF. core (bufs s ! j) = (core (bufs s0 ! j))\<lparr>b_lock := (if j < k then initsleeplock else b_lock (bufs s0 ! j))\<rparr>)"

lemma core_lock: "core (b\<lparr>b_lock := l\<rparr>) = (core b)\<lparr>b_lock := l\<rparr>"
  by (cases b) (simp add: core_def)

lemma binit_step_inv:
  assumes inv: "binit_inv s0 k s" and k: "k < NBUF"
  obtains s' where "\<And>sch. binit_step k s sch = Ret () s' sch" "binit_inv s0 (Suc k) s'"
proof -
  define t where "t = blk_put k (\<lambda>_. initsleeplock) s"
  have len: "length (bufs s) = Suc NBUF" and l: "links s (rev [0..<k])" and e: "s = s0\<lparr>bcache_lk := False, bufs := bufs s\<rparr>"
    using inv by (simp_all add: binit_inv_def)
  have "links t (rev [0..<k]) = links s (rev [0..<k])"
    using len by (intro path_cong) (auto simp: t_def blk_put_def nxt_def prv_def nth_upd k)
  then have lt: "links t (rev [0..<k])" using l by simp
  have side: "length (bufs t) = Suc NBUF" "distinct (NBUF # k # rev [0..<k])" "set (rev [0..<k]) \<subseteq> {..<NBUF}"
    using len k by (auto simp: t_def blk_put_def)
  obtain u where u: "\<And>sch. insert_front k t sch = Ret () u sch" "relinked t u" "links u (k # rev [0..<k])"
    using insert_front_ring [OF lt side(1,2) k side(3)] by blast
  have "core (bufs u ! j) = (core (bufs s0 ! j))\<lparr>b_lock := (if j < Suc k then initsleeplock else b_lock (bufs s0 ! j))\<rparr>" if "j < NBUF" for j
  proof -
    have "core (bufs u ! j) = core (bufs t ! j)" using u(2) that len by (simp add: relinked_def t_def blk_put_def)
    also have "\<dots> = (if j = k then (core (bufs s ! j))\<lparr>b_lock := initsleeplock\<rparr> else core (bufs s ! j))"
      using that len by (auto simp: t_def blk_put_def nth_upd core_lock)
    finally show ?thesis using inv that by (auto simp: binit_inv_def less_Suc_eq)
  qed
  moreover have "u = s0\<lparr>bcache_lk := False, bufs := bufs u\<rparr>"
  proof -
    have "u = t\<lparr>bufs := bufs u\<rparr>" using u(2) by (simp add: relinked_def)
    also have "\<dots> = s\<lparr>bufs := bufs u\<rparr>" by (simp add: t_def blk_put_def buf_upd_def)
    also have "\<dots> = s0\<lparr>bcache_lk := False, bufs := bufs u\<rparr>" by (subst e) simp
    finally show ?thesis .
  qed
  moreover have "length (bufs u) = Suc NBUF" using u(2) len by (simp add: relinked_def t_def blk_put_def)
  ultimately have "binit_inv s0 (Suc k) u" using u(3) by (simp add: binit_inv_def)
  then show thesis using that [of u] u(1) binit_step_insert [OF k len] by (simp add: t_def)
qed

lemma binit_steps:
  "k \<le> NBUF \<Longrightarrow> binit_inv s0 0 s \<Longrightarrow> \<exists>s'. (\<forall>sch. seqk (map binit_step [0..<k]) s sch = Ret () s' sch) \<and> binit_inv s0 k s'"
proof (induction k)
  case (Suc k)
  then obtain t where t: "\<And>sch. seqk (map binit_step [0..<k]) s sch = Ret () t sch" "binit_inv s0 k t" by auto
  have app: "seqk (ms @ [m]) s sch = thn (seqk ms) m s sch" for ms :: "unit fm list" and m s sch
    by (induction ms arbitrary: s sch) (auto split: outcome.split)
  obtain u where "\<And>sch. binit_step k t sch = Ret () u sch" "binit_inv s0 (Suc k) u"
    using binit_step_inv [OF t(2)] Suc.prems(1) by auto
  then show ?case using t(1) by (intro exI [of _ u]) (simp add: app)
qed simp

lemma binit_run:
  assumes len: "length (bufs s0) = Suc NBUF"
  obtains s where "\<And>sch. binit s0 sch = Ret () s sch" "binit_inv s0 NBUF s"
proof -
  define t where "t = set_next NBUF NBUF (set_prev NBUF NBUF (s0\<lparr>bcache_lk := False\<rparr>))"
  have nx: "nxt t NBUF = NBUF" "prv t NBUF = NBUF" using len by (simp_all add: t_def)
  have "bufs t ! j = bufs s0 ! j" if "j < NBUF" for j
    using that by (simp add: t_def set_next_def set_prev_def)
  moreover have "(core b)\<lparr>b_lock := b_lock b\<rparr> = core b" for b by (cases b) (simp add: core_def)
  ultimately have "binit_inv s0 0 t"
    using len nx by (simp add: binit_inv_def) (simp add: t_def set_next_def set_prev_def buf_upd_def)
  then obtain s where "\<And>sch. seqk (map binit_step [0..<NBUF]) t sch = Ret () s sch" "binit_inv s0 NBUF s"
    using binit_steps [of NBUF s0 t] by auto
  then show thesis using that [of s] by (simp add: binit_def t_def)
qed

text \<open>C23: The buffer cache never holds a block twice. After \<^verbatim>\<open>binit\<close> the links form one ring through all
  buffers and no block is cached; from then on every \<^verbatim>\<open>bread\<close>, \<^verbatim>\<open>bwrite\<close> and \<^verbatim>\<open>brelse\<close> keeps the ring and
  the uniqueness, also while it sleeps, when the rest of the system runs operations that do.\<close>

theorem bcache_unique:
  assumes "length (bufs s0) = Suc NBUF" "\<forall>j<NBUF. b_dev (bufs s0 ! j) = 0"
  shows "(\<exists>s. binit s0 sch = Ret () s sch \<and> cache_inv s \<and> (\<exists>xs. ring s xs)) \<and>
    keeps cache_inv (bread dev blockno) \<and> keeps cache_inv (bwrite i) \<and> (i < NBUF \<longrightarrow> keeps cache_inv (brelse i))"
proof -
  obtain s where s: "\<And>sch. binit s0 sch = Ret () s sch" "binit_inv s0 NBUF s"
    using binit_run [OF assms(1)] by blast
  have "ring s (rev [0..<NBUF])" using s(2) by (auto simp: ring_def binit_inv_def)
  moreover have "b_dev (bufs s ! j) = 0" if "j < NBUF" for j
  proof -
    have "b_dev (core (bufs s ! j)) = b_dev (core (bufs s0 ! j))" using s(2) that by (simp add: binit_inv_def)
    then show ?thesis using assms(2) that by (simp add: core_def)
  qed
  then have "unique_bufs s" by (simp add: unique_bufs_def)
  ultimately show ?thesis
    using s(1) keeps_bread keeps_bwrite keeps_brelse by (auto simp: cache_inv_def)
qed

theorem bcache_unique_witness:
  "(\<exists>s. binit zero_fs [] = Ret () s [] \<and> cache_inv s \<and> (\<exists>xs. ring s xs)) \<and>
   keeps cache_inv (bread 1 2) \<and> keeps cache_inv (bwrite 3) \<and> keeps cache_inv (brelse 3)"
  using bcache_unique [of zero_fs "[]" 1 2 3] by (simp add: zero_fs_def zero_buf_def NBUF_def)

end
