(* ===== verification/Bcache.thy ===== *)
theory Bcache
  imports Bio
begin

text \<open>
  The contract of the buffer cache for the code above it (\<^verbatim>\<open>src/log.c\<close>, \<^verbatim>\<open>src/fs.c\<close>): the cache is
  transparent. \<open>content s b\<close> is what a reader of block \<open>b\<close> sees. In a state \<open>cinv H s\<close>, where this
  process has locked the buffers in \<open>H\<close> and all others are unused, \<open>bread\<close> locks a buffer with the
  content of the block, \<open>bwrite\<close> puts the content of a locked buffer on the disk and \<open>brelse\<close> gives
  the buffer back; the content of no block changes. The lemmas \<open>bread_spec\<close>, \<open>bwrite_spec\<close>,
  \<open>bmodify_spec\<close> and \<open>brelse_spec\<close> are what the proofs about the log and the inodes use.
\<close>

section \<open>What a reader sees\<close>

text \<open>The current content of a block of disk 1: the cached copy when there is a valid one, else the
  block on the disk; and the blocks whose cached copy has to be written.\<close>

definition content :: "fsys \<Rightarrow> uint32 \<Rightarrow> bytes" where
  "content s b = (case find_idx (\<lambda>c. b_dev c = 1 \<and> b_blockno c = b \<and> is_valid c) (take NBUF (bufs s)) of
     Some i \<Rightarrow> b_data (bufs s ! i) | None \<Rightarrow> memdisk s b)"

definition dirty_blocks :: "fsys \<Rightarrow> uint32 set" where
  "dirty_blocks s = (\<lambda>i. b_blockno (bufs s ! i)) ` {i. i < NBUF \<and> is_dirty (bufs s ! i)}"

text \<open>A buffer that nobody uses, and one that this process has locked. The state of the cache
  between two operations of a process that has locked the buffers in \<open>H\<close>.\<close>

definition free_buf :: "fsys \<Rightarrow> buf \<Rightarrow> bool" where
  "free_buf s c \<longleftrightarrow> unlocked (b_lock c) \<and> b_refcnt c = 0 \<and> length (b_data c) = BSIZE \<and>
     (is_valid c \<longrightarrow> b_dev c = 1 \<and> b_blockno c < disksize s \<and> (is_dirty c \<or> b_data c = memdisk s (b_blockno c))) \<and>
     (is_dirty c \<longrightarrow> is_valid c)"

definition held_buf :: "fsys \<Rightarrow> buf \<Rightarrow> bool" where
  "held_buf s c \<longleftrightarrow> mine (my_pid s) (b_lock c) \<and> b_refcnt c = 1 \<and> length (b_data c) = BSIZE \<and>
     is_valid c \<and> b_dev c = 1 \<and> b_blockno c < disksize s"

definition cinv :: "nat set \<Rightarrow> fsys \<Rightarrow> bool" where
  "cinv H s \<longleftrightarrow> cache_inv s \<and> \<not> bcache_lk s \<and> H \<subseteq> {..<NBUF} \<and> (\<forall>b. length (memdisk s b) = BSIZE) \<and>
     (\<forall>i<NBUF. if i \<in> H then held_buf s (bufs s ! i) else free_buf s (bufs s ! i))"

lemma cinv_table: "cinv H s \<Longrightarrow> length (bufs s) = Suc NBUF"
  by (auto simp: cinv_def cache_inv_def dest: ring_table)

lemma cinv_held: "cinv H s \<Longrightarrow> i \<in> H \<Longrightarrow> i < NBUF \<and> held_buf s (bufs s ! i)"
  by (auto simp: cinv_def)

lemma cinv_free: "cinv H s \<Longrightarrow> i \<notin> H \<Longrightarrow> i < NBUF \<Longrightarrow> free_buf s (bufs s ! i)"
  by (simp add: cinv_def)

lemma cinv_same_block:
  "cinv H s \<Longrightarrow> i < NBUF \<Longrightarrow> j < NBUF \<Longrightarrow> b_dev (bufs s ! i) = 1 \<Longrightarrow> b_dev (bufs s ! j) = 1 \<Longrightarrow>
   b_blockno (bufs s ! i) = b_blockno (bufs s ! j) \<Longrightarrow> i = j"
  by (simp add: cinv_def cache_inv_def unique_bufs_def)

lemma content_hit:
  assumes "cinv H s" "i < NBUF" "b_dev (bufs s ! i) = 1" "b_blockno (bufs s ! i) = b" "is_valid (bufs s ! i)"
  shows "content s b = b_data (bufs s ! i)"
proof -
  have "find_idx (\<lambda>c. b_dev c = 1 \<and> b_blockno c = b \<and> is_valid c) (take NBUF (bufs s)) = Some i"
    unfolding find_idx_Some_iff
  proof (intro conjI allI impI notI)
    fix j assume j: "j < i" and "b_dev (take NBUF (bufs s) ! j) = 1 \<and> b_blockno (take NBUF (bufs s) ! j) = b \<and> is_valid (take NBUF (bufs s) ! j)"
    then have "j = i" using cinv_same_block [OF assms(1), of j i] assms(2-4) by simp
    then show False using j by simp
  qed (use assms cinv_table [OF assms(1)] in simp_all)
  then show ?thesis by (simp add: content_def)
qed

lemma content_miss:
  assumes "length (bufs s) = Suc NBUF" "\<And>i. i < NBUF \<Longrightarrow> b_dev (bufs s ! i) = 1 \<Longrightarrow> b_blockno (bufs s ! i) = b \<Longrightarrow> \<not> is_valid (bufs s ! i)"
  shows "content s b = memdisk s b"
proof -
  have "find_idx (\<lambda>c. b_dev c = 1 \<and> b_blockno c = b \<and> is_valid c) (take NBUF (bufs s)) = None"
    unfolding find_idx_None_iff
  proof (intro ballI notI)
    fix c assume "c \<in> set (take NBUF (bufs s))" and c: "b_dev c = 1 \<and> b_blockno c = b \<and> is_valid c"
    then obtain i where "i < NBUF" "c = bufs s ! i" using assms(1) by (auto simp: in_set_conv_nth)
    with assms(2) [of i] c show False by blast
  qed
  then show ?thesis by (simp add: content_def)
qed

lemma iderw_read:
  assumes "i < length (bufs s)" "mine (my_pid s) (blk i s)" "\<not> is_valid (bufs s ! i)" "\<not> is_dirty (bufs s ! i)"
    "b_dev (bufs s ! i) = 1" "b_blockno (bufs s ! i) < disksize s"
  shows "iderw i s sch = Ret () (buf_upd i (\<lambda>c. c\<lparr>b_data := memdisk s (b_blockno c), b_flags := b_flags c OR B_VALID\<rparr>) s) sch"
  using assms by (simp add: iderw_def bl.holdingsleep_run buf_upd_buf_upd flag_rules not_le [symmetric])

lemma iderw_write:
  assumes "i < length (bufs s)" "mine (my_pid s) (blk i s)" "is_dirty (bufs s ! i)"
    "b_dev (bufs s ! i) = 1" "b_blockno (bufs s ! i) < disksize s"
  shows "iderw i s sch = Ret () (disk_put (b_blockno (bufs s ! i)) (b_data (bufs s ! i))
    (buf_upd i (\<lambda>c. c\<lparr>b_flags := (b_flags c AND NOT B_DIRTY) OR B_VALID\<rparr>) s)) sch"
  using assms by (simp add: iderw_def bl.holdingsleep_run flag_rules not_le [symmetric]) (simp add: buf_upd_def disk_put_def)

section \<open>Updating one buffer\<close>

lemma buf_kind_upd [simp]:
  "held_buf (buf_upd i f s) = held_buf s" "free_buf (buf_upd i f s) = free_buf s"
  by (simp_all add: fun_eq_iff held_buf_def free_buf_def)

lemma cinv_upd:
  assumes c: "cinv H s" "i < NBUF" and H: "H' - {i} = H - {i}"
    and l: "b_next (f (bufs s ! i)) = b_next (bufs s ! i)" "b_prev (f (bufs s ! i)) = b_prev (bufs s ! i)"
    and k: "b_dev (f (bufs s ! i)) = b_dev (bufs s ! i) \<and> b_blockno (f (bufs s ! i)) = b_blockno (bufs s ! i) \<or>
      (\<forall>j<NBUF. b_dev (bufs s ! j) = b_dev (f (bufs s ! i)) \<longrightarrow> b_blockno (bufs s ! j) \<noteq> b_blockno (f (bufs s ! i)))"
    and n: "if i \<in> H' then held_buf s (f (bufs s ! i)) else free_buf s (f (bufs s ! i))"
  shows "cinv H' (buf_upd i f s)"
proof -
  have len: "length (bufs s) = Suc NBUF" using c(1) by (rule cinv_table)
  obtain xs where r: "ring s xs" and u: "unique_bufs s" using c(1) by (auto simp: cinv_def cache_inv_def)
  have "unique_bufs (buf_upd i f s)"
    unfolding unique_bufs_def
  proof (intro allI impI)
    fix p q assume p: "p < NBUF" and q: "q < NBUF"
      and e: "b_dev (bufs (buf_upd i f s) ! p) \<noteq> 0 \<and> b_dev (bufs (buf_upd i f s) ! p) = b_dev (bufs (buf_upd i f s) ! q) \<and>
        b_blockno (bufs (buf_upd i f s) ! p) = b_blockno (bufs (buf_upd i f s) ! q)"
    show "p = q"
    proof (cases "p = i \<or> q = i")
      case True
      show ?thesis
      proof (rule ccontr)
        assume pq: "p \<noteq> q"
        define j where "j = (if p = i then q else p)"
        have j: "j < NBUF" "j \<noteq> i" "b_dev (bufs s ! j) = b_dev (f (bufs s ! i))" "b_blockno (bufs s ! j) = b_blockno (f (bufs s ! i))"
          "b_dev (bufs s ! j) \<noteq> 0"
          using True pq p q e len by (auto simp: j_def nth_upd split: if_splits)
        then show False using k u c(2) by (auto simp: unique_bufs_def)
      qed
    next
      case False
      then show ?thesis using e u [unfolded unique_bufs_def, rule_format, OF p q] p q len by (auto simp: nth_upd)
    qed
  qed
  moreover have "ring (buf_upd i f s) xs" using r l by (rule ring_buf_upd)
  ultimately have "cache_inv (buf_upd i f s)" by (auto simp: cache_inv_def)
  moreover have "H' \<subseteq> {..<NBUF}" using H c by (auto simp: cinv_def)
  moreover have "if j \<in> H' then held_buf s (bufs (buf_upd i f s) ! j) else free_buf s (bufs (buf_upd i f s) ! j)" if j: "j < NBUF" for j
  proof (cases "j = i")
    case True
    then show ?thesis using n len c(2) by simp
  next
    case False
    then have "j \<in> H' \<longleftrightarrow> j \<in> H" using H by blast
    then show ?thesis using False c(1) j len by (simp add: cinv_def nth_upd)
  qed
  ultimately show ?thesis using c(1) by (simp add: cinv_def del: buf_upd_fields(1))
qed

lemma content_upd_same:
  "cinv H (buf_upd i f s) \<Longrightarrow> i < NBUF \<Longrightarrow> is_valid (f (bufs s ! i)) \<Longrightarrow> b_dev (f (bufs s ! i)) = 1 \<Longrightarrow>
   b_blockno (f (bufs s ! i)) = b \<Longrightarrow> content (buf_upd i f s) b = b_data (f (bufs s ! i))"
  using cinv_table [of H "buf_upd i f s"] content_hit [of H "buf_upd i f s" i b] by simp

lemma content_upd_other:
  assumes c: "cinv H s" "cinv H' (buf_upd i f s)" "i < NBUF" and b: "b \<noteq> b_blockno (f (bufs s ! i))"
    and o: "b_dev (bufs s ! i) = 1 \<Longrightarrow> b_blockno (bufs s ! i) = b \<Longrightarrow> is_valid (bufs s ! i) \<Longrightarrow> b_data (bufs s ! i) = memdisk s b"
  shows "content (buf_upd i f s) b = content s b"
proof (cases "\<exists>j<NBUF. j \<noteq> i \<and> b_dev (bufs s ! j) = 1 \<and> b_blockno (bufs s ! j) = b \<and> is_valid (bufs s ! j)")
  case True
  then obtain j where j: "j < NBUF" "j \<noteq> i" "b_dev (bufs s ! j) = 1" "b_blockno (bufs s ! j) = b" "is_valid (bufs s ! j)" by blast
  show ?thesis
    using content_hit [OF c(1) j(1,3-5)] content_hit [OF c(2) j(1), of b] j(2-5) by simp
next
  case False
  have "content (buf_upd i f s) b = memdisk s b"
    using cinv_table [OF c(1)] False b by (subst content_miss) (auto simp: nth_upd)
  moreover have "content s b = memdisk s b"
  proof (cases "b_dev (bufs s ! i) = 1 \<and> b_blockno (bufs s ! i) = b \<and> is_valid (bufs s ! i)")
    case True
    then show ?thesis using content_hit [OF c(1,3), of b] o by simp
  next
    case nohit: False
    show ?thesis using content_miss [of s b] cinv_table [OF c(1)] False nohit by metis
  qed
  ultimately show ?thesis by simp
qed

lemma dirty_blocks_upd:
  assumes "length (bufs s) = Suc NBUF" "i < NBUF"
  shows "dirty_blocks (buf_upd i f s) = {b_blockno (bufs s ! j) | j. j < NBUF \<and> j \<noteq> i \<and> is_dirty (bufs s ! j)} \<union>
    (if is_dirty (f (bufs s ! i)) then {b_blockno (f (bufs s ! i))} else {})"
  using assms unfolding dirty_blocks_def by (auto simp: nth_upd image_iff split: if_splits)

lemma dirty_blocks_split:
  assumes "i < NBUF"
  shows "dirty_blocks s = {b_blockno (bufs s ! j) | j. j < NBUF \<and> j \<noteq> i \<and> is_dirty (bufs s ! j)} \<union>
    (if is_dirty (bufs s ! i) then {b_blockno (bufs s ! i)} else {})"
  using assms unfolding dirty_blocks_def by (auto simp: image_iff)

lemma dirty_blocks_upd_eq:
  assumes "length (bufs s) = Suc NBUF" "i < NBUF" "is_dirty (f (bufs s ! i)) = is_dirty (bufs s ! i)"
    "is_dirty (bufs s ! i) \<Longrightarrow> b_blockno (f (bufs s ! i)) = b_blockno (bufs s ! i)"
  shows "dirty_blocks (buf_upd i f s) = dirty_blocks s"
  using dirty_blocks_upd [OF assms(1,2), of f] dirty_blocks_split [OF assms(2), of s] assms(3,4) by simp

lemma dirty_dev: "cinv H s \<Longrightarrow> i < NBUF \<Longrightarrow> is_dirty (bufs s ! i) \<Longrightarrow> b_dev (bufs s ! i) = 1"
  using cinv_held [of H s i] cinv_free [of H s i] by (cases "i \<in> H") (simp_all add: held_buf_def free_buf_def)

lemma dirty_blocks_card:
  assumes "cinv H s"
  shows "card (dirty_blocks s) = card {i. i < NBUF \<and> is_dirty (bufs s ! i)}"
  unfolding dirty_blocks_def using cinv_same_block [OF assms] dirty_dev [OF assms]
  by (intro card_image inj_onI) auto

lemma clean_buffer:
  assumes c: "cinv H s" and n: "card (dirty_blocks s) + card H < NBUF"
  obtains j where "j < NBUF" "j \<notin> H" "\<not> is_dirty (bufs s ! j)" "b_refcnt (bufs s ! j) = 0"
proof -
  let ?D = "{i. i < NBUF \<and> is_dirty (bufs s ! i)}"
  have "card (?D \<union> H) < NBUF"
    using card_Un_le [of ?D H] n dirty_blocks_card [OF c] by linarith
  then have "\<not> {..<NBUF} \<subseteq> ?D \<union> H"
    using c finite_subset [of H "{..<NBUF}"] card_mono [of "?D \<union> H" "{..<NBUF}"] by (auto simp: cinv_def)
  then obtain j where j: "j < NBUF" "j \<notin> ?D" "j \<notin> H" by auto
  then show thesis using that [of j] cinv_free [OF c j(3,1)] by (simp add: free_buf_def)
qed

section \<open>The contract\<close>

lemma lock_around: "\<not> bcache_lk s \<Longrightarrow> (buf_upd i f (s\<lparr>bcache_lk := True\<rparr>))\<lparr>bcache_lk := False\<rparr> = buf_upd i f s"
  by (cases s) (simp add: buf_upd_def)

lemma find_SomeD: "find P xs = Some x \<Longrightarrow> x \<in> set xs \<and> P x"
  by (induction xs) (auto split: if_splits)

lemma bget_hit:
  assumes c: "cinv H s" and i: "i < NBUF" "i \<notin> H" "b_dev (bufs s ! i) = dev" "b_blockno (bufs s ! i) = b" "dev \<noteq> 0"
  shows "bget dev b s sch = Ret i (buf_upd i (\<lambda>c. c\<lparr>b_refcnt := 1, b_lock := lock_of (my_pid s)\<rparr>) s) sch"
proof -
  let ?s = "s\<lparr>bcache_lk := True\<rparr>"
  obtain xs where r: "ring s xs" and u: "unique_bufs s" and lk: "\<not> bcache_lk s" using c by (auto simp: cinv_def cache_inv_def)
  have r': "ring ?s xs" by (rule ring_cong [OF r]) simp_all
  have len: "length (bufs s) = Suc NBUF" using r by (rule ring_table)
  have fr: "unlocked (b_lock (bufs s ! i))" "b_refcnt (bufs s ! i) = 0" using cinv_free [OF c i(2,1)] by (simp_all add: free_buf_def)
  have one: "j = i" if "j < NBUF" "b_dev (bufs s ! j) = dev" "b_blockno (bufs s ! j) = b" for j
    using u [unfolded unique_bufs_def, rule_format, of j i] that i by simp
  have "find (\<lambda>j. b_dev (bufs s ! j) = dev \<and> b_blockno (bufs s ! j) = b) xs = Some i"
  proof -
    have "find (\<lambda>j. b_dev (bufs s ! j) = dev \<and> b_blockno (bufs s ! j) = b) xs \<noteq> None"
      using ring_mem [OF r] i by (auto simp: find_None_iff)
    then obtain k where k: "find (\<lambda>j. b_dev (bufs s ! j) = dev \<and> b_blockno (bufs s ! j) = b) xs = Some k" by blast
    then have "k \<in> set xs" "b_dev (bufs s ! k) = dev" "b_blockno (bufs s ! k) = b" by (auto simp: find_Some_iff)
    then show ?thesis using one [of k] ring_mem [OF r] k by auto
  qed
  then have w: "walk (Suc NBUF) b_next (\<lambda>c. b_dev c = dev \<and> b_blockno c = b) (bufs s) (b_next (bufs s ! NBUF)) = Some (Some i)"
    using walk_next [OF r, of "\<lambda>c. b_dev c = dev \<and> b_blockno c = b"] by simp
  let ?t = "buf_upd i (\<lambda>c. c\<lparr>b_refcnt := b_refcnt c + 1\<rparr>) s"
  have "unlocked (blk i ?t)" using fr len i by (simp add: blk_def)
  then have "acquiresleep (blk i) (blk_put i) my_pid (buf_chan i) ?t sch = Ret () (blk_put i (\<lambda>_. lock_of (my_pid s)) ?t) sch"
    using bl.acquiresleep_free [of i ?t] len i by simp
  moreover have "blk_put i (\<lambda>_. lock_of (my_pid s)) ?t = buf_upd i (\<lambda>c. c\<lparr>b_refcnt := 1, b_lock := lock_of (my_pid s)\<rparr>) s"
    using len i fr by (simp add: blk_put_def buf_upd_buf_upd cong: buf_upd_cong)
  ultimately show ?thesis using w lk
    by (simp add: bget_def acquire_bcache_def release_bcache_def lock_around del: walk.simps)
qed

lemma bget_miss:
  assumes c: "cinv H s" and m: "\<forall>j<NBUF. b_dev (bufs s ! j) = dev \<longrightarrow> b_blockno (bufs s ! j) \<noteq> b"
    and n: "card (dirty_blocks s) + card H < NBUF"
  obtains i where "i < NBUF" "i \<notin> H" "\<not> is_dirty (bufs s ! i)"
    "\<And>sch. bget dev b s sch = Ret i (buf_upd i (\<lambda>c. c\<lparr>b_dev := dev, b_blockno := b, b_flags := 0, b_refcnt := 1,
       b_lock := lock_of (my_pid s)\<rparr>) s) sch"
proof -
  let ?s = "s\<lparr>bcache_lk := True\<rparr>"
  let ?free = "\<lambda>c. b_refcnt c = 0 \<and> b_flags c AND B_DIRTY = 0"
  obtain xs where r: "ring s xs" and lk: "\<not> bcache_lk s" using c by (auto simp: cinv_def cache_inv_def)
  have len: "length (bufs s) = Suc NBUF" using r by (rule ring_table)
  have w: "walk (Suc NBUF) b_next (\<lambda>c. b_dev c = dev \<and> b_blockno c = b) (bufs s) (b_next (bufs s ! NBUF)) = Some None"
    using walk_next [OF r, of "\<lambda>c. b_dev c = dev \<and> b_blockno c = b"] find_ring_None [OF r, of "\<lambda>c. b_dev c = dev \<and> b_blockno c = b"] m by auto
  obtain j where "j < NBUF" "\<not> is_dirty (bufs s ! j)" "b_refcnt (bufs s ! j) = 0" using clean_buffer [OF c n] by blast
  then have "find (\<lambda>i. ?free (bufs s ! i)) (rev xs) \<noteq> None"
    using ring_mem [OF r] by (auto simp: find_None_iff is_dirty_def)
  then obtain i where f: "find (\<lambda>i. ?free (bufs s ! i)) (rev xs) = Some i" by blast
  then have "i \<in> set (rev xs)" and i2: "?free (bufs s ! i)" using find_SomeD [OF f] by auto
  then have i1: "i < NBUF" using ring_mem [OF r] by auto
  have i3: "i \<notin> H" using i2 cinv_held [OF c, of i] by (auto simp: held_buf_def)
  have w2: "walk (Suc NBUF) b_prev ?free (bufs s) (b_prev (bufs s ! NBUF)) = Some (Some i)"
    using walk_prev [OF r, of ?free] f by simp
  have fr: "unlocked (b_lock (bufs s ! i))" using cinv_free [OF c i3 i1] by (simp add: free_buf_def)
  let ?t = "buf_upd i (\<lambda>c. c\<lparr>b_dev := dev, b_blockno := b, b_flags := 0, b_refcnt := 1\<rparr>) s"
  have "unlocked (blk i ?t)" using fr len i1 by (simp add: blk_def)
  then have "acquiresleep (blk i) (blk_put i) my_pid (buf_chan i) ?t sch = Ret () (blk_put i (\<lambda>_. lock_of (my_pid s)) ?t) sch" for sch
    using bl.acquiresleep_free [of i ?t] len i1 by simp
  moreover have "blk_put i (\<lambda>_. lock_of (my_pid s)) ?t = buf_upd i (\<lambda>c. c\<lparr>b_dev := dev, b_blockno := b, b_flags := 0, b_refcnt := 1,
      b_lock := lock_of (my_pid s)\<rparr>) s"
    using len i1 by (simp add: blk_put_def buf_upd_buf_upd)
  ultimately have "bget dev b s sch = Ret i (buf_upd i (\<lambda>c. c\<lparr>b_dev := dev, b_blockno := b, b_flags := 0, b_refcnt := 1,
       b_lock := lock_of (my_pid s)\<rparr>) s) sch" for sch
    using w w2 lk by (simp add: bget_def acquire_bcache_def release_bcache_def lock_around del: walk.simps)
  then show thesis using that [of i] i1 i2 i3 by (simp add: is_dirty_def)
qed

text \<open>The state without the parts that the cache changes.\<close>

definition rest :: "fsys \<Rightarrow> fsys" where
  "rest s = s\<lparr>bufs := [], f_woken := [], memdisk := (\<lambda>_. []), d_writes := []\<rparr>"

lemma rest_simps [simp]:
  "rest (buf_upd i f s) = rest s" "rest (disk_put b d s) = rest s" "rest (f_wake c s) = rest s"
  by (simp_all add: rest_def buf_upd_def disk_put_def f_wake_def)

lemma rest_fields:
  assumes "rest t = rest s"
  shows "disksize t = disksize s" "lg t = lg s" "sb t = sb s" "inodes t = inodes s" "my_pid t = my_pid s" "my_cwd t = my_cwd s"
    "log_lk t = log_lk s" "icache_lk t = icache_lk s" "bcache_lk t = bcache_lk s"
  using assms by (cases s; cases t; simp add: rest_def)+

lemma bread_upd:
  assumes c: "cinv H s" and b: "b < disksize s" and fresh: "\<forall>j\<in>H. b_blockno (bufs s ! j) \<noteq> b"
    and n: "b \<in> dirty_blocks s \<or> card (dirty_blocks s) + card H < NBUF"
  obtains i c' where "\<And>sch. bread 1 b s sch = Ret i (buf_upd i (\<lambda>_. c') s) sch" "i < NBUF" "i \<notin> H"
    "b_next c' = b_next (bufs s ! i)" "b_prev c' = b_prev (bufs s ! i)" "held_buf s c'" "b_blockno c' = b"
    "(b_dev (bufs s ! i) = 1 \<and> b_blockno (bufs s ! i) = b \<and> is_dirty c' = is_dirty (bufs s ! i) \<and>
       b_data c' = (if is_valid (bufs s ! i) then b_data (bufs s ! i) else memdisk s b)) \<or>
     ((\<forall>j<NBUF. b_dev (bufs s ! j) = 1 \<longrightarrow> b_blockno (bufs s ! j) \<noteq> b) \<and> \<not> is_dirty (bufs s ! i) \<and> \<not> is_dirty c' \<and> b_data c' = memdisk s b)"
proof -
  have len: "length (bufs s) = Suc NBUF" using c by (rule cinv_table)
  have ml: "length (memdisk s b) = BSIZE" using c by (simp add: cinv_def)
  let ?own = "\<lambda>c. c\<lparr>b_refcnt := 1, b_lock := lock_of (my_pid s)\<rparr>"
  let ?rd = "\<lambda>c. c\<lparr>b_data := memdisk s (b_blockno c), b_flags := b_flags c OR B_VALID\<rparr>"
  show thesis
  proof (cases "\<exists>i<NBUF. b_dev (bufs s ! i) = 1 \<and> b_blockno (bufs s ! i) = b")
    case True
    then obtain i where i: "i < NBUF" "b_dev (bufs s ! i) = 1" "b_blockno (bufs s ! i) = b" by blast
    then have iH: "i \<notin> H" using fresh by blast
    let ?t = "buf_upd i ?own s"
    have get: "bget 1 b s sch = Ret i ?t sch" for sch using bget_hit [OF c i(1) iH i(2,3)] by simp
    note fr = cinv_free [OF c iH i(1)]
    show thesis
    proof (cases "is_valid (bufs s ! i)")
      case v: True
      have "bread 1 b s sch = Ret i (buf_upd i (\<lambda>_. ?own (bufs s ! i)) s) sch" for sch
        using get v i(1) len by (simp add: bread_def is_valid_def buf_upd_def)
      then show thesis using that [of i "?own (bufs s ! i)"] i iH v fr b
        by (simp add: held_buf_def free_buf_def is_dirty_def is_valid_def)
    next
      case v: False
      have d: "\<not> is_dirty (bufs s ! i)" using fr v by (simp add: free_buf_def)
      have "iderw i ?t sch = Ret () (buf_upd i ?rd ?t) sch" for sch
        using iderw_read [of i ?t sch] v d i b len by (simp add: blk_def is_valid_def is_dirty_def)
      then have "bread 1 b s sch = Ret i (buf_upd i (\<lambda>_. ?rd (?own (bufs s ! i))) s) sch" for sch
        using get v i(1) len by (simp add: bread_def is_valid_def buf_upd_def)
      then show thesis using that [of i "?rd (?own (bufs s ! i))"] i iH v fr b d ml
        by (simp add: held_buf_def free_buf_def flag_rules)
    qed
  next
    case False
    have "b \<notin> dirty_blocks s" using False dirty_dev [OF c] by (auto simp: dirty_blocks_def)
    then obtain i where i: "i < NBUF" "i \<notin> H" "\<not> is_dirty (bufs s ! i)"
      and get: "\<And>sch. bget 1 b s sch = Ret i (buf_upd i (\<lambda>c. c\<lparr>b_dev := 1, b_blockno := b, b_flags := 0, b_refcnt := 1,
        b_lock := lock_of (my_pid s)\<rparr>) s) sch"
      using bget_miss [OF c, of 1 b] False n by blast
    let ?new = "\<lambda>c. c\<lparr>b_dev := 1, b_blockno := b, b_flags := 0, b_refcnt := 1, b_lock := lock_of (my_pid s)\<rparr>"
    let ?t = "buf_upd i ?new s"
    have "iderw i ?t sch = Ret () (buf_upd i ?rd ?t) sch" for sch
      using iderw_read [of i ?t sch] i b len by (simp add: blk_def is_valid_def is_dirty_def)
    then have "bread 1 b s sch = Ret i (buf_upd i (\<lambda>_. ?rd (?new (bufs s ! i))) s) sch" for sch
      using get i(1) len by (simp add: bread_def buf_upd_def)
    then show thesis using that [of i "?rd (?new (bufs s ! i))"] i b False ml
      by (simp add: held_buf_def flag_rules)
  qed
qed

lemma bread_spec:
  assumes c: "cinv H s" and b: "b < disksize s" and fresh: "\<forall>j\<in>H. b_blockno (bufs s ! j) \<noteq> b"
    and n: "b \<in> dirty_blocks s \<or> card (dirty_blocks s) + card H < NBUF"
  obtains i s' where "\<And>sch. bread 1 b s sch = Ret i s' sch" "i < NBUF" "i \<notin> H" "cinv (insert i H) s'"
    "b_blockno (bufs s' ! i) = b" "b_data (bufs s' ! i) = content s b" "content s' = content s" "dirty_blocks s' = dirty_blocks s"
    "is_dirty (bufs s' ! i) = (b \<in> dirty_blocks s)" "b \<in> dirty_blocks s \<or> content s b = memdisk s b"
    "rest s' = rest s" "memdisk s' = memdisk s" "d_writes s' = d_writes s" "\<And>j. j \<in> H \<Longrightarrow> bufs s' ! j = bufs s ! j"
proof -
  obtain i c' where r: "\<And>sch. bread 1 b s sch = Ret i (buf_upd i (\<lambda>_. c') s) sch" and i: "i < NBUF" "i \<notin> H"
    and l: "b_next c' = b_next (bufs s ! i)" "b_prev c' = b_prev (bufs s ! i)" and h: "held_buf s c'" and bn: "b_blockno c' = b"
    and alt: "(b_dev (bufs s ! i) = 1 \<and> b_blockno (bufs s ! i) = b \<and> is_dirty c' = is_dirty (bufs s ! i) \<and>
       b_data c' = (if is_valid (bufs s ! i) then b_data (bufs s ! i) else memdisk s b)) \<or>
     ((\<forall>j<NBUF. b_dev (bufs s ! j) = 1 \<longrightarrow> b_blockno (bufs s ! j) \<noteq> b) \<and> \<not> is_dirty (bufs s ! i) \<and> \<not> is_dirty c' \<and> b_data c' = memdisk s b)"
    using bread_upd [OF c b fresh n] by blast
  let ?s = "buf_upd i (\<lambda>_. c') s"
  have len: "length (bufs s) = Suc NBUF" using c by (rule cinv_table)
  have dev: "b_dev c' = 1" "is_valid c'" using h by (simp_all add: held_buf_def)
  have new: "bufs ?s ! i = c'" using i len by simp
  have c': "cinv (insert i H) ?s"
    using alt dev bn h l i by (intro cinv_upd [OF c i(1)]) auto
  have old: "b_data (bufs s ! i) = memdisk s (b_blockno (bufs s ! i))" if "is_valid (bufs s ! i)" "\<not> is_dirty (bufs s ! i)"
    using cinv_free [OF c i(2,1)] that by (simp add: free_buf_def)
  have data: "b_data c' = content s b"
  proof (cases "\<exists>j<NBUF. b_dev (bufs s ! j) = 1 \<and> b_blockno (bufs s ! j) = b \<and> is_valid (bufs s ! j)")
    case True
    then obtain j where j: "j < NBUF" "b_dev (bufs s ! j) = 1" "b_blockno (bufs s ! j) = b" "is_valid (bufs s ! j)" by blast
    have hit: "b_dev (bufs s ! i) = 1" "b_blockno (bufs s ! i) = b" "b_data c' = (if is_valid (bufs s ! i) then b_data (bufs s ! i) else memdisk s b)"
      using alt j by blast+
    then have "j = i" using cinv_same_block [OF c j(1) i(1) j(2)] j(3) by simp
    then show ?thesis using content_hit [OF c j] hit(3) j(4) by simp
  next
    case False
    then have "content s b = memdisk s b" using len by (intro content_miss) blast+
    moreover have "b_data c' = memdisk s b" using alt False i(1) by metis
    ultimately show ?thesis by simp
  qed
  have cont: "content ?s = content s"
  proof (rule ext)
    fix x
    show "content ?s x = content s x"
    proof (cases "x = b")
      case True
      then show ?thesis using content_upd_same [OF c' i(1)] dev bn data by simp
    next
      case False
      show ?thesis
      proof (rule content_upd_other [OF c c' i(1)])
        assume "b_blockno (bufs s ! i) = x" "is_valid (bufs s ! i)"
        moreover have "\<not> is_dirty (bufs s ! i)" using alt False calculation(1) by blast
        ultimately show "b_data (bufs s ! i) = memdisk s x" using old by simp
      qed (use False bn in simp)
    qed
  qed
  have db: "dirty_blocks ?s = dirty_blocks s"
    using alt bn by (intro dirty_blocks_upd_eq [OF len i(1)]) blast+
  have dirty: "is_dirty c' = (b \<in> dirty_blocks s)"
  proof -
    have "b \<in> dirty_blocks ?s \<longleftrightarrow> (\<exists>j<NBUF. is_dirty (bufs ?s ! j) \<and> b_blockno (bufs ?s ! j) = b)"
      by (auto simp: dirty_blocks_def)
    also have "\<dots> \<longleftrightarrow> is_dirty c'"
      using cinv_same_block [OF c' _ i(1)] dirty_dev [OF c'] new dev bn i by metis
    finally show ?thesis by (simp add: db)
  qed
  have "b_data c' = memdisk s b" if "\<not> is_dirty c'"
    using alt old that by (metis (full_types))
  then have "b \<in> dirty_blocks s \<or> content s b = memdisk s b" using dirty data by auto
  moreover have "bufs ?s ! j = bufs s ! j" if "j \<in> H" for j using that i(2) by (cases "j = i") simp_all
  ultimately show thesis using that [OF r i c'] new bn data cont db dirty by simp
qed

text \<open>The owner of a buffer changes its data.\<close>

lemma bmodify_spec:
  assumes c: "cinv H s" and i: "i \<in> H" and d: "length d = BSIZE" and b: "b = b_blockno (bufs s ! i)"
  shows "cinv H (buf_upd i (b_data_update (\<lambda>_. d)) s)"
    "content (buf_upd i (b_data_update (\<lambda>_. d)) s) = (content s)(b := d)"
    "dirty_blocks (buf_upd i (b_data_update (\<lambda>_. d)) s) = dirty_blocks s"
proof -
  let ?f = "b_data_update (\<lambda>_. d)"
  have iN: "i < NBUF" and h: "held_buf s (bufs s ! i)" using cinv_held [OF c i] by auto
  have len: "length (bufs s) = Suc NBUF" using c by (rule cinv_table)
  have h': "held_buf s (?f (bufs s ! i))" using h d by (simp add: held_buf_def is_valid_def)
  show c': "cinv H (buf_upd i ?f s)"
    using h' i by (intro cinv_upd [OF c iN]) simp_all
  show "content (buf_upd i ?f s) = (content s)(b := d)"
  proof (rule ext)
    fix x
    show "content (buf_upd i ?f s) x = ((content s)(b := d)) x"
    proof (cases "x = b")
      case True
      then show ?thesis using content_upd_same [OF c' iN] h' b by (simp add: held_buf_def)
    next
      case False
      then show ?thesis using b by (simp add: content_upd_other [OF c c' iN])
    qed
  qed
  show "dirty_blocks (buf_upd i ?f s) = dirty_blocks s"
    using len iN by (intro dirty_blocks_upd_eq) (simp_all add: is_dirty_def)
qed

lemma disk_put_fields [simp]:
  "bufs (disk_put b d s) = bufs s" "memdisk (disk_put b d s) = (memdisk s)(b := d)" "disksize (disk_put b d s) = disksize s"
  "d_writes (disk_put b d s) = d_writes s @ [(b, d)]" "bcache_lk (disk_put b d s) = bcache_lk s" "my_pid (disk_put b d s) = my_pid s"
  by (simp_all add: disk_put_def)

lemma dirty_blocks_disk [simp]: "dirty_blocks (disk_put b d s) = dirty_blocks s"
  by (simp add: dirty_blocks_def)

text \<open>Writing a block whose content is already \<open>d\<close>, held in the buffer \<open>i\<close>.\<close>

lemma cinv_disk_put:
  assumes c: "cinv H s" and i: "i \<in> H" and b: "b_blockno (bufs s ! i) = b" and d: "d = b_data (bufs s ! i)"
  shows "cinv H (disk_put b d s)" "content (disk_put b d s) = content s"
proof -
  have iN: "i < NBUF" and h: "held_buf s (bufs s ! i)" using cinv_held [OF c i] by auto
  have other: "b_blockno (bufs s ! j) \<noteq> b" if "j < NBUF" "j \<notin> H" "b_dev (bufs s ! j) = 1" for j
    using cinv_same_block [OF c that(1) iN that(3)] h b that i by (auto simp: held_buf_def)
  have "free_buf (disk_put b d s) (bufs s ! j)" if "j < NBUF" "j \<notin> H" for j
    using cinv_free [OF c that(2,1)] other [OF that] by (auto simp: free_buf_def)
  moreover have "held_buf (disk_put b d s) = held_buf s" by (simp add: fun_eq_iff held_buf_def)
  ultimately show c': "cinv H (disk_put b d s)"
    using c h d by (auto simp: cinv_def held_buf_def)
  have "content s b = d" "content (disk_put b d s) b = d"
    using content_hit [OF c iN _ b] content_hit [OF c' iN] h b d by (simp_all add: held_buf_def)
  then show "content (disk_put b d s) = content s"
    by (auto simp: fun_eq_iff content_def split: option.split)
qed

lemma bwrite_spec:
  assumes c: "cinv H s" and i: "i \<in> H" and b: "b_blockno (bufs s ! i) = b" and d: "d = b_data (bufs s ! i)"
  obtains s' where "\<And>sch. bwrite i s sch = Ret () s' sch" "cinv H s'" "content s' = content s" "dirty_blocks s' = dirty_blocks s - {b}"
    "rest s' = rest s" "memdisk s' = (memdisk s)(b := d)" "d_writes s' = d_writes s @ [(b, d)]"
    "\<And>j. j \<noteq> i \<Longrightarrow> bufs s' ! j = bufs s ! j" "\<not> is_dirty (bufs s' ! i)" "b_blockno (bufs s' ! i) = b" "b_data (bufs s' ! i) = d"
proof -
  let ?f = "\<lambda>c. c\<lparr>b_flags := ((b_flags c OR B_DIRTY) AND NOT B_DIRTY) OR B_VALID\<rparr>"
  have iN: "i < NBUF" and h: "held_buf s (bufs s ! i)" using cinv_held [OF c i] by auto
  have len: "length (bufs s) = Suc NBUF" using c by (rule cinv_table)
  let ?t = "buf_upd i (\<lambda>c. c\<lparr>b_flags := b_flags c OR B_DIRTY\<rparr>) s"
  have run: "bwrite i s sch = Ret () (disk_put b d (buf_upd i ?f s)) sch" for sch
    using h iN len b d iderw_write [of i ?t sch]
    by (simp add: bwrite_def bl.holdingsleep_run blk_def held_buf_def flag_simps buf_upd_buf_upd)
  have fields: "is_valid (?f (bufs s ! i))" "\<not> is_dirty (?f (bufs s ! i))"
    by (simp_all add: flag_rules bit_not_iff)
  have c': "cinv H (buf_upd i ?f s)"
    using h i fields by (intro cinv_upd [OF c iN]) (simp_all add: held_buf_def)
  have cont: "content (buf_upd i ?f s) = content s"
  proof (rule ext)
    fix x
    show "content (buf_upd i ?f s) x = content s x"
    proof (cases "x = b")
      case True
      then show ?thesis
        using content_upd_same [OF c' iN fields(1)] content_hit [OF c iN _ b] h b by (simp add: held_buf_def)
    next
      case False
      then show ?thesis using b by (intro content_upd_other [OF c c' iN]) simp_all
    qed
  qed
  have "b_blockno (bufs s ! j) \<noteq> b" if "j < NBUF" "j \<noteq> i" "is_dirty (bufs s ! j)" for j
    using cinv_same_block [OF c that(1) iN dirty_dev [OF c that(1,3)]] h b that by (auto simp: held_buf_def)
  then have "dirty_blocks (buf_upd i ?f s) = dirty_blocks s - {b}"
    unfolding dirty_blocks_upd [OF len iN] dirty_blocks_split [OF iN, of s] using fields(2) b by auto
  moreover have "bufs (buf_upd i ?f s) ! i = ?f (bufs s ! i)" using len iN by simp
  ultimately show thesis
    using that [OF run] cinv_disk_put [OF c' i, of b d] cont b d len iN fields by (simp add: held_buf_def)
qed

lemma wake_fields [simp]:
  "bufs (f_wake c s) = bufs s" "memdisk (f_wake c s) = memdisk s" "disksize (f_wake c s) = disksize s" "d_writes (f_wake c s) = d_writes s"
  "bcache_lk (f_wake c s) = bcache_lk s" "my_pid (f_wake c s) = my_pid s" "content (f_wake c s) = content s"
  "dirty_blocks (f_wake c s) = dirty_blocks s"
  by (simp_all add: f_wake_def fun_eq_iff content_def dirty_blocks_def split: option.split)

lemma cinv_wake [simp]: "cinv H (f_wake c s) = cinv H s"
  by (simp add: cinv_def held_buf_def free_buf_def)

lemma relinked_spec:
  assumes t: "relinked s t" and r: "ring t ys" and c: "cinv H s"
  shows "cinv H t" "content t = content s" "dirty_blocks t = dirty_blocks s" "rest t = rest s" "memdisk t = memdisk s" "d_writes t = d_writes s"
proof -
  have e: "t = s\<lparr>bufs := bufs t\<rparr>" using t by (simp add: relinked_def)
  have len: "length (bufs s) = Suc NBUF" "length (bufs t) = Suc NBUF" using cinv_table [OF c] ring_table [OF r] by simp_all
  note cf = core_fields [OF relinked_core [OF t]]
  show m: "memdisk t = memdisk s" "d_writes t = d_writes s" "rest t = rest s" by (subst e, simp add: rest_def)+
  have same: "disksize t = disksize s" "my_pid t = my_pid s" "bcache_lk t = bcache_lk s" by (subst e, simp)+
  have flags: "is_valid (bufs t ! j) = is_valid (bufs s ! j)" "is_dirty (bufs t ! j) = is_dirty (bufs s ! j)" if "j < NBUF" for j
    using cf [of j] that len by (simp_all add: is_valid_def is_dirty_def)
  have "cache_inv t" using relinked_cache_inv [OF t r _ len(1)] c by (simp add: cinv_def cache_inv_def)
  moreover have "held_buf t (bufs t ! j) = held_buf s (bufs s ! j)" "free_buf t (bufs t ! j) = free_buf s (bufs s ! j)" if "j < NBUF" for j
    using cf [of j] flags [OF that] that len same m by (simp_all add: held_buf_def free_buf_def)
  ultimately show c': "cinv H t"
    using c same m by (simp add: cinv_def)
  show "content t = content s"
  proof (rule ext)
    fix b
    show "content t b = content s b"
    proof (cases "\<exists>j<NBUF. b_dev (bufs s ! j) = 1 \<and> b_blockno (bufs s ! j) = b \<and> is_valid (bufs s ! j)")
      case True
      then obtain j where j: "j < NBUF" "b_dev (bufs s ! j) = 1" "b_blockno (bufs s ! j) = b" "is_valid (bufs s ! j)" by blast
      then show ?thesis using content_hit [OF c j] content_hit [OF c' j(1), of b] cf [of j] flags [of j] len by simp
    next
      case False
      have "content s b = memdisk s b" by (rule content_miss [OF len(1)]) (use False in blast)
      moreover have "content t b = memdisk t b"
      proof (rule content_miss [OF len(2)])
        fix j assume "j < NBUF" "b_dev (bufs t ! j) = 1" "b_blockno (bufs t ! j) = b"
        then show "\<not> is_valid (bufs t ! j)" using False cf [of j] flags [of j] len by auto
      qed
      ultimately show ?thesis using m by simp
    qed
  qed
  show "dirty_blocks t = dirty_blocks s"
    using cf flags len by (auto simp: dirty_blocks_def image_iff)
qed

lemma brelse_spec:
  assumes c: "cinv H s" and i: "i \<in> H" and coh: "is_dirty (bufs s ! i) \<or> b_data (bufs s ! i) = memdisk s (b_blockno (bufs s ! i))"
  obtains s' where "\<And>sch. brelse i s sch = Ret () s' sch" "cinv (H - {i}) s'" "content s' = content s" "dirty_blocks s' = dirty_blocks s"
    "rest s' = rest s" "memdisk s' = memdisk s" "d_writes s' = d_writes s" "\<And>j. j \<in> H - {i} \<Longrightarrow> core (bufs s' ! j) = core (bufs s ! j)"
proof -
  let ?f = "\<lambda>c. c\<lparr>b_lock := initsleeplock, b_refcnt := 0\<rparr>"
  have iN: "i < NBUF" and h: "held_buf s (bufs s ! i)" using cinv_held [OF c i] by auto
  have len: "length (bufs s) = Suc NBUF" using c by (rule cinv_table)
  have lk: "\<not> bcache_lk s" using c by (simp add: cinv_def)
  define w where "w = f_wake (buf_chan i) s"
  define t where "t = buf_upd i ?f w"
  have fr: "free_buf w (?f (bufs w ! i))"
    using h coh by (auto simp: w_def held_buf_def free_buf_def is_valid_def is_dirty_def initsleeplock_def unlocked_def)
  have cw: "cinv H w" using c by (simp add: w_def)
  have ct: "cinv (H - {i}) t"
    unfolding t_def using fr by (intro cinv_upd [OF cw iN]) simp_all
  have cont: "content t = content s"
  proof (rule ext)
    fix x
    show "content t x = content s x"
    proof (cases "x = b_blockno (bufs s ! i)")
      case True
      then show ?thesis
        using content_upd_same [OF ct [unfolded t_def] iN] content_hit [OF c iN] h by (simp add: t_def w_def held_buf_def is_valid_def)
    next
      case False
      then have "content (buf_upd i ?f w) x = content w x"
        by (intro content_upd_other [OF cw ct [unfolded t_def] iN]) (simp_all add: w_def)
      then show ?thesis by (simp add: t_def w_def)
    qed
  qed
  have db: "dirty_blocks t = dirty_blocks s"
    unfolding t_def using dirty_blocks_upd_eq [of w i ?f] len iN by (simp add: w_def is_dirty_def)
  have lkt: "\<not> bcache_lk t" using lk by (simp add: t_def w_def)
  define t1 where "t1 = t\<lparr>bcache_lk := True\<rparr>"
  obtain xs where "ring t xs" using ct by (auto simp: cinv_def cache_inv_def)
  then have "ring t1 xs" by (rule ring_cong) (simp_all add: t1_def)
  then obtain u1 where u1: "\<And>sch. thn (unlink i) (insert_front i) t1 sch = Ret () u1 sch" "relinked t1 u1" "ring u1 (i # remove1 i xs)"
    using to_front [OF _ iN, of t1 xs] by blast
  define u where "u = u1\<lparr>bcache_lk := False\<rparr>"
  have e: "u1 = t1\<lparr>bufs := bufs u1\<rparr>" using u1(2) by (simp add: relinked_def)
  have lku: "bcache_lk u1" by (subst e, simp add: t1_def)
  have "u = t\<lparr>bufs := bufs u\<rparr>" unfolding u_def by (subst e, use lkt in \<open>simp add: t1_def\<close>)
  then have rl: "relinked t u" using u1(2) by (simp add: relinked_def u_def t1_def)
  have ru: "ring u (i # remove1 i xs)" by (rule ring_cong [OF u1(3)]) (simp_all add: u_def)
  note sp = relinked_spec [OF rl ru ct]
  have s1: "releasesleep (blk i) (blk_put i) f_wake (buf_chan i) s sch = Ret () (blk_put i (\<lambda>_. initsleeplock) w) sch" for sch
    using bl.releasesleep_run [of i s] h len iN by (simp add: w_def blk_def held_buf_def)
  have "buf_upd i (\<lambda>c. c\<lparr>b_refcnt := b_refcnt c - 1\<rparr>) ((blk_put i (\<lambda>_. initsleeplock) w)\<lparr>bcache_lk := True\<rparr>) = t1"
    using h len iN by (simp add: t1_def t_def blk_put_def buf_upd_lk buf_upd_buf_upd w_def held_buf_def cong: buf_upd_cong)
  moreover have "b_refcnt (bufs t1 ! i) = 0" using len iN by (simp add: t1_def t_def w_def)
  moreover have "\<not> bcache_lk (blk_put i f w)" for f using lk by (simp add: blk_put_def w_def)
  ultimately have run: "brelse i s sch = Ret () u sch" for sch
    using s1 u1(1) [of sch] lku h len iN
    by (simp add: brelse_def bl.holdingsleep_run blk_def held_buf_def acquire_bcache_def release_bcache_def u_def del: thn_app)
       (simp add: thn_app [of _ _ _ sch] u_def)
  have "core (bufs u ! j) = core (bufs s ! j)" if "j \<in> H - {i}" for j
    using relinked_core [OF rl, of j] that cinv_held [OF c, of j] len by (auto simp: t_def w_def)
  moreover have "rest u = rest s" "memdisk u = memdisk s" "d_writes u = d_writes s"
    using sp(4-6) by (simp_all add: t_def w_def)
  ultimately show thesis using that [OF run sp(1)] sp(2,3) cont db by simp
qed

text \<open>The contract in one piece, for the callers.\<close>

definition bread_post :: "nat set \<Rightarrow> fsys \<Rightarrow> uint32 \<Rightarrow> nat \<Rightarrow> fsys \<Rightarrow> bool" where
  "bread_post H s b i s' \<longleftrightarrow> i < NBUF \<and> i \<notin> H \<and> cinv (insert i H) s' \<and>
     b_blockno (bufs s' ! i) = b \<and> b_data (bufs s' ! i) = content s b \<and> content s' = content s \<and> dirty_blocks s' = dirty_blocks s \<and>
     is_dirty (bufs s' ! i) = (b \<in> dirty_blocks s) \<and> (b \<in> dirty_blocks s \<or> content s b = memdisk s b) \<and>
     rest s' = rest s \<and> memdisk s' = memdisk s \<and> d_writes s' = d_writes s \<and> (\<forall>j\<in>H. bufs s' ! j = bufs s ! j)"

definition bwrite_post :: "nat set \<Rightarrow> fsys \<Rightarrow> uint32 \<Rightarrow> bytes \<Rightarrow> nat \<Rightarrow> fsys \<Rightarrow> bool" where
  "bwrite_post H s b d i s' \<longleftrightarrow> cinv H s' \<and> content s' = content s \<and> dirty_blocks s' = dirty_blocks s - {b} \<and>
     rest s' = rest s \<and> memdisk s' = (memdisk s)(b := d) \<and> d_writes s' = d_writes s @ [(b, d)] \<and>
     (\<forall>j. j \<noteq> i \<longrightarrow> bufs s' ! j = bufs s ! j) \<and> \<not> is_dirty (bufs s' ! i) \<and> b_blockno (bufs s' ! i) = b \<and> b_data (bufs s' ! i) = d"

definition brelse_post :: "nat set \<Rightarrow> fsys \<Rightarrow> nat \<Rightarrow> fsys \<Rightarrow> bool" where
  "brelse_post H s i s' \<longleftrightarrow> cinv (H - {i}) s' \<and> content s' = content s \<and> dirty_blocks s' = dirty_blocks s \<and>
     rest s' = rest s \<and> memdisk s' = memdisk s \<and> d_writes s' = d_writes s \<and>
     (\<forall>j\<in>H - {i}. b_blockno (bufs s' ! j) = b_blockno (bufs s ! j) \<and> b_data (bufs s' ! j) = b_data (bufs s ! j) \<and>
        is_dirty (bufs s' ! j) = is_dirty (bufs s ! j))"

lemma bread_ex:
  assumes "cinv H s" "b < disksize s" "\<forall>j\<in>H. b_blockno (bufs s ! j) \<noteq> b" "b \<in> dirty_blocks s \<or> card (dirty_blocks s) + card H < NBUF"
  shows "\<exists>i s'. (\<forall>sch. bread 1 b s sch = Ret i s' sch) \<and> bread_post H s b i s'"
  by (rule bread_spec [OF assms]) (auto simp: bread_post_def)

lemma bwrite_ex:
  assumes "cinv H s" "i \<in> H" "b_blockno (bufs s ! i) = b" "b_data (bufs s ! i) = d"
  shows "\<exists>s'. (\<forall>sch. bwrite i s sch = Ret () s' sch) \<and> bwrite_post H s b d i s'"
  by (rule bwrite_spec [OF assms(1-3) assms(4) [symmetric]]) (auto simp: bwrite_post_def)

lemma brelse_ex:
  assumes "cinv H s" "i \<in> H" "is_dirty (bufs s ! i) \<or> b_data (bufs s ! i) = memdisk s (b_blockno (bufs s ! i))"
  shows "\<exists>s'. (\<forall>sch. brelse i s sch = Ret () s' sch) \<and> brelse_post H s i s'"
proof (rule brelse_spec [OF assms])
  fix s' assume s': "\<And>sch. brelse i s sch = Ret () s' sch" "cinv (H - {i}) s'" "content s' = content s" "dirty_blocks s' = dirty_blocks s"
    "rest s' = rest s" "memdisk s' = memdisk s" "d_writes s' = d_writes s" "\<And>j. j \<in> H - {i} \<Longrightarrow> core (bufs s' ! j) = core (bufs s ! j)"
  have "b_blockno (bufs s' ! j) = b_blockno (bufs s ! j) \<and> b_data (bufs s' ! j) = b_data (bufs s ! j) \<and>
      is_dirty (bufs s' ! j) = is_dirty (bufs s ! j)" if "j \<in> H - {i}" for j
    using core_fields [OF s'(8) [OF that]] by (simp add: is_dirty_def)
  with s' show ?thesis by (auto simp: brelse_post_def)
qed

section \<open>The cache after start-up\<close>

text \<open>The machine with a disk, before \<^verbatim>\<open>binit\<close>.\<close>

definition power_on :: "(uint32 \<Rightarrow> bytes) \<Rightarrow> uint32 \<Rightarrow> fsys" where
  "power_on img n = zero_fs\<lparr>memdisk := img, disksize := n\<rparr>"

lemma power_on_fields [simp]:
  "memdisk (power_on img n) = img" "disksize (power_on img n) = n" "d_writes (power_on img n) = []"
  "bufs (power_on img n) = replicate (Suc NBUF) zero_buf" "bcache_lk (power_on img n) = False" "log_lk (power_on img n) = False"
  by (simp_all add: power_on_def zero_fs_def)

definition fresh_cache :: "(uint32 \<Rightarrow> bytes) \<Rightarrow> uint32 \<Rightarrow> fsys \<Rightarrow> bool" where
  "fresh_cache img n s \<longleftrightarrow> cinv {} s \<and> content s = img \<and> dirty_blocks s = {} \<and> memdisk s = img \<and> d_writes s = [] \<and>
     rest s = rest (power_on img n)"

lemma binit_spec:
  assumes img: "\<And>b. length (img b) = BSIZE"
  shows "\<exists>s. (\<forall>sch. binit (power_on img n) sch = Ret () s sch) \<and> fresh_cache img n s"
proof -
  let ?s0 = "power_on img n"
  obtain s where s: "\<And>sch. binit ?s0 sch = Ret () s sch" "binit_inv ?s0 NBUF s"
    using binit_run [of ?s0] by auto
  have e: "s = ?s0\<lparr>bcache_lk := False, bufs := bufs s\<rparr>" and len: "length (bufs s) = Suc NBUF"
    using s(2) by (simp_all only: binit_inv_def)
  have f: "memdisk s = img" "d_writes s = []" "rest s = rest ?s0" "\<not> bcache_lk s"
    by (subst e, simp add: rest_def power_on_def zero_fs_def)+
  have r: "ring s (rev [0..<NBUF])" using s(2) by (auto simp: ring_def binit_inv_def)
  have zc: "core (bufs s ! j) = core zero_buf" if "j < NBUF" for j
  proof -
    have "bufs ?s0 ! j = zero_buf" using that by (simp del: replicate.simps)
    then have "core (bufs s ! j) = (core zero_buf)\<lparr>b_lock := initsleeplock\<rparr>"
      using s(2) that by (simp add: binit_inv_def del: power_on_fields(4))
    then show ?thesis by (simp add: core_def zero_buf_def)
  qed
  note z = core_fields [OF zc, unfolded zero_buf_def, simplified]
  have "unique_bufs s" using z by (simp add: unique_bufs_def)
  then have "cinv {} s"
    using r img f z by (auto simp: cinv_def cache_inv_def free_buf_def is_valid_def is_dirty_def initsleeplock_def unlocked_def)
  moreover have "content s = img"
    using content_miss [OF len] z f by (auto simp: fun_eq_iff)
  moreover have "dirty_blocks s = {}" using z by (auto simp: dirty_blocks_def is_dirty_def)
  ultimately show ?thesis using s(1) f by (auto simp: fresh_cache_def)
qed

text \<open>C24: The cache is transparent. Reading a block, replacing its data, writing and releasing it puts
  the data on the disk, and a later read of any block returns its current content: the new data
  for that block, what it was before for every other, whichever buffers are evicted.\<close>

theorem bcache_write_read:
  assumes c: "cinv {} s" and b: "b < disksize s" "b' < disksize s" and n: "card (dirty_blocks s) < NBUF" and d: "length d = BSIZE"
  shows "\<exists>s' i s''. bnd (bread 1 b) (\<lambda>i. thn (upd (buf_upd i (b_data_update (\<lambda>_. d)))) (thn (bwrite i) (brelse i))) s sch = Ret () s' sch \<and>
    memdisk s' = (memdisk s)(b := d) \<and> content s' = (content s)(b := d) \<and> cinv {} s' \<and>
    bread 1 b' s' sch = Ret i s'' sch \<and> b_data (bufs s'' ! i) = (if b' = b then d else content s b')"
proof -
  obtain i s1 where s1: "\<And>sch. bread 1 b s sch = Ret i s1 sch" and p1: "bread_post {} s b i s1"
    using bread_ex [OF c b(1)] n by auto
  define s2 where "s2 = buf_upd i (b_data_update (\<lambda>_. d)) s1"
  have c1: "cinv {i} s1" using p1 by (simp add: bread_post_def)
  have iN: "i < NBUF" "length (bufs s1) = Suc NBUF" using cinv_held [OF c1] cinv_table [OF c1] by auto
  note m = bmodify_spec [OF c1 _ d, of i b, folded s2_def]
  have d2: "b_data (bufs s2 ! i) = d" "b_blockno (bufs s2 ! i) = b" "rest s2 = rest s" "memdisk s2 = memdisk s"
    using iN p1 by (simp_all add: s2_def bread_post_def)
  have c2: "cinv {i} s2" "content s2 = (content s)(b := d)" "dirty_blocks s2 = dirty_blocks s"
    using m p1 by (simp_all add: bread_post_def)
  obtain s3 where s3: "\<And>sch. bwrite i s2 sch = Ret () s3 sch" and p3: "bwrite_post {i} s2 b d i s3"
    using bwrite_ex [OF c2(1) _ d2(2,1)] by auto
  obtain s4 where s4: "\<And>sch. brelse i s3 sch = Ret () s4 sch" and p4: "brelse_post {i} s3 i s4"
    using brelse_ex [of "{i}" s3 i] p3 by (auto simp: bwrite_post_def)
  have run: "bnd (bread 1 b) (\<lambda>i. thn (upd (buf_upd i (b_data_update (\<lambda>_. d)))) (thn (bwrite i) (brelse i))) s sch = Ret () s4 sch"
    using s1 s3 s4 by (simp add: s2_def)
  have f: "cinv {} s4" "content s4 = (content s)(b := d)" "memdisk s4 = (memdisk s)(b := d)" "dirty_blocks s4 = dirty_blocks s - {b}" "rest s4 = rest s"
    using p3 p4 c2 d2 by (simp_all add: bwrite_post_def brelse_post_def)
  have "card (dirty_blocks s4) < NBUF"
    unfolding f(4) using n card_Diff1_le [of "dirty_blocks s" b] by simp
  moreover have "disksize s4 = disksize s" using f(5) by (rule rest_fields)
  ultimately obtain j s5 where "bread 1 b' s4 sch = Ret j s5 sch" "bread_post {} s4 b' j s5"
    using bread_ex [OF f(1), of b'] b(2) by auto
  then show ?thesis using run f by (auto simp: bread_post_def)
qed

theorem bcache_write_read_witness:
  "\<exists>s s' i s''. binit (power_on (\<lambda>_. replicate BSIZE 0) 1000) [] = Ret () s [] \<and>
    bnd (bread 1 7) (\<lambda>i. thn (upd (buf_upd i (b_data_update (\<lambda>_. replicate BSIZE 5)))) (thn (bwrite i) (brelse i))) s [] = Ret () s' [] \<and>
    bread 1 7 s' [] = Ret i s'' [] \<and> b_data (bufs s'' ! i) = replicate BSIZE 5"
proof -
  obtain s where run: "\<And>sch. binit (power_on (\<lambda>_. replicate BSIZE 0) 1000) sch = Ret () s sch"
    and f: "fresh_cache (\<lambda>_. replicate BSIZE 0) 1000 s"
    using binit_spec [of "\<lambda>_. replicate BSIZE 0" 1000] by auto
  then have s: "cinv {} s" "dirty_blocks s = {}" "rest s = rest (power_on (\<lambda>_. replicate BSIZE 0) 1000)"
    by (simp_all add: fresh_cache_def)
  have "disksize s = 1000" using rest_fields(1) [OF s(3)] by simp
  then show ?thesis using bcache_write_read [OF s(1), of 7 7 "replicate BSIZE 5" "[]"] run s(2) by (auto simp: NBUF_def)
qed

end
