(* ===== verification/Log.thy ===== *)
theory Log
  imports Bcache
begin

text \<open>
  The write-ahead log (\<^verbatim>\<open>src/log.c\<close>): system calls bracket their disk updates by \<^verbatim>\<open>begin_op\<close> and
  \<^verbatim>\<open>end_op\<close>; \<^verbatim>\<open>log_write\<close> records a changed block and pins its buffer; the last \<^verbatim>\<open>end_op\<close> commits:
  it copies the changed blocks to the log, writes the log header, installs the blocks at their
  home and clears the header. \<^verbatim>\<open>initlog\<close> recovers after a crash.

  The numbers in the header are C \<^verbatim>\<open>int\<close>s; the arrays are byte blocks on the disk, so reading and
  writing a header goes through the little-endian layout. Writing beyond \<open>lh.block[LOGSIZE]\<close> is
  outside the object.

  Shown here: what \<^verbatim>\<open>commit\<close> writes to the disk, in which order (\<open>commit_writes\<close>), what recovery
  writes from any disk with a well-formed header (\<open>reboot_spec\<close>), and what \<^verbatim>\<open>log_write\<close> does to the
  log and the cache (\<open>log_write_spec\<close>). The theory \<open>Crash\<close> draws the conclusion on power failures.
\<close>

section \<open>The code\<close>

definition readsb :: "uint32 \<Rightarrow> superblock fm" where
  "readsb dev =
     bnd (bread dev 1) (\<lambda>bp.
     bnd (gets (\<lambda>s. b_data (bufs s ! bp))) (\<lambda>d.
     thn (brelse bp)
     (ret \<lparr>sb_size = rd32 d 0, sb_nblocks = rd32 d 4, sb_ninodes = rd32 d 8, sb_nlog = rd32 d 12,
        sb_logstart = rd32 d 16, sb_inodestart = rd32 d 20, sb_bmapstart = rd32 d 24\<rparr>)))"

definition lg_upd :: "(fslog \<Rightarrow> fslog) \<Rightarrow> unit fm" where
  "lg_upd f = upd (\<lambda>s. s\<lparr>lg := f (lg s)\<rparr>)"

definition log_chan :: chan where "log_chan = Chan ''log'' 0"

definition acquire_log :: "unit fm" where
  "acquire_log = lock_acquire log_lk log_lk_update"

definition release_log :: "unit fm" where
  "release_log = lock_release log_lk log_lk_update"

text \<open>The block that holds entry \<open>k - 1\<close> of the log; \<open>k = 0\<close> is the header.\<close>

definition log_block :: "fsys \<Rightarrow> nat \<Rightarrow> uint32" where
  "log_block s k = of_int (l_start (lg s) + int k)"

definition home_block :: "fsys \<Rightarrow> nat \<Rightarrow> uint32" where
  "home_block s i = of_int (lh_block (lg s) ! i)"

definition log_dev :: "fsys \<Rightarrow> uint32" where
  "log_dev s = of_int (l_dev (lg s))"

abbreviation copy_data :: "nat \<Rightarrow> nat \<Rightarrow> unit fm" where
  "copy_data dst src \<equiv> upd (\<lambda>s. buf_upd dst (\<lambda>b. b\<lparr>b_data := b_data (bufs s ! src)\<rparr>) s)"

definition install_step :: "nat \<Rightarrow> unit fm" where
  "install_step tail =
     bnd (gets id) (\<lambda>s.
     bnd (bread (log_dev s) (log_block s (Suc tail))) (\<lambda>lbuf.
     thn (requirek (tail < 30) (OutOfBounds ''lh.block''))
     (bnd (bread (log_dev s) (home_block s tail)) (\<lambda>dbuf.
     thn (copy_data dbuf lbuf)
     (thn (bwrite dbuf)
     (thn (brelse lbuf)
     (brelse dbuf)))))))"

definition install_trans :: "unit fm" where
  "install_trans = bnd (gets (\<lambda>s. lh_n (lg s))) (\<lambda>n. seqk (map install_step [0..<nat n]))"

definition read_head_step :: "bytes \<Rightarrow> nat \<Rightarrow> unit fm" where
  "read_head_step d i =
     thn (requirek (i < 30) (OutOfBounds ''lh.block''))
     (lg_upd (\<lambda>l. l\<lparr>lh_block := (lh_block l)[i := sint (rd32 d (4 + 4 * i))]\<rparr>))"

definition read_head :: "unit fm" where
  "read_head =
     bnd (gets id) (\<lambda>s.
     bnd (bread (log_dev s) (log_block s 0)) (\<lambda>bp.
     bnd (gets (\<lambda>s. b_data (bufs s ! bp))) (\<lambda>d.
     thn (lg_upd (\<lambda>l. l\<lparr>lh_n := sint (rd32 d 0)\<rparr>))
     (thn (seqk (map (read_head_step d) [0..<nat (sint (rd32 d 0))]))
     (brelse bp)))))"

definition write_head_step :: "nat \<Rightarrow> nat \<Rightarrow> unit fm" where
  "write_head_step bp i =
     thn (requirek (i < 30) (OutOfBounds ''lh.block''))
     (upd (\<lambda>s. buf_upd bp (\<lambda>b. b\<lparr>b_data := splice_at (4 + 4 * i) (le32 (home_block s i)) (b_data b)\<rparr>) s))"

definition write_head :: "unit fm" where
  "write_head =
     bnd (gets id) (\<lambda>s.
     bnd (bread (log_dev s) (log_block s 0)) (\<lambda>bp.
     thn (upd (buf_upd bp (\<lambda>b. b\<lparr>b_data := splice_at 0 (le32 (of_int (lh_n (lg s)))) (b_data b)\<rparr>)))
     (thn (seqk (map (write_head_step bp) [0..<nat (lh_n (lg s))]))
     (thn (bwrite bp)
     (brelse bp)))))"

definition recover_from_log :: "unit fm" where
  "recover_from_log =
     thn read_head
     (thn install_trans
     (thn (lg_upd (\<lambda>l. l\<lparr>lh_n := 0\<rparr>))
     write_head))"

definition initlog :: "int \<Rightarrow> unit fm" where
  "initlog dev =
     (if BSIZE \<le> 4 + 4 * 30 then panic ''initlog: too big logheader''
      else
        thn (upd (\<lambda>s. s\<lparr>log_lk := False\<rparr>))
        (bnd (readsb (of_int dev)) (\<lambda>sb.
        thn (lg_upd (\<lambda>l. l\<lparr>l_start := sint (sb_logstart sb), l_size := sint (sb_nlog sb), l_dev := dev\<rparr>))
        recover_from_log)))"

definition log_busy :: "fsys \<Rightarrow> bool" where
  "log_busy s \<longleftrightarrow> l_committing (lg s) \<or> lh_n (lg s) + (l_outstanding (lg s) + 1) * MAXOPBLOCKS > LOGSIZE"

definition begin_op :: "unit fm" where
  "begin_op =
     thn acquire_log
     (thn (while_sleep log_busy log_chan log_lk log_lk_update)
     (thn (lg_upd (\<lambda>l. l\<lparr>l_outstanding := l_outstanding l + 1\<rparr>))
     release_log))"

definition write_log_step :: "nat \<Rightarrow> unit fm" where
  "write_log_step tail =
     bnd (gets id) (\<lambda>s.
     bnd (bread (log_dev s) (log_block s (Suc tail))) (\<lambda>to.
     thn (requirek (tail < 30) (OutOfBounds ''lh.block''))
     (bnd (bread (log_dev s) (home_block s tail)) (\<lambda>from.
     thn (copy_data to from)
     (thn (bwrite to)
     (thn (brelse from)
     (brelse to)))))))"

definition write_log :: "unit fm" where
  "write_log = bnd (gets (\<lambda>s. lh_n (lg s))) (\<lambda>n. seqk (map write_log_step [0..<nat n]))"

definition commit :: "unit fm" where
  "commit =
     bnd (gets (\<lambda>s. lh_n (lg s))) (\<lambda>n.
     if n > 0 then
       thn write_log
       (thn write_head
       (thn install_trans
       (thn (lg_upd (\<lambda>l. l\<lparr>lh_n := 0\<rparr>))
       write_head)))
     else ret ())"

definition end_op :: "unit fm" where
  "end_op =
     thn acquire_log
     (thn (lg_upd (\<lambda>l. l\<lparr>l_outstanding := l_outstanding l - 1\<rparr>))
     (bnd (gets lg) (\<lambda>l.
     if l_committing l then panic ''log.committing''
     else
       bnd (if l_outstanding l = 0 then thn (lg_upd (\<lambda>l. l\<lparr>l_committing := True\<rparr>)) (ret True)
            else thn (upd (f_wake log_chan)) (ret False)) (\<lambda>do_commit.
       thn release_log
       (if do_commit then
          thn commit
          (thn acquire_log
          (thn (lg_upd (\<lambda>l. l\<lparr>l_committing := False\<rparr>))
          (thn (upd (f_wake log_chan))
          release_log)))
        else ret ())))))"

definition log_write :: "nat \<Rightarrow> unit fm" where
  "log_write b =
     bnd (gets lg) (\<lambda>l.
     if LOGSIZE \<le> lh_n l \<or> l_size l - 1 \<le> lh_n l then panic ''too big a transaction''
     else if l_outstanding l < 1 then panic ''log_write outside of trans''
     else
       thn acquire_log
       (bnd (gets (\<lambda>s. b_blockno (bufs s ! b))) (\<lambda>bno.
       bnd (gets lg) (\<lambda>l.
       let i = (case find_idx (\<lambda>x. of_int x = bno) (take (nat (lh_n l)) (lh_block l)) of Some i \<Rightarrow> i | None \<Rightarrow> nat (lh_n l)) in
       thn (lg_upd (\<lambda>l. l\<lparr>lh_block := (lh_block l)[i := sint bno]\<rparr>))
       (thn (if int i = lh_n l then lg_upd (\<lambda>l. l\<lparr>lh_n := lh_n l + 1\<rparr>) else ret ())
       (thn (upd (buf_upd b (\<lambda>b. b\<lparr>b_flags := b_flags b OR B_DIRTY\<rparr>)))
       release_log))))))"

section \<open>Sequences of disk writes\<close>

definition apply_writes :: "(uint32 \<times> bytes) list \<Rightarrow> (uint32 \<Rightarrow> bytes) \<Rightarrow> uint32 \<Rightarrow> bytes" where
  "apply_writes ws D = fold (\<lambda>(b, d) D. D(b := d)) ws D"

lemma apply_writes_simps [simp]:
  "apply_writes [] D = D" "apply_writes ((b, d) # ws) D = apply_writes ws (D(b := d))"
  "apply_writes (ws @ vs) D = apply_writes vs (apply_writes ws D)"
  by (simp_all add: apply_writes_def)

lemma apply_writes_other: "b \<notin> fst ` set ws \<Longrightarrow> apply_writes ws D b = D b"
  by (induction ws arbitrary: D) auto

lemma apply_writes_at:
  "distinct (map fst ws) \<Longrightarrow> (b, d) \<in> set ws \<Longrightarrow> apply_writes ws D b = d"
proof (induction ws arbitrary: D)
  case (Cons w ws)
  then show ?case by (cases w) (force simp: apply_writes_other)
qed simp

lemma seqk_range:
  assumes "\<And>i t. i < n \<Longrightarrow> P i t \<Longrightarrow> \<exists>t'. (\<forall>sch. step i t sch = Ret () t' sch) \<and> P (Suc i) t'" "P 0 s"
  shows "\<exists>t. (\<forall>sch. seqk (map step [0..<n]) s sch = Ret () t sch) \<and> P n t"
  using assms
proof (induction n)
  case (Suc n)
  have app: "seqk (ms @ [m]) s sch = thn (seqk ms) m s sch" for ms m sch and s :: 'a
    by (induction ms arbitrary: s sch) (auto split: outcome.split)
  obtain t where t: "\<And>sch. seqk (map step [0..<n]) s sch = Ret () t sch" "P n t"
    using Suc.IH [OF Suc.prems(1) Suc.prems(2)] by force
  obtain t' where "\<And>sch. step n t sch = Ret () t' sch" "P (Suc n) t'" using Suc.prems(1) [of n t] t(2) by auto
  then show ?case using t(1) by (auto simp: app)
qed simp

text \<open>\<open>wrote s ws D s'\<close>: the code went from \<open>s\<close> to \<open>s'\<close>, wrote the blocks \<open>ws\<close> to the disk in this
  order, changed nothing else that a reader sees, and left the cached blocks \<open>D\<close> unwritten.\<close>

definition wrote :: "fsys \<Rightarrow> (uint32 \<times> bytes) list \<Rightarrow> uint32 set \<Rightarrow> fsys \<Rightarrow> bool" where
  "wrote s ws D s' \<longleftrightarrow> cinv {} s' \<and> rest s' = rest s \<and> content s' = apply_writes ws (content s) \<and>
     memdisk s' = apply_writes ws (memdisk s) \<and> d_writes s' = d_writes s @ ws \<and> dirty_blocks s' = D"

lemma wrote_refl: "cinv {} s \<Longrightarrow> wrote s [] (dirty_blocks s) s"
  by (simp add: wrote_def)

lemma wrote_trans: "wrote s ws D s' \<Longrightarrow> wrote s' vs D' s'' \<Longrightarrow> wrote s (ws @ vs) D' s''"
  by (simp add: wrote_def)

lemma log_rest:
  assumes "rest t = rest s"
  shows "log_block t = log_block s" "home_block t = home_block s" "log_dev t = log_dev s" "disksize t = disksize s" "lg t = lg s"
  using rest_fields [OF assms] by (simp_all add: fun_eq_iff log_block_def home_block_def log_dev_def)

section \<open>The two copying loops\<close>

text \<open>The log lies on disk 1, inside the disk.\<close>

definition log_geo :: "fsys \<Rightarrow> bool" where
  "log_geo s \<longleftrightarrow> log_dev s = 1 \<and> (\<forall>k\<le>29. log_block s k < disksize s)"

lemma log_block_inj: "k \<le> 29 \<Longrightarrow> j \<le> 29 \<Longrightarrow> log_block s k = log_block s j \<longleftrightarrow> k = j"
proof -
  assume "k \<le> 29" "j \<le> 29"
  then have u: "unat (of_nat k :: uint32) = k" "unat (of_nat j :: uint32) = j"
    by (simp_all add: unat_of_nat_word)
  have "(of_nat k :: uint32) = of_nat j \<longleftrightarrow> k = j" by (metis u)
  then show ?thesis by (simp add: log_block_def)
qed

lemma write_log_step_spec:
  assumes c: "cinv {} s" and g: "log_geo s" and i: "i < 29" and b: "b = home_block s i" "b < disksize s" "b \<noteq> a" and a: "a = log_block s (Suc i)"
    and d: "b \<in> dirty_blocks s" "a \<notin> dirty_blocks s" "card (dirty_blocks s) < NBUF"
  shows "\<exists>s'. (\<forall>sch. write_log_step i s sch = Ret () s' sch) \<and> wrote s [(a, content s b)] (dirty_blocks s) s'"
proof -
  have ad: "a < disksize s" "log_dev s = 1" using g a i by (simp_all add: log_geo_def)
  obtain p s1 where s1: "\<And>sch. bread 1 a s sch = Ret p s1 sch" and p1: "bread_post {} s a p s1"
    using bread_ex [OF c ad(1)] d(3) by auto
  have c1: "cinv {p} s1" "b_blockno (bufs s1 ! p) = a" using p1 by (simp_all add: bread_post_def)
  have e1: "disksize s1 = disksize s" "dirty_blocks s1 = dirty_blocks s" "content s1 = content s"
    using p1 log_rest(4) [of s1 s] by (simp_all add: bread_post_def)
  obtain q s2 where s2: "\<And>sch. bread 1 b s1 sch = Ret q s2 sch" and p2: "bread_post {p} s1 b q s2"
    using bread_ex [OF c1(1), of b] b c1(2) e1 d(1) by auto
  define s3 where "s3 = buf_upd p (\<lambda>c. c\<lparr>b_data := b_data (bufs s2 ! q)\<rparr>) s2"
  have c2: "cinv {q, p} s2" using p2 by (simp add: bread_post_def)
  have pq: "p \<noteq> q" "p < NBUF" "q < NBUF" "length (bufs s2) = Suc NBUF" "b_blockno (bufs s2 ! p) = a"
    using p2 p1 c1(2) cinv_table [OF c2] by (auto simp: bread_post_def)
  have dat: "b_data (bufs s2 ! q) = content s b" using p2 e1 by (simp add: bread_post_def)
  have len: "length (content s b) = BSIZE" using cinv_held [OF c2, of q] dat by (simp add: held_buf_def)
  have c3: "cinv {q, p} s3" "content s3 = (content s)(a := content s b)" "dirty_blocks s3 = dirty_blocks s"
    "b_data (bufs s3 ! p) = content s b" "b_blockno (bufs s3 ! p) = a" "bufs s3 ! q = bufs s2 ! q" "memdisk s3 = memdisk s" "d_writes s3 = d_writes s" "rest s3 = rest s"
    using bmodify_spec [OF c2 _ len, of p a] pq dat p2 p1 e1 by (simp_all add: s3_def bread_post_def)
  obtain s4 where s4: "\<And>sch. bwrite p s3 sch = Ret () s4 sch" and p4: "bwrite_post {q, p} s3 a (content s b) p s4"
    using bwrite_ex [OF c3(1) _ c3(5,4)] by auto
  have c4: "cinv {q, p} s4" "is_dirty (bufs s4 ! q)" "memdisk s4 = (memdisk s)(a := content s b)"
    using p4 p2 c3 pq e1 d(1) by (simp_all add: bwrite_post_def bread_post_def)
  obtain s5 where s5: "\<And>sch. brelse q s4 sch = Ret () s5 sch" and p5: "brelse_post {q, p} s4 q s5"
    using brelse_ex [OF c4(1), of q] c4(2) by auto
  have c5: "cinv {p} s5" "b_data (bufs s5 ! p) = memdisk s5 (b_blockno (bufs s5 ! p))"
    using p5 p4 pq c4(3) by (auto simp: brelse_post_def bwrite_post_def insert_Diff_if)
  obtain s6 where s6: "\<And>sch. brelse p s5 sch = Ret () s6 sch" and p6: "brelse_post {p} s5 p s6"
    using brelse_ex [OF c5(1), of p] c5(2) by auto
  have "write_log_step i s sch = Ret () s6 sch" for sch
    using s1 s2 s4 s5 s6 i a b(1) ad by (simp add: write_log_step_def s3_def)
  moreover have "wrote s [(a, content s b)] (dirty_blocks s) s6"
    using p6 p5 p4 c3 d(2) by (simp add: wrote_def brelse_post_def bwrite_post_def)
  ultimately show ?thesis by blast
qed

lemma install_step_spec:
  assumes c: "cinv {} s" and g: "log_geo s" and i: "i < 29" and b: "b = home_block s i" "b < disksize s" "b \<noteq> a" and a: "a = log_block s (Suc i)"
    and d: "a \<notin> dirty_blocks s" "card (insert b (dirty_blocks s)) < NBUF"
  shows "\<exists>s'. (\<forall>sch. install_step i s sch = Ret () s' sch) \<and> wrote s [(b, content s a)] (dirty_blocks s - {b}) s'"
proof -
  have ad: "a < disksize s" "log_dev s = 1" using g a i by (simp_all add: log_geo_def)
  have fin: "finite (dirty_blocks s)" by (simp add: dirty_blocks_def)
  obtain p s1 where s1: "\<And>sch. bread 1 a s sch = Ret p s1 sch" and p1: "bread_post {} s a p s1"
    using bread_ex [OF c ad(1)] d(2) card_insert_le [of "dirty_blocks s" b] by auto
  have c1: "cinv {p} s1" "b_blockno (bufs s1 ! p) = a" using p1 by (simp_all add: bread_post_def)
  have e1: "disksize s1 = disksize s" "dirty_blocks s1 = dirty_blocks s" "content s1 = content s"
    using p1 log_rest(4) [of s1 s] by (simp_all add: bread_post_def)
  have "b \<in> dirty_blocks s1 \<or> card (dirty_blocks s1) + card {p} < NBUF"
    using d(2) e1 fin by (cases "b \<in> dirty_blocks s") simp_all
  then obtain q s2 where s2: "\<And>sch. bread 1 b s1 sch = Ret q s2 sch" and p2: "bread_post {p} s1 b q s2"
    using bread_ex [OF c1(1), of b] b c1(2) e1 by auto
  define s3 where "s3 = buf_upd q (\<lambda>c. c\<lparr>b_data := b_data (bufs s2 ! p)\<rparr>) s2"
  have c2: "cinv {q, p} s2" using p2 by (simp add: bread_post_def)
  have pq: "p \<noteq> q" "p < NBUF" "q < NBUF" "length (bufs s2) = Suc NBUF" "b_blockno (bufs s2 ! q) = b"
    using p2 p1 c1(2) cinv_table [OF c2] by (auto simp: bread_post_def)
  have dat: "b_data (bufs s2 ! p) = content s a" "b_blockno (bufs s2 ! p) = a" "content s a = memdisk s a"
    using p2 p1 d(1) by (auto simp: bread_post_def)
  have len: "length (content s a) = BSIZE" using cinv_held [OF c2, of p] dat by (simp add: held_buf_def)
  have c3: "cinv {q, p} s3" "content s3 = (content s)(b := content s a)" "dirty_blocks s3 = dirty_blocks s"
    "b_data (bufs s3 ! q) = content s a" "b_blockno (bufs s3 ! q) = b" "bufs s3 ! p = bufs s2 ! p" "memdisk s3 = memdisk s" "d_writes s3 = d_writes s" "rest s3 = rest s"
    using bmodify_spec [OF c2 _ len, of q b] pq dat p2 p1 e1 by (simp_all add: s3_def bread_post_def)
  obtain s4 where s4: "\<And>sch. bwrite q s3 sch = Ret () s4 sch" and p4: "bwrite_post {q, p} s3 b (content s a) q s4"
    using bwrite_ex [OF c3(1) _ c3(5,4)] by auto
  have c4: "cinv {q, p} s4" "b_data (bufs s4 ! p) = memdisk s4 (b_blockno (bufs s4 ! p))"
    using p4 c3 pq dat b(3) by (simp_all add: bwrite_post_def)
  obtain s5 where s5: "\<And>sch. brelse p s4 sch = Ret () s5 sch" and p5: "brelse_post {q, p} s4 p s5"
    using brelse_ex [OF c4(1), of p] c4(2) by auto
  have c5: "cinv {q} s5" "b_data (bufs s5 ! q) = memdisk s5 (b_blockno (bufs s5 ! q))"
    using p5 p4 pq c3(7) by (auto simp: brelse_post_def bwrite_post_def insert_Diff_if)
  obtain s6 where s6: "\<And>sch. brelse q s5 sch = Ret () s6 sch" and p6: "brelse_post {q} s5 q s6"
    using brelse_ex [OF c5(1), of q] c5(2) by auto
  have "install_step i s sch = Ret () s6 sch" for sch
    using s1 s2 s4 s5 s6 i a b(1) ad by (simp add: install_step_def s3_def)
  moreover have "wrote s [(b, content s a)] (dirty_blocks s - {b}) s6"
    using p6 p5 p4 c3 by (simp add: wrote_def brelse_post_def bwrite_post_def)
  ultimately show ?thesis by blast
qed

text \<open>The log in memory lists the blocks \<open>bs\<close>, which lie outside the log.\<close>

definition logged :: "fsys \<Rightarrow> uint32 list \<Rightarrow> bool" where
  "logged s bs \<longleftrightarrow> lh_n (lg s) = int (length bs) \<and> length bs \<le> 29 \<and> (\<forall>i<length bs. home_block s i = bs ! i) \<and> distinct bs \<and>
     (\<forall>b\<in>set bs. b < disksize s \<and> (\<forall>k\<le>29. b \<noteq> log_block s k))"

definition log_copies :: "fsys \<Rightarrow> uint32 list \<Rightarrow> nat \<Rightarrow> (uint32 \<times> bytes) list" where
  "log_copies s bs n = map (\<lambda>i. (log_block s (Suc i), content s (bs ! i))) [0..<n]"

definition installs :: "fsys \<Rightarrow> uint32 list \<Rightarrow> nat \<Rightarrow> (uint32 \<times> bytes) list" where
  "installs s bs n = map (\<lambda>i. (bs ! i, content s (log_block s (Suc i)))) [0..<n]"

lemma logged_rest: "rest t = rest s \<Longrightarrow> logged t bs = logged s bs" "rest t = rest s \<Longrightarrow> log_geo t = log_geo s"
  using log_rest [of t s] by (simp_all add: logged_def log_geo_def)

lemma logged_outside: "logged s bs \<Longrightarrow> k \<le> 29 \<Longrightarrow> log_block s k \<notin> set bs"
  unfolding logged_def by blast

lemma finite_dirty [simp]: "finite (dirty_blocks s)"
  by (simp add: dirty_blocks_def)

lemma write_log_spec:
  assumes c: "cinv {} s" and g: "log_geo s" and l: "logged s bs" and d: "dirty_blocks s = set bs" "length bs < NBUF"
  shows "\<exists>s'. (\<forall>sch. write_log s sch = Ret () s' sch) \<and> wrote s (log_copies s bs (length bs)) (set bs) s'"
proof -
  have "\<exists>s'. (\<forall>sch. seqk (map write_log_step [0..<length bs]) s sch = Ret () s' sch) \<and> wrote s (log_copies s bs (length bs)) (set bs) s'"
  proof (rule seqk_range [where P = "\<lambda>i. wrote s (log_copies s bs i) (set bs)"])
    fix i t assume i: "i < length bs" and w: "wrote s (log_copies s bs i) (set bs) t"
    let ?b = "bs ! i" and ?a = "log_block s (Suc i)"
    have r: "rest t = rest s" and ct: "cinv {} t" and dt: "dirty_blocks t = set bs" and cont: "content t = apply_writes (log_copies s bs i) (content s)"
      using w by (simp_all add: wrote_def)
    have lt: "logged t bs" "log_geo t" using l g logged_rest [OF r] by simp_all
    have i30: "i < 29" using l i by (simp add: logged_def)
    have b: "?b = home_block t i" "?b < disksize t" "\<forall>k\<le>29. ?b \<noteq> log_block s k" "?b \<in> set bs"
      using lt(1) i log_rest(1) [OF r] by (simp_all add: logged_def)
    have a: "?a = log_block t (Suc i)" "?a \<notin> set bs" using log_rest(1) [OF r] logged_outside [OF l, of "Suc i"] i30 by simp_all
    have same: "content t ?b = content s ?b"
      unfolding cont
    proof (rule apply_writes_other)
      have "?b \<noteq> log_block s (Suc k)" if "k < i" for k using b(3) [rule_format, of "Suc k"] that i30 by simp
      then show "?b \<notin> fst ` set (log_copies s bs i)" by (simp add: log_copies_def image_image image_iff)
    qed
    have "card (set bs) < NBUF" using d(2) card_length [of bs] by simp
    then have "\<exists>s'. (\<forall>sch. write_log_step i t sch = Ret () s' sch) \<and> wrote t [(?a, content t ?b)] (dirty_blocks t) s'"
      using write_log_step_spec [OF ct lt(2) i30 b(1,2) _ a(1)] b(3,4) a(2) dt i30 by auto
    then show "\<exists>t'. (\<forall>sch. write_log_step i t sch = Ret () t' sch) \<and> wrote s (log_copies s bs (Suc i)) (set bs) t'"
      using wrote_trans [OF w] same dt by (auto simp: log_copies_def)
  qed (use wrote_refl [OF c] d in \<open>simp add: log_copies_def\<close>)
  then show ?thesis using l by (auto simp: write_log_def logged_def)
qed

lemma install_trans_spec:
  assumes c: "cinv {} s" and g: "log_geo s" and l: "logged s bs" and d: "\<forall>k\<le>29. log_block s k \<notin> dirty_blocks s"
    and n: "\<forall>b\<in>set bs. card (insert b (dirty_blocks s)) < NBUF"
  shows "\<exists>s'. (\<forall>sch. install_trans s sch = Ret () s' sch) \<and> wrote s (installs s bs (length bs)) (dirty_blocks s - set bs) s'"
proof -
  have "\<exists>s'. (\<forall>sch. seqk (map install_step [0..<length bs]) s sch = Ret () s' sch) \<and>
      wrote s (installs s bs (length bs)) (dirty_blocks s - set (take (length bs) bs)) s'"
  proof (rule seqk_range [where P = "\<lambda>i. wrote s (installs s bs i) (dirty_blocks s - set (take i bs))"])
    fix i t assume i: "i < length bs" and w: "wrote s (installs s bs i) (dirty_blocks s - set (take i bs)) t"
    let ?b = "bs ! i" and ?a = "log_block s (Suc i)"
    have r: "rest t = rest s" and ct: "cinv {} t" and dt: "dirty_blocks t = dirty_blocks s - set (take i bs)"
      and cont: "content t = apply_writes (installs s bs i) (content s)"
      using w by (simp_all add: wrote_def)
    have lt: "logged t bs" "log_geo t" using l g logged_rest [OF r] by simp_all
    have i30: "i < 29" using l i by (simp add: logged_def)
    have b: "?b = home_block t i" "?b < disksize t" "\<forall>k\<le>29. ?b \<noteq> log_block s k" "?b \<in> set bs"
      using lt(1) i log_rest(1) [OF r] by (simp_all add: logged_def)
    have a: "?a = log_block t (Suc i)" "?a \<notin> dirty_blocks t" "?a \<notin> set bs"
      using log_rest(1) [OF r] logged_outside [OF l, of "Suc i"] i30 d dt by simp_all
    have same: "content t ?a = content s ?a"
      unfolding cont using a(3) i nth_mem [of _ bs] by (intro apply_writes_other) (force simp: installs_def)
    have "card (insert ?b (dirty_blocks t)) \<le> card (insert ?b (dirty_blocks s))"
      unfolding dt by (intro card_mono) auto
    then have "card (insert ?b (dirty_blocks t)) < NBUF" using n b(4) by fastforce
    then have "\<exists>s'. (\<forall>sch. install_step i t sch = Ret () s' sch) \<and> wrote t [(?b, content t ?a)] (dirty_blocks t - {?b}) s'"
      using install_step_spec [OF ct lt(2) i30 b(1,2) _ a(1,2)] b(3) i30 by auto
    moreover have "dirty_blocks t - {?b} = dirty_blocks s - set (take (Suc i) bs)"
      using dt i by (auto simp: take_Suc_conv_app_nth)
    ultimately show "\<exists>t'. (\<forall>sch. install_step i t sch = Ret () t' sch) \<and> wrote s (installs s bs (Suc i)) (dirty_blocks s - set (take (Suc i) bs)) t'"
      using wrote_trans [OF w] same by (auto simp: installs_def)
  qed (use wrote_refl [OF c] in \<open>simp add: installs_def\<close>)
  then show ?thesis using l by (auto simp: install_trans_def logged_def)
qed

section \<open>The header\<close>

definition put_head :: "uint32 list \<Rightarrow> bytes \<Rightarrow> bytes" where
  "put_head bs c = splice_at 0 (le32 (of_nat (length bs)) @ concat (map le32 bs)) c"

lemma length_concat_le32 [simp]: "length (concat (map le32 bs)) = 4 * length bs"
  by (induction bs) simp_all

lemma splice_at_extend:
  "length p + length q \<le> length c \<Longrightarrow> splice_at (length p) q (splice_at 0 p c) = splice_at 0 (p @ q) c"
  by (simp add: splice_at_def add.commute)

lemma length_put_head [simp]: "length bs \<le> 29 \<Longrightarrow> length c = BSIZE \<Longrightarrow> length (put_head bs c) = BSIZE"
  by (simp add: put_head_def BSIZE_def)

lemma rd32_append: "length p = i \<Longrightarrow> rd32 (p @ le32 w @ q) i = w"
  by (simp add: rd32_def le32_def nth_append)

lemma head_n: "rd32 (put_head bs c) 0 = of_nat (length bs)"
  using rd32_append [of "[]" 0] by (simp add: put_head_def splice_at_def)

lemma head_block: "i < length bs \<Longrightarrow> rd32 (put_head bs c) (4 + 4 * i) = bs ! i"
proof -
  assume i: "i < length bs"
  have "concat (map le32 bs) = concat (map le32 (take i bs)) @ le32 (bs ! i) @ concat (map le32 (drop (Suc i) bs))"
    using id_take_nth_drop [OF i] by (metis concat.simps(2) concat_append list.simps(9) map_append)
  then show ?thesis
    using rd32_append [of "le32 (of_nat (length bs)) @ concat (map le32 (take i bs))" "4 + 4 * i" "bs ! i"] i
    by (simp add: put_head_def splice_at_def)
qed

lemma bwrite_back:
  assumes c: "cinv {i} s" and b: "b_blockno (bufs s ! i) = b" and d: "length d = BSIZE"
  shows "\<exists>s'. (\<forall>sch. thn (bwrite i) (brelse i) (buf_upd i (b_data_update (\<lambda>_. d)) s) sch = Ret () s' sch) \<and>
    wrote s [(b, d)] (dirty_blocks s - {b}) s'"
proof -
  define t where "t = buf_upd i (b_data_update (\<lambda>_. d)) s"
  have i: "i < NBUF" "length (bufs s) = Suc NBUF" using cinv_held [OF c] cinv_table [OF c] by auto
  have t: "cinv {i} t" "content t = (content s)(b := d)" "dirty_blocks t = dirty_blocks s" "b_blockno (bufs t ! i) = b" "b_data (bufs t ! i) = d"
    "memdisk t = memdisk s" "d_writes t = d_writes s" "rest t = rest s"
    using bmodify_spec [OF c _ d, of i b] b i by (simp_all add: t_def)
  obtain s3 where s3: "\<And>sch. bwrite i t sch = Ret () s3 sch" and p3: "bwrite_post {i} t b d i s3"
    using bwrite_ex [OF t(1) _ t(4,5)] by auto
  obtain s4 where s4: "\<And>sch. brelse i s3 sch = Ret () s4 sch" and p4: "brelse_post {i} s3 i s4"
    using brelse_ex [of "{i}" s3 i] p3 by (auto simp: bwrite_post_def)
  have "wrote s [(b, d)] (dirty_blocks s - {b}) s4"
    using p3 p4 t by (simp add: wrote_def bwrite_post_def brelse_post_def)
  then show ?thesis using s3 s4 by (auto simp: t_def)
qed

lemma b_data_id: "b_data_update (\<lambda>d. d) b = b"
  by (cases b) simp

lemma write_head_loop:
  assumes p: "p < length (bufs s)" and n: "n \<le> 29" and len: "length (b_data (bufs s ! p)) = BSIZE"
  shows "\<exists>s'. (\<forall>sch. seqk (map (write_head_step p) [0..<n]) s sch = Ret () s' sch) \<and>
    s' = buf_upd p (b_data_update (\<lambda>d. splice_at 4 (concat (map (\<lambda>i. le32 (home_block s i)) [0..<n])) d)) s"
proof (rule seqk_range [where P = "\<lambda>n s'. s' = buf_upd p (b_data_update (\<lambda>d. splice_at 4 (concat (map (\<lambda>i. le32 (home_block s i)) [0..<n])) d)) s"])
  fix i t assume i: "i < n" and t: "t = buf_upd p (b_data_update (\<lambda>d. splice_at 4 (concat (map (\<lambda>i. le32 (home_block s i)) [0..<i])) d)) s"
  have h: "home_block t = home_block s" by (simp add: t fun_eq_iff home_block_def)
  have cl: "length (concat (map (\<lambda>i. le32 (home_block s i)) [0..<i])) = 4 * i" for i
    by (induction i) simp_all
  have "splice_at (4 + 4 * i) q (splice_at 4 (concat (map (\<lambda>i. le32 (home_block s i)) [0..<i])) (b_data (bufs s ! p))) =
      splice_at 4 (concat (map (\<lambda>i. le32 (home_block s i)) [0..<i]) @ q) (b_data (bufs s ! p))" if "length q = 4" for q
    using i n len that by (simp add: splice_at_def cl BSIZE_def min_def add.commute)
  then have "buf_upd p (\<lambda>b. b\<lparr>b_data := splice_at (4 + 4 * i) (le32 (home_block s i)) (b_data b)\<rparr>) t =
      buf_upd p (b_data_update (\<lambda>d. splice_at 4 (concat (map (\<lambda>i. le32 (home_block s i)) [0..<Suc i])) d)) s"
    using p by (simp add: t buf_upd_buf_upd) (rule buf_upd_cong, simp)
  then show "\<exists>t'. (\<forall>sch. write_head_step p i t sch = Ret () t' sch) \<and>
      t' = buf_upd p (b_data_update (\<lambda>d. splice_at 4 (concat (map (\<lambda>i. le32 (home_block s i)) [0..<Suc i])) d)) s"
    using i n h by (simp add: write_head_step_def)
qed (simp add: splice_at_def buf_upd_id b_data_id)

lemma write_head_spec:
  assumes c: "cinv {} s" and g: "log_geo s" and l: "logged s bs" and d: "log_block s 0 \<notin> dirty_blocks s" "card (dirty_blocks s) < NBUF"
  shows "\<exists>s'. (\<forall>sch. write_head s sch = Ret () s' sch) \<and>
    wrote s [(log_block s 0, put_head bs (content s (log_block s 0)))] (dirty_blocks s) s'"
proof -
  let ?a = "log_block s 0"
  have ad: "?a < disksize s" "log_dev s = 1" using g by (simp_all add: log_geo_def)
  have n: "lh_n (lg s) = int (length bs)" "length bs \<le> 29" "\<And>i. i < length bs \<Longrightarrow> home_block s i = bs ! i"
    using l by (simp_all add: logged_def)
  obtain p s1 where s1: "\<And>sch. bread 1 ?a s sch = Ret p s1 sch" and p1: "bread_post {} s ?a p s1"
    using bread_ex [OF c ad(1)] d(2) by auto
  have c1: "cinv {p} s1" "b_blockno (bufs s1 ! p) = ?a" "b_data (bufs s1 ! p) = content s ?a" "content s1 = content s"
    "memdisk s1 = memdisk s" "d_writes s1 = d_writes s" "rest s1 = rest s" "dirty_blocks s1 = dirty_blocks s"
    using p1 by (simp_all add: bread_post_def)
  have p: "p < length (bufs s1)" "length (content s ?a) = BSIZE"
    using cinv_held [OF c1(1), of p] cinv_table [OF c1(1)] c1(3) by (auto simp: held_buf_def)
  let ?f0 = "\<lambda>b. b\<lparr>b_data := splice_at 0 (le32 (of_nat (length bs))) (b_data b)\<rparr>"
  define s2 where "s2 = buf_upd p ?f0 s1"
  have s2: "p < length (bufs s2)" "length (b_data (bufs s2 ! p)) = BSIZE" "home_block s2 = home_block s"
    using p c1(3) log_rest(2) [OF c1(7)] by (simp_all add: s2_def BSIZE_def) (simp add: home_block_def fun_eq_iff)
  obtain s3 where s3: "\<And>sch. seqk (map (write_head_step p) [0..<length bs]) s2 sch = Ret () s3 sch"
    "s3 = buf_upd p (b_data_update (\<lambda>d. splice_at 4 (concat (map (\<lambda>i. le32 (home_block s i)) [0..<length bs])) d)) s2"
    using write_head_loop [OF s2(1) n(2) s2(2)] s2(3) by auto
  have mp: "map (\<lambda>i. le32 (home_block s i)) [0..<length bs] = map le32 bs"
    using n(3) by (intro nth_equalityI) simp_all
  have "splice_at 4 (concat (map le32 bs)) (splice_at 0 (le32 (of_nat (length bs))) (content s ?a)) = put_head bs (content s ?a)"
    using splice_at_extend [of "le32 (of_nat (length bs))" "concat (map le32 bs)" "content s ?a"] p(2) n(2)
    by (simp add: put_head_def BSIZE_def)
  then have e3: "s3 = buf_upd p (b_data_update (\<lambda>_. put_head bs (content s ?a))) s1"
    using p(1) c1(3) unfolding s3(2) s2_def mp
    by (simp add: buf_upd_buf_upd) (rule buf_upd_cong, simp)
  obtain s4 where s4: "\<And>sch. thn (bwrite p) (brelse p) s3 sch = Ret () s4 sch" and w: "wrote s1 [(?a, put_head bs (content s ?a))] (dirty_blocks s1 - {?a}) s4"
    using bwrite_back [OF c1(1,2), of "put_head bs (content s ?a)"] p(2) n(2) e3 by auto
  have "write_head s sch = Ret () s4 sch" for sch
    using s1 s3(1) s4 [of sch] n(1) ad(2) by (simp add: write_head_def s2_def)
  moreover have "wrote s [(?a, put_head bs (content s ?a))] (dirty_blocks s) s4"
    using w c1 d(1) by (simp add: wrote_def)
  ultimately show ?thesis by blast
qed

section \<open>Committing\<close>

lemma lg_fields [simp]:
  "cinv H (s\<lparr>lg := l\<rparr>) = cinv H s" "content (s\<lparr>lg := l\<rparr>) = content s" "dirty_blocks (s\<lparr>lg := l\<rparr>) = dirty_blocks s"
proof -
  have "ring (s\<lparr>lg := l\<rparr>) = ring s"
    by (auto simp: ring_def nxt_def [abs_def] prv_def [abs_def] fun_eq_iff)
  then show "cinv H (s\<lparr>lg := l\<rparr>) = cinv H s"
    by (simp add: cinv_def cache_inv_def unique_bufs_def held_buf_def free_buf_def)
  show "content (s\<lparr>lg := l\<rparr>) = content s" "dirty_blocks (s\<lparr>lg := l\<rparr>) = dirty_blocks s"
    by (simp_all add: fun_eq_iff content_def dirty_blocks_def split: option.split)
qed

definition clear_n :: "fsys \<Rightarrow> fsys" where
  "clear_n s = s\<lparr>lg := (lg s)\<lparr>lh_n := 0\<rparr>\<rparr>"

lemma clear_n_fields [simp]:
  "log_block (clear_n s) = log_block s" "log_geo (clear_n s) = log_geo s" "content (clear_n s) = content s" "cinv H (clear_n s) = cinv H s"
  "dirty_blocks (clear_n s) = dirty_blocks s" "memdisk (clear_n s) = memdisk s" "d_writes (clear_n s) = d_writes s" "logged (clear_n s) []"
  "disksize (clear_n s) = disksize s"
  by (simp_all add: clear_n_def fun_eq_iff log_block_def log_geo_def log_dev_def logged_def)

lemma rest_clear_n: "rest t = rest s \<Longrightarrow> rest (clear_n t) = rest (clear_n s)"
  using log_rest(5) [of t s] by (cases t; cases s) (simp add: clear_n_def rest_def)

text \<open>The blocks that the commit of the blocks \<open>bs\<close> writes, in order.\<close>

definition commit_writes :: "fsys \<Rightarrow> uint32 list \<Rightarrow> (uint32 \<times> bytes) list" where
  "commit_writes s bs = (let h = content s (log_block s 0) in
     log_copies s bs (length bs) @ (log_block s 0, put_head bs h) # map (\<lambda>b. (b, content s b)) bs @
     [(log_block s 0, put_head [] (put_head bs h))])"

lemma log_copies_at:
  assumes "logged s bs"
  shows "i < length bs \<Longrightarrow> apply_writes (log_copies s bs (length bs)) D (log_block s (Suc i)) = content s (bs ! i)"
    "apply_writes (log_copies s bs (length bs)) D (log_block s 0) = D (log_block s 0)"
    "b \<notin> log_block s ` {..29} \<Longrightarrow> apply_writes (log_copies s bs (length bs)) D b = D b"
proof -
  have n: "length bs \<le> 29" using assms by (simp add: logged_def)
  have f: "map fst (log_copies s bs (length bs)) = map (\<lambda>i. log_block s (Suc i)) [0..<length bs]"
    by (simp add: log_copies_def)
  have "distinct (map fst (log_copies s bs (length bs)))"
    unfolding f using n log_block_inj [of "Suc _" "Suc _" s] by (auto simp: distinct_map inj_on_def)
  then show "i < length bs \<Longrightarrow> apply_writes (log_copies s bs (length bs)) D (log_block s (Suc i)) = content s (bs ! i)"
    by (rule apply_writes_at) (auto simp: log_copies_def)
  have "log_block s 0 \<noteq> log_block s (Suc i)" if "i < length bs" for i
    using that n log_block_inj [of 0 "Suc i" s] by simp
  then show "apply_writes (log_copies s bs (length bs)) D (log_block s 0) = D (log_block s 0)"
    by (intro apply_writes_other) (simp add: log_copies_def image_image image_iff)
  have "log_block s (Suc i) \<in> log_block s ` {..29}" if "i < length bs" for i using that n by auto
  then show "b \<notin> log_block s ` {..29} \<Longrightarrow> apply_writes (log_copies s bs (length bs)) D b = D b"
    by (intro apply_writes_other) (auto simp: log_copies_def)
qed

lemma commit_spec:
  assumes c: "cinv {} s" and g: "log_geo s" and l: "logged s bs" and d: "dirty_blocks s = set bs" "length bs < NBUF" and ne: "bs \<noteq> []"
  shows "\<exists>s'. (\<forall>sch. commit s sch = Ret () s' sch) \<and> wrote (clear_n s) (commit_writes s bs) {} s'"
proof -
  let ?L = "log_block s" and ?h = "content s (log_block s 0)"
  have out: "?L k \<notin> set bs" if "k \<le> 29" for k using logged_outside [OF l that] .
  have card: "card (set bs) < NBUF" using d(2) card_length [of bs] by simp
  obtain s1 where s1: "\<And>sch. write_log s sch = Ret () s1 sch" and w1: "wrote s (log_copies s bs (length bs)) (set bs) s1"
    using write_log_spec [OF c g l d] by blast
  have r1: "rest s1 = rest s" "cinv {} s1" "dirty_blocks s1 = set bs" using w1 by (simp_all add: wrote_def)
  have g1: "log_geo s1" "logged s1 bs" using g l logged_rest [OF r1(1)] by simp_all
  have L1: "log_block s1 = ?L" using log_rest [OF r1(1)] by simp
  have h1: "content s1 (?L 0) = ?h" using w1 log_copies_at(2) [OF l] by (simp add: wrote_def)
  obtain s2 where s2: "\<And>sch. write_head s1 sch = Ret () s2 sch" and w2: "wrote s1 [(?L 0, put_head bs ?h)] (set bs) s2"
    using write_head_spec [OF r1(2) g1] r1(3) L1 h1 out card by auto
  have r2: "rest s2 = rest s" "cinv {} s2" "dirty_blocks s2 = set bs" using w2 r1 by (simp_all add: wrote_def)
  have g2: "log_geo s2" "logged s2 bs" using g l logged_rest [OF r2(1)] by simp_all
  have L2: "log_block s2 = ?L" using log_rest [OF r2(1)] by simp
  have "\<forall>b\<in>set bs. card (insert b (dirty_blocks s2)) < NBUF" using r2(3) card by (simp add: insert_absorb)
  then obtain s3 where s3: "\<And>sch. install_trans s2 sch = Ret () s3 sch" and w3: "wrote s2 (installs s2 bs (length bs)) {} s3"
    using install_trans_spec [OF r2(2) g2] r2(3) L2 out by auto
  have c2: "content s2 (?L (Suc i)) = content s (bs ! i)" if "i < length bs" for i
  proof -
    have "?L (Suc i) \<noteq> ?L 0" using that l log_block_inj [of "Suc i" 0 s] by (simp add: logged_def)
    then show ?thesis using w2 w1 log_copies_at(1) [OF l that] by (simp add: wrote_def)
  qed
  have inst: "installs s2 bs (length bs) = map (\<lambda>b. (b, content s b)) bs"
    using c2 L2 by (intro nth_equalityI) (simp_all add: installs_def)
  have r3: "rest s3 = rest s" "cinv {} s3" "dirty_blocks s3 = {}" using w3 r2 by (simp_all add: wrote_def)
  have L3: "log_block s3 = ?L" using log_rest [OF r3(1)] by simp
  have "?L 0 \<notin> fst ` set (map (\<lambda>b. (b, content s b)) bs)" using out [of 0] by (auto simp: image_image)
  then have h3: "content s3 (?L 0) = put_head bs ?h"
    using w3 w2 inst by (simp add: wrote_def apply_writes_other)
  have "log_geo s3" using g logged_rest(2) [OF r3(1)] by simp
  then obtain s4 where s4: "\<And>sch. write_head (clear_n s3) sch = Ret () s4 sch"
    and w4: "wrote (clear_n s3) [(?L 0, put_head [] (put_head bs ?h))] {} s4"
    using write_head_spec [of "clear_n s3" "[]"] r3 L3 h3 NBUF_def by auto
  have n: "0 < lh_n (lg s)" using l ne by (simp add: logged_def)
  have run: "commit s sch = Ret () s4 sch" for sch
    using s1 s2 s3 s4 n by (simp add: commit_def lg_upd_def clear_n_def)
  have "wrote (clear_n s) (log_copies s bs (length bs) @ [(?L 0, put_head bs ?h)] @ map (\<lambda>b. (b, content s b)) bs) {} (clear_n s3)"
    using w1 w2 w3 inst rest_clear_n [OF r3(1)] by (simp add: wrote_def)
  from wrote_trans [OF this w4] have "wrote (clear_n s) (commit_writes s bs) {} s4"
    by (simp add: commit_writes_def Let_def)
  then show ?thesis using run by blast
qed

section \<open>Recovery\<close>

text \<open>The block numbers that a header block lists.\<close>

definition head_blocks :: "bytes \<Rightarrow> uint32 list" where
  "head_blocks h = map (\<lambda>i. rd32 h (4 + 4 * i)) [0..<unat (rd32 h 0)]"

lemma head_blocks_put: "length bs \<le> 29 \<Longrightarrow> head_blocks (put_head bs c) = bs"
proof -
  assume "length bs \<le> 29"
  then have "unat (rd32 (put_head bs c) 0) = length bs" by (simp add: head_n unat_of_nat_word)
  then show ?thesis by (intro nth_equalityI) (simp_all add: head_blocks_def head_block)
qed

lemma length_head_blocks [simp]: "length (head_blocks h) = unat (rd32 h 0)"
  by (simp add: head_blocks_def)

lemma sint_small: "unat (w :: uint32) < 2 ^ 31 \<Longrightarrow> sint w = int (unat w)"
proof -
  assume a: "unat w < 2 ^ 31"
  have e: "uint w = int (unat w)" by (rule uint_nat)
  moreover have "unat w < 2147483648" using a by simp
  ultimately have "uint w < 2147483648" "- 2147483648 \<le> uint w" by linarith+
  then have u: "uint w < 2 ^ 31" "- (2 ^ 31) \<le> uint w" by simp_all
  have "sint w = signed_take_bit 31 (uint w)" by (simp add: sint_uint)
  also have "\<dots> = uint w" by (rule signed_take_bit_int_eq_self [OF u(2,1)])
  also note e
  finally show ?thesis .
qed

definition with_head :: "bytes \<Rightarrow> fsys \<Rightarrow> fsys" where
  "with_head h s = s\<lparr>lg := (lg s)\<lparr>lh_n := int (unat (rd32 h 0)), lh_block :=
     map (\<lambda>j. if j < unat (rd32 h 0) then sint (rd32 h (4 + 4 * j)) else lh_block (lg s) ! j) [0..<30]\<rparr>\<rparr>"

lemma with_head_fields [simp]:
  "log_block (with_head h s) = log_block s" "log_geo (with_head h s) = log_geo s" "content (with_head h s) = content s" "cinv H (with_head h s) = cinv H s"
  "dirty_blocks (with_head h s) = dirty_blocks s" "memdisk (with_head h s) = memdisk s" "d_writes (with_head h s) = d_writes s"
  "disksize (with_head h s) = disksize s"
  by (simp_all add: with_head_def fun_eq_iff log_block_def log_geo_def log_dev_def clear_n_def)

lemma with_head_home: "i < unat (rd32 h 0) \<Longrightarrow> unat (rd32 h 0) \<le> 29 \<Longrightarrow> home_block (with_head h s) i = head_blocks h ! i"
  by (simp add: home_block_def with_head_def head_blocks_def)

lemma read_head_loop:
  assumes len: "length (lh_block (lg s)) = 30" and n: "n \<le> 29"
  shows "\<exists>s'. (\<forall>sch. seqk (map (read_head_step h) [0..<n]) s sch = Ret () s' sch) \<and>
    s' = s\<lparr>lg := (lg s)\<lparr>lh_block := map (\<lambda>j. if j < n then sint (rd32 h (4 + 4 * j)) else lh_block (lg s) ! j) [0..<30]\<rparr>\<rparr>"
proof (rule seqk_range [where P = "\<lambda>n s'. s' = s\<lparr>lg := (lg s)\<lparr>lh_block :=
    map (\<lambda>j. if j < n then sint (rd32 h (4 + 4 * j)) else lh_block (lg s) ! j) [0..<30]\<rparr>\<rparr>"])
  fix i t assume i: "i < n" and t: "t = s\<lparr>lg := (lg s)\<lparr>lh_block := map (\<lambda>j. if j < i then sint (rd32 h (4 + 4 * j)) else lh_block (lg s) ! j) [0..<30]\<rparr>\<rparr>"
  have "(map (\<lambda>j. if j < i then sint (rd32 h (4 + 4 * j)) else lh_block (lg s) ! j) [0..<30])[i := sint (rd32 h (4 + 4 * i))] =
      map (\<lambda>j. if j < Suc i then sint (rd32 h (4 + 4 * j)) else lh_block (lg s) ! j) [0..<30]"
    by (rule nth_equalityI) (auto simp: nth_upd less_Suc_eq simp del: upt_Suc upt_rec_numeral)
  then show "\<exists>t'. (\<forall>sch. read_head_step h i t sch = Ret () t' sch) \<and> t' = s\<lparr>lg := (lg s)\<lparr>lh_block :=
      map (\<lambda>j. if j < Suc i then sint (rd32 h (4 + 4 * j)) else lh_block (lg s) ! j) [0..<30]\<rparr>\<rparr>"
    using i n by (simp add: read_head_step_def lg_upd_def t del: upt_rec_numeral)
next
  have "map (\<lambda>j. if j < 0 then sint (rd32 h (4 + 4 * j)) else lh_block (lg s) ! j) [0..<30] = lh_block (lg s)"
    using len by (intro nth_equalityI) (simp_all del: upt_rec_numeral)
  then show "s = s\<lparr>lg := (lg s)\<lparr>lh_block := map (\<lambda>j. if j < 0 then sint (rd32 h (4 + 4 * j)) else lh_block (lg s) ! j) [0..<30]\<rparr>\<rparr>"
    by (simp del: upt_rec_numeral)
qed

lemma read_head_spec:
  assumes c: "cinv {} s" and g: "log_geo s" and d: "dirty_blocks s = {}" and len: "length (lh_block (lg s)) = 30"
    and h: "h = content s (log_block s 0)" "unat (rd32 h 0) \<le> 29"
  shows "\<exists>s'. (\<forall>sch. read_head s sch = Ret () s' sch) \<and> wrote (with_head h s) [] {} s'"
proof -
  let ?a = "log_block s 0"
  have ad: "?a < disksize s" "log_dev s = 1" using g by (simp_all add: log_geo_def)
  obtain p s1 where s1: "\<And>sch. bread 1 ?a s sch = Ret p s1 sch" and p1: "bread_post {} s ?a p s1"
    using bread_ex [OF c ad(1)] d NBUF_def by auto
  have c1: "cinv {p} s1" "b_blockno (bufs s1 ! p) = ?a" "b_data (bufs s1 ! p) = h" "content s1 = content s" "content s ?a = memdisk s ?a"
    "memdisk s1 = memdisk s" "d_writes s1 = d_writes s" "rest s1 = rest s" "dirty_blocks s1 = {}"
    using p1 d h by (simp_all add: bread_post_def)
  define s2 where "s2 = s1\<lparr>lg := (lg s1)\<lparr>lh_n := sint (rd32 h 0)\<rparr>\<rparr>"
  have lg1: "lg s1 = lg s" using log_rest(5) [OF c1(8)] .
  have n: "nat (sint (rd32 h 0)) = unat (rd32 h 0)" using sint_small [of "rd32 h 0"] h(2) by simp
  have l2: "length (lh_block (lg s2)) = 30" using len lg1 by (simp add: s2_def)
  obtain s3 where s3: "\<And>sch. seqk (map (read_head_step h) [0..<unat (rd32 h 0)]) s2 sch = Ret () s3 sch" and e3: "s3 = with_head h s1"
    using read_head_loop [OF l2 h(2), of h] sint_small [of "rd32 h 0"] h(2) by (auto simp: with_head_def s2_def)
  have b3: "bufs s3 = bufs s1" by (simp add: e3 with_head_def)
  have c3: "cinv {p} s3" using c1 by (simp add: e3)
  obtain s4 where s4: "\<And>sch. brelse p s3 sch = Ret () s4 sch" and p4: "brelse_post {p} s3 p s4"
    using brelse_ex [OF c3, of p] b3 c1 h by (auto simp: e3)
  have run: "read_head s sch = Ret () s4 sch" for sch
    using s1 s3 s4 c1 ad n by (simp add: read_head_def lg_upd_def s2_def)
  have "rest (with_head h s1) = rest (with_head h s)"
    using c1(8) lg1 by (cases s; cases s1) (simp add: rest_def with_head_def del: upt_rec_numeral)
  then have "wrote (with_head h s) [] {} s4"
    using p4 c1 by (simp add: wrote_def brelse_post_def e3)
  then show ?thesis using run by blast
qed

text \<open>A header whose recovery makes sense: at most 29 different blocks, outside the log.\<close>

definition good_head :: "fsys \<Rightarrow> bytes \<Rightarrow> bool" where
  "good_head s h \<longleftrightarrow> unat (rd32 h 0) \<le> 29 \<and> distinct (head_blocks h) \<and>
     (\<forall>b\<in>set (head_blocks h). b < disksize s \<and> (\<forall>k\<le>29. b \<noteq> log_block s k))"

definition recovery_writes :: "fsys \<Rightarrow> (uint32 \<times> bytes) list" where
  "recovery_writes s = (let h = content s (log_block s 0) in
     installs s (head_blocks h) (length (head_blocks h)) @ [(log_block s 0, put_head [] h)])"

lemma recover_from_log_spec:
  assumes c: "cinv {} s" and g: "log_geo s" and d: "dirty_blocks s = {}" and len: "length (lh_block (lg s)) = 30"
    and h: "h = content s (log_block s 0)" "good_head s h"
  shows "\<exists>s'. (\<forall>sch. recover_from_log s sch = Ret () s' sch) \<and> wrote (clear_n (with_head h s)) (recovery_writes s) {} s'"
proof -
  let ?bs = "head_blocks h"
  have n: "unat (rd32 h 0) \<le> 29" using h(2) by (simp add: good_head_def)
  obtain s1 where s1: "\<And>sch. read_head s sch = Ret () s1 sch" and w1: "wrote (with_head h s) [] {} s1"
    using read_head_spec [OF c g d len h(1) n] by blast
  have r1: "rest s1 = rest (with_head h s)" "cinv {} s1" "dirty_blocks s1 = {}" "content s1 = content s" using w1 by (simp_all add: wrote_def)
  have "logged (with_head h s) ?bs"
    using h(2) with_head_home [OF _ n] unfolding logged_def good_head_def by (simp add: with_head_def [of h s] home_block_def log_block_def) (simp add: with_head_def)
  then have l1: "logged s1 ?bs" "log_geo s1" "log_block s1 = log_block s"
    using logged_rest [OF r1(1)] log_rest(1) [OF r1(1)] g by simp_all
  obtain s2 where s2: "\<And>sch. install_trans s1 sch = Ret () s2 sch" and w2: "wrote s1 (installs s1 ?bs (length ?bs)) {} s2"
    using install_trans_spec [OF r1(2) l1(2,1)] r1(3) NBUF_def by auto
  have inst: "installs s1 ?bs (length ?bs) = installs s ?bs (length ?bs)"
    using r1(4) l1(3) by (simp add: installs_def)
  have r2: "rest s2 = rest s1" "cinv {} s2" "dirty_blocks s2 = {}" using w2 by (simp_all add: wrote_def)
  have L2: "log_block s2 = log_block s" "log_geo s2" using log_rest(1) [OF r2(1)] l1 logged_rest(2) [OF r2(1)] by simp_all
  have "log_block s 0 \<notin> set ?bs" using logged_outside [OF l1(1), of 0] l1(3) by simp
  then have "log_block s 0 \<notin> fst ` set (installs s1 ?bs (length ?bs))"
    using nth_mem [of _ ?bs] by (force simp: installs_def)
  then have h2: "content s2 (log_block s 0) = h"
    using w2 r1(4) h(1) by (simp add: wrote_def apply_writes_other)
  obtain s3 where s3: "\<And>sch. write_head (clear_n s2) sch = Ret () s3 sch" and w3: "wrote (clear_n s2) [(log_block s 0, put_head [] h)] {} s3"
    using write_head_spec [of "clear_n s2" "[]"] r2 L2 h2 NBUF_def by auto
  have run: "recover_from_log s sch = Ret () s3 sch" for sch
    using s1 s2 s3 by (simp add: recover_from_log_def lg_upd_def clear_n_def)
  have "rest (clear_n s2) = rest (clear_n (with_head h s))" by (rule rest_clear_n) (use r1(1) r2(1) in simp)
  then have "wrote (clear_n (with_head h s)) (installs s ?bs (length ?bs)) {} (clear_n s2)"
    using w1 w2 inst by (simp add: wrote_def)
  from wrote_trans [OF this w3] show ?thesis using run h(1) by (auto simp: recovery_writes_def Let_def)
qed

text \<open>\<^verbatim>\<open>initlog\<close> on a machine that has just been started with the disk \<open>D\<close> of \<open>n\<close> blocks.\<close>

definition reboot :: "uint32 \<Rightarrow> (uint32 \<Rightarrow> bytes) \<Rightarrow> (fsys, unit) outcome" where
  "reboot n D = thn binit (initlog 1) (power_on D n) []"

definition disk_log :: "(uint32 \<Rightarrow> bytes) \<Rightarrow> nat \<Rightarrow> uint32" where
  "disk_log D k = rd32 (D 1) 16 + of_nat k"

definition disk_installs :: "(uint32 \<Rightarrow> bytes) \<Rightarrow> (uint32 \<times> bytes) list" where
  "disk_installs D = (let bs = head_blocks (D (disk_log D 0)) in map (\<lambda>i. (bs ! i, D (disk_log D (Suc i)))) [0..<length bs])"

text \<open>A disk of \<open>n\<close> blocks that recovery can work on: the super block names a log inside the disk that
  does not contain the super block, and the header lists different blocks outside of both.\<close>

definition disk_ok :: "uint32 \<Rightarrow> (uint32 \<Rightarrow> bytes) \<Rightarrow> bool" where
  "disk_ok n D \<longleftrightarrow> 1 < n \<and> (\<forall>b. length (D b) = BSIZE) \<and> (\<forall>k\<le>29. disk_log D k < n \<and> disk_log D k \<noteq> 1) \<and>
     (let bs = head_blocks (D (disk_log D 0)) in
      length bs \<le> 29 \<and> distinct bs \<and> (\<forall>b\<in>set bs. b < n \<and> b \<noteq> 1 \<and> (\<forall>k\<le>29. b \<noteq> disk_log D k)))"

text \<open>The log in memory after start-up: empty, at the place that the super block names.\<close>

definition log_ready :: "uint32 \<Rightarrow> (uint32 \<Rightarrow> bytes) \<Rightarrow> fsys \<Rightarrow> bool" where
  "log_ready n D s \<longleftrightarrow> log_geo s \<and> logged s [] \<and> log_block s = disk_log D \<and> disksize s = n \<and> length (lh_block (lg s)) = 30 \<and>
     l_start (lg s) = sint (rd32 (D 1) 16) \<and> l_size (lg s) = sint (rd32 (D 1) 12) \<and> l_outstanding (lg s) = 0 \<and>
     \<not> l_committing (lg s) \<and> \<not> log_lk s"

lemma reboot_spec:
  assumes ok: "disk_ok n D"
  shows "\<exists>r. reboot n D = Ret () r [] \<and> d_writes r = disk_installs D @ [(disk_log D 0, put_head [] (D (disk_log D 0)))] \<and>
    memdisk r = apply_writes (d_writes r) D \<and> cinv {} r \<and> content r = memdisk r \<and> dirty_blocks r = {} \<and> log_ready n D r"
proof -
  have len: "\<And>b. length (D b) = BSIZE" and n1: "1 < n" using ok by (simp_all add: disk_ok_def)
  obtain s where s: "\<And>sch. binit (power_on D n) sch = Ret () s sch" and f: "fresh_cache D n s"
    using binit_spec [of D n, OF len] by blast
  have c: "cinv {} s" "content s = D" "dirty_blocks s = {}" "memdisk s = D" "d_writes s = []" "rest s = rest (power_on D n)"
    using f by (simp_all add: fresh_cache_def)
  have ds: "disksize s = n" "\<not> log_lk s" using rest_fields [OF c(6)] by simp_all
  have sl: "s\<lparr>log_lk := False\<rparr> = s" using ds by simp
  obtain p s1 where s1: "\<And>sch. bread 1 1 s sch = Ret p s1 sch" and p1: "bread_post {} s 1 p s1"
    using bread_ex [OF c(1), of 1] ds n1 c(3) NBUF_def by auto
  have c1: "cinv {p} s1" "b_data (bufs s1 ! p) = D 1" "b_blockno (bufs s1 ! p) = 1" "memdisk s1 = D" using p1 c by (simp_all add: bread_post_def)
  obtain s2 where s2: "\<And>sch. brelse p s1 sch = Ret () s2 sch" and p2: "brelse_post {p} s1 p s2"
    using brelse_ex [OF c1(1), of p] c1 by auto
  have c2: "cinv {} s2" "content s2 = D" "dirty_blocks s2 = {}" "memdisk s2 = D" "d_writes s2 = []" "rest s2 = rest s"
    using p1 p2 c by (simp_all add: bread_post_def brelse_post_def)
  define s3 where "s3 = s2\<lparr>lg := (lg s2)\<lparr>l_start := sint (rd32 (D 1) 16), l_size := sint (rd32 (D 1) 12), l_dev := 1\<rparr>\<rparr>"
  have c3: "cinv {} s3" "content s3 = D" "dirty_blocks s3 = {}" "memdisk s3 = D" "d_writes s3 = []"
    using c2 by (simp_all add: s3_def)
  have d3: "disksize s3 = n" "length (lh_block (lg s3)) = 30"
    using rest_fields [OF c2(6)] rest_fields [OF c(6)] ds by (simp_all add: s3_def power_on_def zero_fs_def)
  have L3: "log_block s3 = disk_log D" by (simp add: fun_eq_iff log_block_def disk_log_def s3_def)
  have g3: "log_geo s3" using ok L3 d3 by (simp add: log_geo_def disk_ok_def log_dev_def s3_def)
  have "good_head s3 (content s3 (log_block s3 0))"
    using ok L3 c3(2) d3(1) by (simp add: good_head_def disk_ok_def Let_def)
  then obtain r where r: "\<And>sch. recover_from_log s3 sch = Ret () r sch"
    and w: "wrote (clear_n (with_head (content s3 (log_block s3 0)) s3)) (recovery_writes s3) {} r"
    using recover_from_log_spec [OF c3(1) g3 c3(3) d3(2) refl] by blast
  have "initlog 1 s sch = Ret () r sch" for sch
    using s1 s2 r c1(2) sl by (simp add: initlog_def readsb_def lg_upd_def BSIZE_def s3_def)
  then have "reboot n D = Ret () r []" using s by (simp add: reboot_def)
  moreover have "recovery_writes s3 = disk_installs D @ [(disk_log D 0, put_head [] (D (disk_log D 0)))]"
    using L3 c3(2) by (simp add: recovery_writes_def disk_installs_def installs_def Let_def)
  moreover have "log_ready n D r"
  proof -
    let ?t = "clear_n (with_head (content s3 (log_block s3 0)) s3)"
    have rr: "rest r = rest ?t" using w by (simp add: wrote_def)
    have lgt: "l_start (lg ?t) = l_start (lg s3)" "l_size (lg ?t) = l_size (lg s3)" "l_outstanding (lg ?t) = l_outstanding (lg s3)"
      "l_committing (lg ?t) = l_committing (lg s3)" "length (lh_block (lg ?t)) = 30" "\<not> log_lk ?t"
      using rest_fields(7) [OF c2(6)] ds by (simp_all add: clear_n_def with_head_def s3_def)
    have lg2: "lg s2 = lg (power_on D n)" using rest_fields(2) [OF c2(6)] rest_fields(2) [OF c(6)] by simp
    have lg3: "l_start (lg s3) = sint (rd32 (D 1) 16)" "l_size (lg s3) = sint (rd32 (D 1) 12)" "l_outstanding (lg s3) = 0" "\<not> l_committing (lg s3)"
      using lg2 by (simp_all add: s3_def power_on_def zero_fs_def)
    have "lg r = lg ?t" "\<not> log_lk r" "log_geo r" "logged r []" "log_block r = disk_log D" "disksize r = n"
      using rest_fields [OF rr] log_rest [OF rr] logged_rest [OF rr] lgt(6) g3 L3 d3 by simp_all
    then show ?thesis using lgt lg3 by (simp add: log_ready_def)
  qed
  ultimately show ?thesis using w c3 by (simp add: wrote_def)
qed

section \<open>Recording a block\<close>

definition log_add :: "uint32 \<Rightarrow> uint32 list \<Rightarrow> uint32 list" where
  "log_add b bs = (if b \<in> set bs then bs else bs @ [b])"

definition log_write_post :: "nat set \<Rightarrow> fsys \<Rightarrow> uint32 \<Rightarrow> uint32 list \<Rightarrow> nat \<Rightarrow> fsys \<Rightarrow> bool" where
  "log_write_post H s b bs i s' \<longleftrightarrow> cinv H s' \<and> content s' = content s \<and> dirty_blocks s' = insert b (dirty_blocks s) \<and>
     logged s' (log_add b bs) \<and> memdisk s' = memdisk s \<and> d_writes s' = d_writes s \<and> rest s' = rest (s\<lparr>lg := lg s'\<rparr>) \<and>
     lg s' = (lg s)\<lparr>lh_n := int (length (log_add b bs)), lh_block := lh_block (lg s')\<rparr> \<and> length (lh_block (lg s')) = 30 \<and>
     is_dirty (bufs s' ! i) \<and> b_blockno (bufs s' ! i) = b \<and> b_data (bufs s' ! i) = b_data (bufs s ! i) \<and>
     (\<forall>j. j \<noteq> i \<longrightarrow> bufs s' ! j = bufs s ! j)"

lemma set_dirty_spec:
  assumes c: "cinv H s" and i: "i \<in> H" "b_blockno (bufs s ! i) = b"
  shows "cinv H (buf_upd i (\<lambda>b. b\<lparr>b_flags := b_flags b OR B_DIRTY\<rparr>) s)"
    "content (buf_upd i (\<lambda>b. b\<lparr>b_flags := b_flags b OR B_DIRTY\<rparr>) s) = content s"
    "dirty_blocks (buf_upd i (\<lambda>b. b\<lparr>b_flags := b_flags b OR B_DIRTY\<rparr>) s) = insert b (dirty_blocks s)"
proof -
  let ?f = "\<lambda>b :: buf. b\<lparr>b_flags := b_flags b OR B_DIRTY\<rparr>"
  have iN: "i < NBUF" and h: "held_buf s (bufs s ! i)" using cinv_held [OF c i(1)] by auto
  have len: "length (bufs s) = Suc NBUF" using c by (rule cinv_table)
  have f: "is_valid (?f (bufs s ! i)) = is_valid (bufs s ! i)" "is_dirty (?f (bufs s ! i))"
    by (simp_all add: flag_simps)
  show c': "cinv H (buf_upd i ?f s)"
    using h i f by (intro cinv_upd [OF c iN]) (simp_all add: held_buf_def)
  show "content (buf_upd i ?f s) = content s"
  proof (rule ext)
    fix x
    show "content (buf_upd i ?f s) x = content s x"
    proof (cases "x = b")
      case True
      then show ?thesis using content_upd_same [OF c' iN] content_hit [OF c iN] h f i by (simp add: held_buf_def)
    next
      case False
      then show ?thesis using i by (intro content_upd_other [OF c c' iN]) simp_all
    qed
  qed
  show "dirty_blocks (buf_upd i ?f s) = insert b (dirty_blocks s)"
    unfolding dirty_blocks_upd [OF len iN] dirty_blocks_split [OF iN, of s] using f i by auto
qed

lemma log_index:
  assumes l: "logged s bs" and len: "length (lh_block (lg s)) = 30"
  shows "find_idx (\<lambda>x. of_int x = b) (take (nat (lh_n (lg s))) (lh_block (lg s))) = find_idx (\<lambda>x. x = b) bs"
proof -
  have "map of_int (take (length bs) (lh_block (lg s))) = bs"
    using l len by (intro nth_equalityI) (simp_all add: logged_def home_block_def)
  moreover have "find_idx (\<lambda>x. of_int x = b) xs = find_idx (\<lambda>x. x = b) (map of_int xs)" for xs
    by (induction xs) simp_all
  ultimately show ?thesis using l by (simp add: logged_def)
qed

lemma log_write_spec:
  assumes c: "cinv H s" and i: "i \<in> H" "b_blockno (bufs s ! i) = b" and l: "logged s bs" "length (lh_block (lg s)) = 30" "\<not> log_lk s"
    and n: "length bs < 29" "int (length bs) < l_size (lg s) - 1" "1 \<le> l_outstanding (lg s)" and b: "\<forall>k\<le>29. b \<noteq> log_block s k"
  shows "\<exists>s'. (\<forall>sch. log_write i s sch = Ret () s' sch) \<and> log_write_post H s b bs i s'"
proof -
  let ?f = "\<lambda>b :: buf. b\<lparr>b_flags := b_flags b OR B_DIRTY\<rparr>"
  let ?n = "length bs" and ?bl = "lh_block (lg s)"
  have nl: "lh_n (lg s) = int ?n" using l(1) by (simp add: logged_def)
  define j where "j = (case find_idx (\<lambda>x. x = b) bs of Some i \<Rightarrow> i | None \<Rightarrow> ?n)"
  have j: "if b \<in> set bs then j < ?n \<and> bs ! j = b else j = ?n"
    using find_idx_SomeD [of "\<lambda>x. x = b" bs] find_idx_None_iff [of "\<lambda>x. x = b" bs]
    by (auto simp: j_def split: option.split)
  define l' where "l' = (lg s)\<lparr>lh_block := ?bl[j := sint b], lh_n := int (length (log_add b bs))\<rparr>"
  define s' where "s' = buf_upd i ?f (s\<lparr>lg := l'\<rparr>)"
  have run: "log_write i s sch = Ret () s' sch" for sch
  proof -
    have fi: "(case find_idx (\<lambda>x. of_int x = b) (take (nat (lh_n (lg s))) ?bl) of None \<Rightarrow> nat (lh_n (lg s)) | Some i \<Rightarrow> i) = j"
      unfolding log_index [OF l(1,2)] by (simp add: j_def nl split: option.split)
    have l'': "l' = (if int j = lh_n (lg s) then (lg s)\<lparr>lh_block := ?bl[j := sint b], lh_n := lh_n (lg s) + 1\<rparr> else (lg s)\<lparr>lh_block := ?bl[j := sint b]\<rparr>)"
      using j nl by (cases "lg s") (auto simp: l'_def log_add_def)
    have pre: "\<not> (30 \<le> lh_n (lg s) \<or> l_size (lg s) - 1 \<le> lh_n (lg s))" "\<not> l_outstanding (lg s) < 1" using n nl by simp_all
    show ?thesis
      using l(3) i(2) pre fi by (simp add: log_write_def acquire_log_def release_log_def lg_upd_def Let_def l'' s'_def buf_upd_def)
  qed
  have cs: "cinv H (s\<lparr>lg := l'\<rparr>)" using c by simp
  note sd = set_dirty_spec [OF cs i(1), of b, folded s'_def]
  have iN: "i < length (bufs s)" "b < disksize s" using cinv_held [OF c i(1)] cinv_table [OF c] i by (auto simp: held_buf_def)
  have lb: "log_block s' = log_block s" "home_block s' = (\<lambda>k. of_int (?bl[j := sint b] ! k))" "lg s' = l'" "disksize s' = disksize s"
    by (simp_all add: fun_eq_iff log_block_def home_block_def s'_def l'_def)
  have hb: "of_int (?bl[j := sint b] ! k) = log_add b bs ! k" if "k < length (log_add b bs)" for k
  proof (cases "k = j")
    case True
    then show ?thesis using j l n by (auto simp: log_add_def split: if_splits)
  next
    case False
    then have "k < ?n" using that j by (auto simp: log_add_def split: if_splits)
    then show ?thesis using False l by (auto simp: log_add_def logged_def home_block_def nth_append)
  qed
  have "distinct (log_add b bs)" "length (log_add b bs) \<le> 29" using l n by (auto simp: log_add_def logged_def)
  moreover have "\<forall>x\<in>set (log_add b bs). x < disksize s \<and> (\<forall>k\<le>29. x \<noteq> log_block s k)"
    using l(1) b iN by (auto simp: log_add_def logged_def)
  ultimately have "logged s' (log_add b bs)" using hb lb by (simp add: logged_def l'_def)
  moreover have "is_dirty (bufs s' ! i)" "b_blockno (bufs s' ! i) = b" "b_data (bufs s' ! i) = b_data (bufs s ! i)"
    using iN i by (simp_all add: s'_def flag_simps)
  ultimately have "log_write_post H s b bs i s'"
    using sd i l lb by (simp add: log_write_post_def) (simp add: s'_def l'_def)
  then show ?thesis using run by blast
qed

end
