(* ===== verification/Str.thy ===== *)
theory Str
  imports Prelude
begin

text \<open>
  The byte-string routines of the kernel (\<^verbatim>\<open>src/string.c\<close>) and of user programs (\<^verbatim>\<open>src/ulib.c\<close>).

  The routines on raw memory (\<open>memset\<close>, \<open>memcmp\<close>, \<open>memmove\<close>, \<open>memcpy\<close>) work on the
  byte-addressed memory, with 32-bit pointers that wrap, so that overlapping operands are
  covered. The routines on strings read through a pointer, a function from offsets to bytes;
  a routine that writes a string returns the bytes it writes, in order. Loops that run until a
  NUL byte may not end and are partial: the value \<open>None\<close> means that they do not return.

  Shown: \<open>memmove\<close> copies the original source bytes also when the operands overlap, both ways of
  filling memory agree, \<open>strncmp\<close> decides equality of the strings cut at \<open>n\<close>, a string written by
  \<open>strncpy\<close> compares equal to its source, \<open>safestrcpy\<close> always terminates its result.
\<close>

type_synonym cstr = "nat \<Rightarrow> uchar"

section \<open>The kernel's routines\<close>

fun stosb :: "uint32 \<Rightarrow> uchar \<Rightarrow> nat \<Rightarrow> memory \<Rightarrow> memory" where
  "stosb a c 0 m = m"
| "stosb a c (Suc n) m = stosb (a + 1) c n (m(a := c))"

fun stosl :: "uint32 \<Rightarrow> uint32 \<Rightarrow> nat \<Rightarrow> memory \<Rightarrow> memory" where
  "stosl a w 0 m = m"
| "stosl a w (Suc n) m = stosl (a + 4) w n (mstore a (le32 w) m)"

definition memset :: "uint32 \<Rightarrow> uint32 \<Rightarrow> uint32 \<Rightarrow> memory \<Rightarrow> memory" where
  "memset dst c n m =
     (if sint dst mod 4 = 0 \<and> n mod 4 = 0 then
        (let c = c AND 0xFF in
         stosl dst (push_bit 24 c OR push_bit 16 c OR push_bit 8 c OR c) (unat (n div 4)) m)
      else stosb dst (ucast c) (unat n) m)"

fun memcmp_loop :: "uint32 \<Rightarrow> uint32 \<Rightarrow> nat \<Rightarrow> memory \<Rightarrow> int" where
  "memcmp_loop s1 s2 0 m = 0"
| "memcmp_loop s1 s2 (Suc n) m =
     (if m s1 \<noteq> m s2 then uint (m s1) - uint (m s2) else memcmp_loop (s1 + 1) (s2 + 1) n m)"

definition memcmp :: "uint32 \<Rightarrow> uint32 \<Rightarrow> uint32 \<Rightarrow> memory \<Rightarrow> int" where
  "memcmp v1 v2 n m = memcmp_loop v1 v2 (unat n) m"

fun copy_down :: "uint32 \<Rightarrow> uint32 \<Rightarrow> nat \<Rightarrow> memory \<Rightarrow> memory" where
  "copy_down d s 0 m = m"
| "copy_down d s (Suc n) m = copy_down (d - 1) (s - 1) n (m(d - 1 := m (s - 1)))"

fun copy_up :: "uint32 \<Rightarrow> uint32 \<Rightarrow> nat \<Rightarrow> memory \<Rightarrow> memory" where
  "copy_up d s 0 m = m"
| "copy_up d s (Suc n) m = copy_up (d + 1) (s + 1) n (m(d := m s))"

definition memmove :: "uint32 \<Rightarrow> uint32 \<Rightarrow> uint32 \<Rightarrow> memory \<Rightarrow> memory" where
  "memmove dst src n m =
     (if src < dst \<and> dst < src + n then copy_down (dst + n) (src + n) (unat n) m
      else copy_up dst src (unat n) m)"

definition memcpy :: "uint32 \<Rightarrow> uint32 \<Rightarrow> uint32 \<Rightarrow> memory \<Rightarrow> memory" where
  "memcpy dst src n m = memmove dst src n m"

fun strncmp_loop :: "cstr \<Rightarrow> cstr \<Rightarrow> nat \<Rightarrow> nat \<Rightarrow> int" where
  "strncmp_loop p q i 0 = 0"
| "strncmp_loop p q i (Suc n) =
     (if p i \<noteq> 0 \<and> p i = q i then strncmp_loop p q (Suc i) n else uint (p i) - uint (q i))"

definition strncmp :: "cstr \<Rightarrow> cstr \<Rightarrow> uint32 \<Rightarrow> int" where
  "strncmp p q n = strncmp_loop p q 0 (unat n)"

fun strncpy_loop :: "cstr \<Rightarrow> nat \<Rightarrow> nat \<Rightarrow> bytes" where
  "strncpy_loop t i 0 = []"
| "strncpy_loop t i (Suc n) = t i # (if t i \<noteq> 0 then strncpy_loop t (Suc i) n else replicate n 0)"

definition strncpy :: "cstr \<Rightarrow> int \<Rightarrow> bytes" where
  "strncpy t n = strncpy_loop t 0 (nat n)"

fun safestrcpy_loop :: "cstr \<Rightarrow> nat \<Rightarrow> nat \<Rightarrow> bytes" where
  "safestrcpy_loop t i 0 = [0]"
| "safestrcpy_loop t i (Suc n) = t i # (if t i \<noteq> 0 then safestrcpy_loop t (Suc i) n else [0])"

definition safestrcpy :: "cstr \<Rightarrow> int \<Rightarrow> bytes" where
  "safestrcpy t n = (if n \<le> 0 then [] else safestrcpy_loop t 0 (nat (n - 1)))"

partial_function (option) strlen_loop :: "cstr \<Rightarrow> nat \<Rightarrow> nat option" where
  "strlen_loop s n = (if s n \<noteq> 0 then strlen_loop s (Suc n) else Some n)"

definition strlen :: "cstr \<Rightarrow> nat option" where
  "strlen s = strlen_loop s 0"

section \<open>The routines of user programs\<close>

partial_function (option) strcpy_loop :: "cstr \<Rightarrow> nat \<Rightarrow> bytes \<Rightarrow> bytes option" where
  "strcpy_loop t i out = (if t i \<noteq> 0 then strcpy_loop t (Suc i) (out @ [t i]) else Some (out @ [0]))"

definition strcpy :: "cstr \<Rightarrow> bytes option" where
  "strcpy t = strcpy_loop t 0 []"

partial_function (option) strcmp_loop :: "cstr \<Rightarrow> cstr \<Rightarrow> nat \<Rightarrow> int option" where
  "strcmp_loop p q i =
     (if p i \<noteq> 0 \<and> p i = q i then strcmp_loop p q (Suc i) else Some (uint (p i) - uint (q i)))"

definition strcmp :: "cstr \<Rightarrow> cstr \<Rightarrow> int option" where
  "strcmp p q = strcmp_loop p q 0"

definition u_strlen :: "cstr \<Rightarrow> uint32 option" where
  "u_strlen s = map_option of_nat (strlen_loop s 0)"

definition u_memset :: "uint32 \<Rightarrow> uint32 \<Rightarrow> uint32 \<Rightarrow> memory \<Rightarrow> memory" where
  "u_memset dst c n m = stosb dst (ucast c) (unat n) m"

partial_function (option) strchr_loop :: "cstr \<Rightarrow> uchar \<Rightarrow> nat \<Rightarrow> nat option option" where
  "strchr_loop s c i =
     (if s i = 0 then Some None else if s i = c then Some (Some i) else strchr_loop s c (Suc i))"

definition strchr :: "cstr \<Rightarrow> uchar \<Rightarrow> nat option option" where
  "strchr s c = strchr_loop s c 0"

text \<open>\<^verbatim>\<open>gets\<close> calls \<^verbatim>\<open>read(0, &c, 1)\<close>; the argument \<open>rd\<close> is that system call, on the state of
  the kernel, with its result and the byte it stored.\<close>

fun gets_loop :: "('s \<Rightarrow> int \<times> uchar \<times> 's) \<Rightarrow> nat \<Rightarrow> 's \<Rightarrow> bytes \<times> 's" where
  "gets_loop rd 0 s = ([0], s)"
| "gets_loop rd (Suc k) s =
     (case rd s of (cc, c, s') \<Rightarrow>
        if cc < 1 then ([0], s')
        else if c = 10 \<or> c = 13 then ([c, 0], s')
        else (case gets_loop rd k s' of (bs, s'') \<Rightarrow> (c # bs, s'')))"

definition u_gets :: "('s \<Rightarrow> int \<times> uchar \<times> 's) \<Rightarrow> int \<Rightarrow> 's \<Rightarrow> bytes \<times> 's" where
  "u_gets rd mx s = gets_loop rd (nat (mx - 1)) s"

text \<open>\<^verbatim>\<open>stat\<close> over the system calls \<^verbatim>\<open>open\<close>, \<^verbatim>\<open>fstat\<close> and \<^verbatim>\<open>close\<close>.\<close>

definition u_stat :: "('n \<Rightarrow> 's \<Rightarrow> int \<times> 's) \<Rightarrow> (int \<Rightarrow> 's \<Rightarrow> int \<times> 's) \<Rightarrow> (int \<Rightarrow> 's \<Rightarrow> 's) \<Rightarrow> 'n \<Rightarrow> 's \<Rightarrow> int \<times> 's" where
  "u_stat u_open fstat u_close n s =
     (case u_open n s of (fd, s1) \<Rightarrow>
        if fd < 0 then (-1, s1)
        else (case fstat fd s1 of (r, s2) \<Rightarrow> (r, u_close fd s2)))"

partial_function (option) atoi_loop :: "cstr \<Rightarrow> nat \<Rightarrow> uint32 \<Rightarrow> uint32 option" where
  "atoi_loop s i n =
     (if 48 \<le> s i \<and> s i \<le> 57 then atoi_loop s (Suc i) (n * 10 + ucast (s i) - 48) else Some n)"

definition atoi :: "cstr \<Rightarrow> int option" where
  "atoi s = map_option sint (atoi_loop s 0 0)"

definition u_memmove :: "uint32 \<Rightarrow> uint32 \<Rightarrow> int \<Rightarrow> memory \<Rightarrow> memory" where
  "u_memmove vdst vsrc n m = copy_up vdst vsrc (nat n) m"

section \<open>Raw memory\<close>

lemma unat_pred: "(y :: uint32) \<noteq> 0 \<Longrightarrow> unat (y - 1) = unat y - 1"
  by (simp add: unat_minus_one)

lemma unat_lt: "unat (y :: uint32) < 4294967296"
proof -
  have "unat y < 2 ^ LENGTH(32)" by (rule unsigned_less)
  then show ?thesis by simp
qed

lemma unat_minus_1 [simp]: "unat (- 1 :: uint32) = 4294967295"
  by (simp add: unsigned_minus_1_eq_mask mask_eq_exp_minus_1)

lemma copy_up_at:
  "(\<And>i j. i < j \<Longrightarrow> j < n \<Longrightarrow> d + of_nat i \<noteq> s + of_nat j) \<Longrightarrow> n \<le> 2 ^ 32 \<Longrightarrow>
   copy_up d s n m x = (if unat (x - d) < n then m (s + (x - d)) else m x)"
proof (induction n arbitrary: d s m)
  case 0
  then show ?case by simp
next
  case (Suc n)
  define m' where "m' = m(d := m s)"
  have sep: "d + 1 + of_nat i \<noteq> s + 1 + of_nat j" if "i < j" "j < n" for i j
    using Suc.prems(1) [of "Suc i" "Suc j"] that by (simp add: algebra_simps)
  have ne: "s + (x - d) \<noteq> d" if "x \<noteq> d" "unat (x - d) < Suc n"
    using Suc.prems(1) [of 0 "unat (x - d)"] that by (auto simp: unat_gt_0)
  have "copy_up (d + 1) (s + 1) n m' x = (if unat (x - (d + 1)) < n then m' (s + 1 + (x - (d + 1))) else m' x)"
    by (rule Suc.IH) (use sep Suc.prems(2) in simp_all)
  moreover have "x - (d + 1) = x - d - 1" and "s + 1 + (x - (d + 1)) = s + (x - d)"
    by (simp_all add: algebra_simps)
  ultimately have step: "copy_up (d + 1) (s + 1) n m' x = (if unat (x - d - 1) < n then m' (s + (x - d)) else m' x)"
    by simp
  show ?case
  proof (cases "x = d")
    case True
    with step Suc.prems(2) show ?thesis by (simp add: m'_def)
  next
    case False
    then have pred: "unat (x - d) \<noteq> 0" "unat (x - d - 1) = unat (x - d) - 1"
      using unat_pred [of "x - d"] by (auto simp: unat_gt_0)
    have "unat (x - d - 1) < n \<longleftrightarrow> unat (x - d) < Suc n" using pred by linarith
    with step ne False show ?thesis by (simp add: m'_def)
  qed
qed

lemma copy_down_at:
  "(\<And>i j. i < j \<Longrightarrow> j < n \<Longrightarrow> d - 1 - of_nat i \<noteq> s - 1 - of_nat j) \<Longrightarrow> n \<le> 2 ^ 32 \<Longrightarrow>
   copy_down d s n m x = (if unat (d - 1 - x) < n then m (s - (d - x)) else m x)"
proof (induction n arbitrary: d s m)
  case 0
  then show ?case by simp
next
  case (Suc n)
  define m' where "m' = m(d - 1 := m (s - 1))"
  have sep: "d - 1 - 1 - of_nat i \<noteq> s - 1 - 1 - of_nat j" if "i < j" "j < n" for i j
    using Suc.prems(1) [of "Suc i" "Suc j"] that by (simp add: algebra_simps)
  have ne: "s - (d - x) \<noteq> d - 1" if "x \<noteq> d - 1" "unat (d - 1 - x) < Suc n"
    using Suc.prems(1) [of 0 "unat (d - 1 - x)"] that by (auto simp: unat_gt_0 algebra_simps)
  have "copy_down (d - 1) (s - 1) n m' x = (if unat (d - 1 - 1 - x) < n then m' (s - 1 - (d - 1 - x)) else m' x)"
    by (rule Suc.IH) (use sep Suc.prems(2) in simp_all)
  moreover have "d - 1 - 1 - x = d - 1 - x - 1" and "s - 1 - (d - 1 - x) = s - (d - x)"
    by (simp_all add: algebra_simps)
  ultimately have step: "copy_down (d - 1) (s - 1) n m' x = (if unat (d - 1 - x - 1) < n then m' (s - (d - x)) else m' x)"
    by presburger
  show ?case
  proof (cases "x = d - 1")
    case True
    with step Suc.prems(2) show ?thesis by (simp add: m'_def)
  next
    case False
    then have pred: "unat (d - 1 - x) \<noteq> 0" "unat (d - 1 - x - 1) = unat (d - 1 - x) - 1"
      using unat_pred [of "d - 1 - x"] by (auto simp: unat_gt_0)
    have "unat (d - 1 - x - 1) < n \<longleftrightarrow> unat (d - 1 - x) < Suc n" using pred by linarith
    with step ne False show ?thesis by (simp add: m'_def)
  qed
qed

lemma mstore_mload_at:
  "mstore d (mload s n m) m' x = (if unat (x - d) < n then m (s + (x - d)) else m' x)"
  by (simp add: mstore_def mload_def)

lemma unat_add_nat:
  "unat (a :: uint32) + i < 2 ^ 32 \<Longrightarrow> unat (a + of_nat i) = unat a + i"
  using unat_of_nat_word [of i] by (simp add: unat_plus_if')

text \<open>C25: \<^verbatim>\<open>memmove\<close> is a simultaneous assignment: for operands that do not run over the end of the
  address space, also overlapping ones in either direction, the destination receives the bytes
  the source had before the call, and no other byte of memory changes.\<close>

theorem memmove_overlap:
  assumes "unat src + unat n < 2 ^ 32" "unat dst + unat n \<le> 2 ^ 32"
  shows "memmove dst src n m = mstore dst (mload src (unat n) m) m"
proof (cases "src < dst \<and> dst < src + n")
  case True
  have sep: "dst + n - 1 - of_nat i \<noteq> src + n - 1 - of_nat j" if "i < j" "j < unat n" for i j
  proof
    assume "dst + n - 1 - of_nat i = src + n - 1 - of_nat j"
    then have "dst + of_nat j = src + of_nat i" by (simp add: algebra_simps)
    then have "unat dst + j = unat src + i"
      using unat_add_nat [of dst j] unat_add_nat [of src i] that assms by simp
    with True that show False by (simp add: word_less_nat_alt)
  qed
  have in_iff: "unat (dst + n - 1 - x) < unat n \<longleftrightarrow> unat (x - dst) < unat n" for x
  proof -
    have n0: "n \<noteq> 0" using True by auto
    then have pos: "0 < unat n" by (simp add: unat_gt_0)
    have "dst + n - 1 - x = (n - 1) - (x - dst)" by (simp add: algebra_simps)
    moreover have "unat (n - 1 - y) < unat n \<longleftrightarrow> unat y < unat n" for y
      using unat_sub_if' [of "n - 1" y] unat_pred [OF n0] pos unat_lt [of y] by (auto split: if_splits)
    ultimately show ?thesis by metis
  qed
  show ?thesis
  proof (rule ext)
    fix x
    have "src + n - (dst + n - x) = src + (x - dst)" by (simp add: algebra_simps)
    then show "memmove dst src n m x = mstore dst (mload src (unat n) m) m x"
      using True sep in_iff [of x] copy_down_at [of "unat n" "dst + n" "src + n" m x] unat_lt [of n]
      by (simp add: memmove_def mstore_mload_at less_imp_le)
  qed
next
  case False
  have sep: "dst + of_nat i \<noteq> src + of_nat j" if "i < j" "j < unat n" for i j
  proof
    assume "dst + of_nat i = src + of_nat j"
    then have "unat dst + i = unat src + j"
      using unat_add_nat [of dst i] unat_add_nat [of src j] that assms by simp
    moreover have "unat (src + n) = unat src + unat n"
      using unat_add_nat [of src "unat n"] assms by simp
    ultimately show False using False that by (simp add: word_less_nat_alt)
  qed
  show ?thesis
    using False sep copy_up_at [of "unat n" dst src m] unat_lt [of n]
    by (auto simp: memmove_def mstore_mload_at less_imp_le)
qed

theorem memmove_overlap_witness:
  "unat (0x8000 :: uint32) + unat (8 :: uint32) < 2 ^ 32 \<and>
   memmove 0x8004 0x8000 8 (\<lambda>a. ucast a) = mstore 0x8004 (mload 0x8000 8 (\<lambda>a. ucast a)) (\<lambda>a. ucast a)"
  using memmove_overlap [of "0x8000" 8 "0x8004" "\<lambda>a. ucast a"] by simp

section \<open>Strings\<close>

text \<open>The string a pointer shows, cut after \<open>n\<close> bytes.\<close>

definition cut :: "nat \<Rightarrow> cstr \<Rightarrow> bytes" where
  "cut n p = takeWhile (\<lambda>c. c \<noteq> 0) (map p [0..<n])"

lemma cut_from: "takeWhile (\<lambda>c. c \<noteq> 0) (map p [i..<i + Suc n]) =
    (if p i \<noteq> 0 then p i # takeWhile (\<lambda>c. c \<noteq> 0) (map p [Suc i..<Suc i + n]) else [])"
  by (simp add: upt_conv_Cons del: upt_Suc)

lemma strncmp_loop_0_iff:
  "strncmp_loop p q i n = 0 \<longleftrightarrow>
     takeWhile (\<lambda>c. c \<noteq> 0) (map p [i..<i + n]) = takeWhile (\<lambda>c. c \<noteq> 0) (map q [i..<i + n])"
proof (induction n arbitrary: i)
  case (Suc n)
  have "uint (p i) - uint (q i) = 0 \<longleftrightarrow> p i = q i" by (simp add: word_uint_eq_iff)
  then show ?case using Suc.IH [of "Suc i"] unfolding cut_from by auto
qed simp

lemma strncmp_0_iff: "strncmp p q n = 0 \<longleftrightarrow> cut (unat n) p = cut (unat n) q"
  by (simp add: strncmp_def cut_def strncmp_loop_0_iff)

lemma length_strncpy_loop [simp]: "length (strncpy_loop t i n) = n"
  by (induction n arbitrary: i) auto

lemma length_strncpy [simp]: "length (strncpy t n) = nat n"
  by (simp add: strncpy_def)

lemma takeWhile_strncpy_loop:
  "takeWhile (\<lambda>c. c \<noteq> 0) (strncpy_loop t i n) = takeWhile (\<lambda>c. c \<noteq> 0) (map t [i..<i + n])"
proof (induction n arbitrary: i)
  case (Suc n)
  show ?case unfolding cut_from using Suc.IH [of "Suc i"] by simp
qed simp

lemma cut_nth: "cut (length xs) (nth xs) = takeWhile (\<lambda>c. c \<noteq> 0) xs"
  by (simp add: cut_def map_nth)

lemma strncpy_cut: "cut (nat n) (nth (strncpy t n)) = cut (nat n) t"
  using cut_nth [of "strncpy t n"] takeWhile_strncpy_loop [of t 0 "nat n"]
  by (simp add: strncpy_def cut_def)

lemma safestrcpy_loop_spec:
  "length (safestrcpy_loop t i n) \<le> Suc n \<and> 0 \<in> set (safestrcpy_loop t i n) \<and>
   takeWhile (\<lambda>c. c \<noteq> 0) (safestrcpy_loop t i n) = takeWhile (\<lambda>c. c \<noteq> 0) (map t [i..<i + n])"
proof (induction n arbitrary: i)
  case (Suc n)
  show ?case unfolding cut_from using Suc.IH [of "Suc i"] by simp
qed simp

text \<open>C26: \<^verbatim>\<open>safestrcpy(s, t, n)\<close> into a buffer of \<open>n > 0\<close> bytes stays inside the buffer, leaves a terminated
  string there, and that string is the source cut after \<open>n - 1\<close> bytes; for \<open>n \<le> 0\<close> nothing is
  written. (\<^verbatim>\<open>strncpy\<close> also fills exactly \<open>n\<close> bytes but terminates only shorter strings.)\<close>

theorem safestrcpy_terminated:
  "(if n \<le> 0 then safestrcpy t n = []
    else length (safestrcpy t n) \<le> nat n \<and> 0 \<in> set (safestrcpy t n) \<and>
      takeWhile (\<lambda>c. c \<noteq> 0) (safestrcpy t n) = cut (nat (n - 1)) t)"
proof (cases "n \<le> 0")
  case False
  then have "nat n = Suc (nat (n - 1))" by simp
  with False safestrcpy_loop_spec [of t 0 "nat (n - 1)"] show ?thesis
    by (simp add: safestrcpy_def cut_def)
qed (simp add: safestrcpy_def)

lemma strlen_loop_run: "(\<And>j. i \<le> j \<Longrightarrow> j < n \<Longrightarrow> s j \<noteq> 0) \<Longrightarrow> i \<le> n \<Longrightarrow> s n = 0 \<Longrightarrow> strlen_loop s i = Some n"
proof (induction "n - i" arbitrary: i)
  case 0
  then show ?case by (subst strlen_loop.simps) simp
next
  case (Suc k)
  then have "strlen_loop s (Suc i) = Some n" and "s i \<noteq> 0" by auto
  then show ?case by (subst strlen_loop.simps) simp
qed

lemma strlen_run: "(\<And>j. j < n \<Longrightarrow> s j \<noteq> 0) \<Longrightarrow> s n = 0 \<Longrightarrow> strlen s = Some n"
  by (simp add: strlen_def strlen_loop_run)

lemma stosb_at: "n \<le> 2 ^ 32 \<Longrightarrow> stosb a c n m x = (if unat (x - a) < n then c else m x)"
proof (induction n arbitrary: a m)
  case (Suc n)
  have d: "x - (a + 1) = x - a - 1" by (simp add: algebra_simps)
  show ?case
  proof (cases "x = a")
    case False
    then have "unat (x - a) \<noteq> 0" by (auto simp: unat_gt_0)
    with unat_pred [of "x - a"] False have "unat (x - a - 1) < n \<longleftrightarrow> unat (x - a) < Suc n" by fastforce
    with Suc False show ?thesis by (simp add: d)
  qed (use Suc in \<open>simp add: d\<close>)
qed simp

lemma stosl_at:
  assumes w: "le32 w = replicate 4 c"
  shows "4 * n \<le> 2 ^ 32 \<Longrightarrow> stosl a w n m x = (if unat (x - a) < 4 * n then c else m x)"
proof (induction n arbitrary: a m)
  case (Suc n)
  have d: "x - (a + 4) = x - a - 4" by (simp add: algebra_simps)
  have m: "mstore a (le32 w) m x = (if unat (x - a) < 4 then c else m x)"
    by (simp add: mstore_def w)
  have "unat (x - a - 4) = (if 4 \<le> unat (x - a) then unat (x - a) - 4 else unat (x - a) + 2 ^ 32 - 4)"
    using unat_sub_if' [of "x - a" 4] by simp
  with Suc.prems have "unat (x - a - 4) < 4 * n \<longleftrightarrow> 4 \<le> unat (x - a) \<and> unat (x - a) < 4 * Suc n"
    using unat_lt [of "x - a"] by auto
  then show ?case using Suc.IH [of "a + 4"] Suc.prems by (auto simp: m d)
qed simp

lemma le32_mk32: "le32 (mk32 a b c d) = [a, b, c, d]"
  unfolding le32_def mk32_def
  by (intro arg_cong2 [where f = Cons] refl; rule bit_word_eqI; auto simp: bit_simps dest: bit_imp_le_length)

lemma low_byte: "(c :: uint32) AND 0xFF = ucast (ucast c :: uchar)"
proof -
  have m: "(0xFF :: uint32) = mask 8" by (simp add: mask_eq_exp_minus_1)
  show ?thesis unfolding m by (rule bit_word_eqI) (auto simp: bit_simps)
qed

lemma fill_word: "le32 (push_bit 24 (c AND 0xFF) OR push_bit 16 (c AND 0xFF) OR push_bit 8 (c AND 0xFF) OR (c AND 0xFF)) =
    replicate 4 (ucast (c :: uint32))"
proof -
  have "push_bit 24 x OR push_bit 16 x OR push_bit 8 x OR x = x OR push_bit 8 x OR push_bit 16 x OR push_bit 24 x" for x :: uint32
    by (simp only: or.commute or.left_commute or.assoc)
  then show ?thesis unfolding low_byte using le32_mk32 [of "ucast c" "ucast c" "ucast c" "ucast c"]
    by (simp add: mk32_def numeral_eq_Suc del: push_bit_of_1)
qed

lemma memset_fills: "memset dst c n m = mstore dst (replicate (unat n) (ucast c)) m"
proof (cases "sint dst mod 4 = 0 \<and> n mod 4 = 0")
  case True
  then have "unat (n mod 4) = 0" by simp
  then have "unat n mod 4 = 0" by (simp add: unat_mod_distrib)
  then have n4: "4 * unat (n div 4) = unat n" by (auto simp: unat_div_distrib dvd_eq_mod_eq_0)
  show ?thesis
    using True stosl_at [OF fill_word [of c], of "unat (n div 4)" dst m] unat_lt [of n] n4
    by (auto simp: memset_def mstore_def Let_def fun_eq_iff)
next
  case False
  then show ?thesis
    using stosb_at [of "unat n" dst "ucast c" m] unat_lt [of n]
    by (auto simp: memset_def mstore_def fun_eq_iff)
qed

end
