(* ===== verification/Inode.thy ===== *)
theory Inode
  imports Log Str
begin

text \<open>
  Blocks and inodes (\<^verbatim>\<open>src/fs.c\<close>, first three layers): the block allocator over the bit map, the
  table of cached inodes, reading and writing the content of an inode.

  An inode pointer is an index into \<^verbatim>\<open>icache.inode\<close>. The fields that live on the disk are a \<open>dinode\<close>
  record, laid out in 64 bytes. A loop whose index does not depend on what its body does runs
  over the list of its index values (\<open>chunks\<close> for the block-wise loops of \<^verbatim>\<open>readi\<close> and \<^verbatim>\<open>writei\<close>).
  Device files call through the table \<^verbatim>\<open>devsw\<close>, which the console fills; its entries are arguments.
  The user's buffer is a list of bytes.
\<close>

abbreviation T_DIR :: "16 word" where "T_DIR \<equiv> 1"
abbreviation T_FILE :: "16 word" where "T_FILE \<equiv> 2"
abbreviation T_DEV :: "16 word" where "T_DEV \<equiv> 3"
abbreviation IPB :: uint32 where "IPB \<equiv> 8"
abbreviation BPB :: nat where "BPB \<equiv> 4096"
abbreviation NDEV :: int where "NDEV \<equiv> 10"

section \<open>Layout on the disk\<close>

definition IBLOCK :: "uint32 \<Rightarrow> superblock \<Rightarrow> uint32" where
  "IBLOCK i b = i div IPB + sb_inodestart b"

definition BBLOCK :: "uint32 \<Rightarrow> superblock \<Rightarrow> uint32" where
  "BBLOCK bno b = bno div 4096 + sb_bmapstart b"

definition dinode_bytes :: "dinode \<Rightarrow> bytes" where
  "dinode_bytes d = le16 (di_type d) @ le16 (di_major d) @ le16 (di_minor d) @ le16 (di_nlink d) @ le32 (di_size d) @
     concat (map le32 (di_addrs d))"

definition dinode_of :: "bytes \<Rightarrow> nat \<Rightarrow> dinode" where
  "dinode_of bs k0 = \<lparr>di_type = rd16 bs k0, di_major = rd16 bs (k0 + 2), di_minor = rd16 bs (k0 + 4), di_nlink = rd16 bs (k0 + 6),
     di_size = rd32 bs (k0 + 8), di_addrs = map (\<lambda>k. rd32 bs (k0 + 12 + 4 * k)) [0..<13]\<rparr>"

text \<open>Byte offset of inode \<open>inum\<close> in its block.\<close>

definition dinode_at :: "uint32 \<Rightarrow> nat" where
  "dinode_at inum = 64 * unat (inum mod IPB)"

section \<open>Blocks\<close>

definition set_data :: "nat \<Rightarrow> (bytes \<Rightarrow> bytes) \<Rightarrow> unit fm" where
  "set_data bp f = upd (buf_upd bp (b_data_update f))"

definition get_data :: "nat \<Rightarrow> bytes fm" where
  "get_data bp = gets (\<lambda>s. b_data (bufs s ! bp))"

definition bzero :: "uint32 \<Rightarrow> uint32 \<Rightarrow> unit fm" where
  "bzero dev bno =
     bnd (bread dev bno) (\<lambda>bp.
     thn (set_data bp (\<lambda>_. replicate BSIZE 0))
     (thn (log_write bp)
     (brelse bp)))"

definition bit_mask :: "nat \<Rightarrow> uchar" where
  "bit_mask bi = push_bit (bi mod 8) 1"

definition bit_clear :: "bytes \<Rightarrow> nat \<Rightarrow> bool" where
  "bit_clear d bi \<longleftrightarrow> d ! (bi div 8) AND bit_mask bi = 0"

fun balloc_loop :: "uint32 \<Rightarrow> nat list \<Rightarrow> uint32 fm" where
  "balloc_loop dev [] = panic ''balloc: out of blocks''"
| "balloc_loop dev (b # bs) =
     bnd (gets sb) (\<lambda>sup.
     bnd (bread dev (BBLOCK (of_nat b) sup)) (\<lambda>bp.
     bnd (get_data bp) (\<lambda>d.
     case find (bit_clear d) [0..<min BPB (unat (sb_size sup) - b)] of
       Some bi \<Rightarrow>
         thn (set_data bp (\<lambda>d. d[bi div 8 := d ! (bi div 8) OR bit_mask bi]))
         (thn (log_write bp)
         (thn (brelse bp)
         (thn (bzero dev (of_nat (b + bi)))
         (ret (of_nat (b + bi))))))
     | None \<Rightarrow> thn (brelse bp) (balloc_loop dev bs))))"

definition balloc :: "uint32 \<Rightarrow> uint32 fm" where
  "balloc dev =
     bnd (gets sb) (\<lambda>sup.
     balloc_loop dev (map (\<lambda>k. k * BPB) [0..<(unat (sb_size sup) + (BPB - 1)) div BPB]))"

definition bfree :: "uint32 \<Rightarrow> uint32 \<Rightarrow> unit fm" where
  "bfree dev b =
     bnd (gets sb) (\<lambda>sup.
     bnd (bread dev (BBLOCK b sup)) (\<lambda>bp.
     let bi = unat b mod BPB in
     bnd (get_data bp) (\<lambda>d.
     if bit_clear d bi then panic ''freeing free block''
     else
       thn (set_data bp (\<lambda>d. d[bi div 8 := d ! (bi div 8) AND NOT (bit_mask bi)]))
       (thn (log_write bp)
       (brelse bp)))))"

section \<open>Inodes\<close>

definition ino :: "nat \<Rightarrow> fsys \<Rightarrow> inode" where
  "ino i s = inodes s ! i"

definition ino_upd :: "nat \<Rightarrow> (inode \<Rightarrow> inode) \<Rightarrow> fsys \<Rightarrow> fsys" where
  "ino_upd i f s = s\<lparr>inodes := (inodes s)[i := f (inodes s ! i)]\<rparr>"

definition ilk :: "nat \<Rightarrow> fsys \<Rightarrow> sleeplock" where
  "ilk i s = i_lock (ino i s)"

definition ilk_put :: "nat \<Rightarrow> (sleeplock \<Rightarrow> sleeplock) \<Rightarrow> fsys \<Rightarrow> fsys" where
  "ilk_put i f = ino_upd i (i_lock_update f)"

definition ino_chan :: "nat \<Rightarrow> chan" where
  "ino_chan i = Chan ''inode'' i"

definition acquire_icache :: "unit fm" where
  "acquire_icache = lock_acquire icache_lk icache_lk_update"

definition release_icache :: "unit fm" where
  "release_icache = lock_release icache_lk icache_lk_update"

definition iinit :: "(superblock \<Rightarrow> unit fm) \<Rightarrow> uint32 \<Rightarrow> unit fm" where
  "iinit print dev =
     thn (upd (\<lambda>s. s\<lparr>icache_lk := False\<rparr>))
     (thn (seqk (map (\<lambda>i. upd (ilk_put i (\<lambda>_. initsleeplock))) [0..<NINODE]))
     (bnd (readsb dev) (\<lambda>b.
     thn (upd (\<lambda>s. s\<lparr>sb := b\<rparr>))
     (print b))))"

text \<open>The loop of \<^verbatim>\<open>iget\<close>: a cached entry, else the first empty one.\<close>

definition iget :: "uint32 \<Rightarrow> uint32 \<Rightarrow> nat fm" where
  "iget dev inum =
     thn acquire_icache
     (bnd (gets inodes) (\<lambda>is.
     case find_idx (\<lambda>ip. i_ref ip > 0 \<and> i_dev ip = dev \<and> i_inum ip = inum) is of
       Some i \<Rightarrow>
         thn (upd (ino_upd i (\<lambda>ip. ip\<lparr>i_ref := i_ref ip + 1\<rparr>)))
         (thn release_icache
         (ret i))
     | None \<Rightarrow>
         (case find_idx (\<lambda>ip. i_ref ip = 0) is of
            None \<Rightarrow> panic ''iget: no inodes''
          | Some i \<Rightarrow>
              thn (upd (ino_upd i (\<lambda>ip. ip\<lparr>i_dev := dev, i_inum := inum, i_ref := 1, i_valid := False\<rparr>)))
              (thn release_icache
              (ret i)))))"

fun ialloc_loop :: "uint32 \<Rightarrow> 16 word \<Rightarrow> nat list \<Rightarrow> nat fm" where
  "ialloc_loop dev ty [] = panic ''ialloc: no inodes''"
| "ialloc_loop dev ty (inum # is) =
     bnd (gets sb) (\<lambda>sup.
     bnd (bread dev (IBLOCK (of_nat inum) sup)) (\<lambda>bp.
     bnd (get_data bp) (\<lambda>d.
     let k = dinode_at (of_nat inum) in
     if rd16 d k = 0 then
       thn (set_data bp (splice_at k (le16 ty @ replicate 62 0)))
       (thn (log_write bp)
       (thn (brelse bp)
       (iget dev (of_nat inum))))
     else thn (brelse bp) (ialloc_loop dev ty is))))"

definition ialloc :: "uint32 \<Rightarrow> 16 word \<Rightarrow> nat fm" where
  "ialloc dev ty = bnd (gets sb) (\<lambda>sup. ialloc_loop dev ty [1..<unat (sb_ninodes sup)])"

definition iupdate :: "nat \<Rightarrow> unit fm" where
  "iupdate i =
     bnd (gets id) (\<lambda>s.
     let ip = ino i s in
     bnd (bread (i_dev ip) (IBLOCK (i_inum ip) (sb s))) (\<lambda>bp.
     bnd (gets (ino i)) (\<lambda>ip.
     thn (set_data bp (splice_at (dinode_at (i_inum ip)) (dinode_bytes (i_d ip))))
     (thn (log_write bp)
     (brelse bp)))))"

definition idup :: "nat \<Rightarrow> nat fm" where
  "idup i =
     thn acquire_icache
     (thn (upd (ino_upd i (\<lambda>ip. ip\<lparr>i_ref := i_ref ip + 1\<rparr>)))
     (thn release_icache
     (ret i)))"

abbreviation ino_hold :: "nat \<Rightarrow> bool fm" where
  "ino_hold i \<equiv> holdingsleep (ilk i) (ilk_put i) my_pid"

definition ilock :: "nat option \<Rightarrow> unit fm" where
  "ilock p =
     (case p of
        None \<Rightarrow> panic ''ilock''
      | Some i \<Rightarrow>
          bnd (gets (ino i)) (\<lambda>ip.
          if i_ref ip < 1 then panic ''ilock''
          else
            thn (acquiresleep (ilk i) (ilk_put i) my_pid (ino_chan i))
            (bnd (gets id) (\<lambda>s.
            let ip = ino i s in
            if i_valid ip then ret ()
            else
              bnd (bread (i_dev ip) (IBLOCK (i_inum ip) (sb s))) (\<lambda>bp.
              bnd (get_data bp) (\<lambda>d.
              thn (upd (ino_upd i (\<lambda>ip. ip\<lparr>i_d := dinode_of d (dinode_at (i_inum ip))\<rparr>)))
              (thn (brelse bp)
              (thn (upd (ino_upd i (\<lambda>ip. ip\<lparr>i_valid := True\<rparr>)))
              (if rd16 d (dinode_at (i_inum ip)) = 0 then panic ''ilock: no type'' else ret ())))))))))"

definition iunlock :: "nat option \<Rightarrow> unit fm" where
  "iunlock p =
     (case p of
        None \<Rightarrow> panic ''iunlock''
      | Some i \<Rightarrow>
          bnd (ino_hold i) (\<lambda>h.
          bnd (gets (ino i)) (\<lambda>ip.
          if \<not> h \<or> i_ref ip < 1 then panic ''iunlock''
          else releasesleep (ilk i) (ilk_put i) f_wake (ino_chan i))))"

definition set_addr :: "nat \<Rightarrow> nat \<Rightarrow> uint32 \<Rightarrow> unit fm" where
  "set_addr i k a = upd (ino_upd i (\<lambda>ip. ip\<lparr>i_d := (i_d ip)\<lparr>di_addrs := (di_addrs (i_d ip))[k := a]\<rparr>\<rparr>))"

definition get_addr :: "nat \<Rightarrow> nat \<Rightarrow> uint32 fm" where
  "get_addr i k = gets (\<lambda>s. di_addrs (i_d (ino i s)) ! k)"

definition bmap :: "nat \<Rightarrow> nat \<Rightarrow> uint32 fm" where
  "bmap i bn =
     bnd (gets (\<lambda>s. i_dev (ino i s))) (\<lambda>dev.
     if bn < NDIRECT then
       bnd (get_addr i bn) (\<lambda>addr.
       if addr = 0 then bnd (balloc dev) (\<lambda>addr. thn (set_addr i bn addr) (ret addr))
       else ret addr)
     else if bn - NDIRECT < NINDIRECT then
       bnd (get_addr i NDIRECT) (\<lambda>addr.
       bnd (if addr = 0 then bnd (balloc dev) (\<lambda>addr. thn (set_addr i NDIRECT addr) (ret addr)) else ret addr) (\<lambda>addr.
       bnd (bread dev addr) (\<lambda>bp.
       bnd (get_data bp) (\<lambda>d.
       let k = 4 * (bn - NDIRECT) in
       bnd (if rd32 d k = 0 then
              bnd (balloc dev) (\<lambda>addr.
              thn (set_data bp (splice_at k (le32 addr)))
              (thn (log_write bp)
              (ret addr)))
            else ret (rd32 d k)) (\<lambda>addr.
       thn (brelse bp)
       (ret addr))))))
     else panic ''bmap: out of range'')"

definition itrunc_direct :: "nat \<Rightarrow> nat \<Rightarrow> unit fm" where
  "itrunc_direct i k =
     bnd (gets (\<lambda>s. i_dev (ino i s))) (\<lambda>dev.
     bnd (get_addr i k) (\<lambda>a.
     if a \<noteq> 0 then thn (bfree dev a) (set_addr i k 0) else ret ()))"

definition itrunc_indirect :: "uint32 \<Rightarrow> nat \<Rightarrow> nat \<Rightarrow> unit fm" where
  "itrunc_indirect dev bp j =
     bnd (get_data bp) (\<lambda>d.
     if rd32 d (4 * j) \<noteq> 0 then bfree dev (rd32 d (4 * j)) else ret ())"

definition itrunc :: "nat \<Rightarrow> unit fm" where
  "itrunc i =
     thn (seqk (map (itrunc_direct i) [0..<NDIRECT]))
     (bnd (gets (\<lambda>s. i_dev (ino i s))) (\<lambda>dev.
     bnd (get_addr i NDIRECT) (\<lambda>ind.
     thn (if ind \<noteq> 0 then
            bnd (bread dev ind) (\<lambda>bp.
            thn (seqk (map (itrunc_indirect dev bp) [0..<NINDIRECT]))
            (thn (brelse bp)
            (thn (bfree dev ind)
            (set_addr i NDIRECT 0))))
          else ret ())
     (thn (upd (ino_upd i (\<lambda>ip. ip\<lparr>i_d := (i_d ip)\<lparr>di_size := 0\<rparr>\<rparr>)))
     (iupdate i)))))"

definition iput :: "nat \<Rightarrow> unit fm" where
  "iput i =
     thn (acquiresleep (ilk i) (ilk_put i) my_pid (ino_chan i))
     (bnd (gets (ino i)) (\<lambda>ip.
     thn (if i_valid ip \<and> di_nlink (i_d ip) = 0 then
            thn acquire_icache
            (bnd (gets (\<lambda>s. i_ref (ino i s))) (\<lambda>r.
            thn release_icache
            (if r = 1 then
               thn (itrunc i)
               (thn (upd (ino_upd i (\<lambda>ip. ip\<lparr>i_d := (i_d ip)\<lparr>di_type := 0\<rparr>\<rparr>)))
               (thn (iupdate i)
               (upd (ino_upd i (\<lambda>ip. ip\<lparr>i_valid := False\<rparr>)))))
             else ret ())))
          else ret ())
     (thn (releasesleep (ilk i) (ilk_put i) f_wake (ino_chan i))
     (thn acquire_icache
     (thn (upd (ino_upd i (\<lambda>ip. ip\<lparr>i_ref := i_ref ip - 1\<rparr>)))
     release_icache)))))"

definition iunlockput :: "nat \<Rightarrow> unit fm" where
  "iunlockput i = thn (iunlock (Some i)) (iput i)"

record stat =
  st_type :: "16 word"
  st_dev :: uint32
  st_ino :: uint32
  st_nlink :: "16 word"
  st_size :: uint32

definition stati :: "nat \<Rightarrow> stat fm" where
  "stati i = gets (\<lambda>s. let ip = ino i s in
     \<lparr>st_type = di_type (i_d ip), st_dev = i_dev ip, st_ino = i_inum ip, st_nlink = di_nlink (i_d ip), st_size = di_size (i_d ip)\<rparr>)"

section \<open>The content of an inode\<close>

text \<open>The offsets and lengths of the block-wise loops over \<open>n\<close> bytes at \<open>off\<close>.\<close>

function chunks :: "nat \<Rightarrow> nat \<Rightarrow> (nat \<times> nat) list" where
  "chunks off n = (if n = 0 then [] else let m = min n (512 - off mod 512) in (off, m) # chunks (off + m) (n - m))"
  by pat_completeness auto
termination
proof (relation "measure (\<lambda>(off, n). n)")
  fix off n m :: nat
  assume "n \<noteq> 0" "m = min n (512 - off mod 512)"
  moreover have "off mod 512 < 512" by simp
  ultimately have "0 < m" by linarith
  then show "((off + m, n - m), off, n) \<in> measure (\<lambda>(off, n). n)" using \<open>n \<noteq> 0\<close> by simp
qed simp

declare chunks.simps [simp del]

type_synonym devread = "int \<Rightarrow> (nat \<Rightarrow> uint32 \<Rightarrow> (int \<times> bytes) fm) option"
type_synonym devwrite = "int \<Rightarrow> (nat \<Rightarrow> bytes \<Rightarrow> uint32 \<Rightarrow> int fm) option"

fun readi_loop :: "nat \<Rightarrow> (nat \<times> nat) list \<Rightarrow> bytes fm" where
  "readi_loop i [] = ret []"
| "readi_loop i ((off, m) # cs) =
     bnd (gets (\<lambda>s. i_dev (ino i s))) (\<lambda>dev.
     bnd (bmap i (off div 512)) (\<lambda>a.
     bnd (bread dev a) (\<lambda>bp.
     bnd (get_data bp) (\<lambda>d.
     thn (brelse bp)
     (bnd (readi_loop i cs) (\<lambda>rest.
     ret (take m (drop (off mod 512) d) @ rest)))))))"

definition readi :: "devread \<Rightarrow> nat \<Rightarrow> uint32 \<Rightarrow> uint32 \<Rightarrow> (int \<times> bytes) fm" where
  "readi devrd i off n =
     bnd (gets (\<lambda>s. i_d (ino i s))) (\<lambda>d.
     if di_type d = T_DEV then
       (if sint (di_major d) < 0 \<or> NDEV \<le> sint (di_major d) then ret (-1, [])
        else case devrd (sint (di_major d)) of None \<Rightarrow> ret (-1, []) | Some rd \<Rightarrow> rd i n)
     else if di_size d < off \<or> off + n < off then ret (-1, [])
     else
       (let n = (if di_size d < off + n then di_size d - off else n) in
        bnd (readi_loop i (chunks (unat off) (unat n))) (\<lambda>out.
        ret (sint n, out))))"

fun writei_loop :: "nat \<Rightarrow> (nat \<times> nat) list \<Rightarrow> bytes \<Rightarrow> unit fm" where
  "writei_loop i [] src = ret ()"
| "writei_loop i ((off, m) # cs) src =
     bnd (gets (\<lambda>s. i_dev (ino i s))) (\<lambda>dev.
     bnd (bmap i (off div 512)) (\<lambda>a.
     bnd (bread dev a) (\<lambda>bp.
     thn (set_data bp (splice_at (off mod 512) (take m src)))
     (thn (log_write bp)
     (thn (brelse bp)
     (writei_loop i cs (drop m src)))))))"

definition writei :: "devwrite \<Rightarrow> nat \<Rightarrow> bytes \<Rightarrow> uint32 \<Rightarrow> uint32 \<Rightarrow> int fm" where
  "writei devwr i src off n =
     bnd (gets (\<lambda>s. i_d (ino i s))) (\<lambda>d.
     if di_type d = T_DEV then
       (if sint (di_major d) < 0 \<or> NDEV \<le> sint (di_major d) then ret (-1)
        else case devwr (sint (di_major d)) of None \<Rightarrow> ret (-1) | Some wr \<Rightarrow> wr i src n)
     else if di_size d < off \<or> off + n < off then ret (-1)
     else if 140 * 512 < off + n then ret (-1)
     else
       thn (requirek (unat n \<le> length src) (OutOfBounds ''src''))
       (thn (writei_loop i (chunks (unat off) (unat n)) src)
       (bnd (gets (\<lambda>s. i_d (ino i s))) (\<lambda>d.
       thn (if 0 < n \<and> di_size d < off + n then
              thn (upd (ino_upd i (\<lambda>ip. ip\<lparr>i_d := (i_d ip)\<lparr>di_size := off + n\<rparr>\<rparr>)))
              (iupdate i)
            else ret ())
       (ret (sint n))))))"

section \<open>The lock of an inode\<close>

lemma i_lock_update_cong: "f (i_lock ip) = g (i_lock ip) \<Longrightarrow> i_lock_update f ip = i_lock_update g ip"
  by (cases ip) simp

lemma i_lock_update_id: "f (i_lock ip) = i_lock ip \<Longrightarrow> i_lock_update f ip = ip"
  by (cases ip) simp

interpretation il: lock_view "\<lambda>s. i < length (inodes s)" "ilk i" "ilk_put i" my_pid f_wake for i
  by unfold_locales (auto simp: ilk_def ilk_put_def ino_def ino_upd_def f_wake_def comp_def i_lock_update_id
      dest: i_lock_update_cong)

lemma iunlock_run:
  assumes "i < length (inodes s)" "mine (my_pid s) (ilk i s)" "1 \<le> i_ref (ino i s)"
  shows "iunlock (Some i) s sch = Ret () (ilk_put i (\<lambda>_. initsleeplock) (f_wake (ino_chan i) s)) sch"
  using assms by (simp add: iunlock_def il.holdingsleep_run il.releasesleep_run)

lemma ilock_run:
  assumes "i < length (inodes s)" "unlocked (ilk i s)" "1 \<le> i_ref (ino i s)" "i_valid (ino i s)"
  shows "ilock (Some i) s sch = Ret () (ilk_put i (\<lambda>_. lock_of (my_pid s)) s) sch"
  using assms by (simp add: ilock_def il.acquiresleep_free ilk_put_def ino_upd_def ino_def)

end
