(* ===== verification/Dir.thy ===== *)
theory Dir
  imports Inode
begin

text \<open>
  Directories and path names (\<^verbatim>\<open>src/fs.c\<close>, last two layers): the entries of a directory inode, and
  the walk from a path name to an inode.

  A directory entry is 16 bytes, the inode number and a name of \<^verbatim>\<open>DIRSIZ\<close> bytes. A path is the list of
  its characters before the terminating NUL; the buffer \<^verbatim>\<open>name\<close> is passed through, since \<^verbatim>\<open>skipelem\<close>
  leaves the bytes after a short name as they were. The table of devices only matters to \<^verbatim>\<open>readi\<close>
  and \<^verbatim>\<open>writei\<close> on device files and is passed on.
\<close>

abbreviation DIRSIZ :: nat where "DIRSIZ \<equiv> 14"
abbreviation slash :: uchar where "slash \<equiv> 47"

record dirent =
  de_inum :: "16 word"
  de_name :: bytes

definition dirent_of :: "bytes \<Rightarrow> dirent" where
  "dirent_of bs = \<lparr>de_inum = rd16 bs 0, de_name = take DIRSIZ (drop 2 bs)\<rparr>"

definition dirent_bytes :: "dirent \<Rightarrow> bytes" where
  "dirent_bytes de = le16 (de_inum de) @ de_name de"

definition namecmp :: "cstr \<Rightarrow> cstr \<Rightarrow> int" where
  "namecmp s t = strncmp s t 14"

section \<open>Directories\<close>

definition read_dirent :: "string \<Rightarrow> devread \<Rightarrow> nat \<Rightarrow> nat \<Rightarrow> dirent fm" where
  "read_dirent msg devrd dp off =
     bnd (readi devrd dp (of_nat off) 16) (\<lambda>(r, bs).
     if r \<noteq> 16 then panic msg else ret (dirent_of bs))"

definition dir_offsets :: "uint32 \<Rightarrow> nat list" where
  "dir_offsets sz = map (\<lambda>k. 16 * k) [0..<(unat sz + 15) div 16]"

fun dirlookup_loop :: "devread \<Rightarrow> nat \<Rightarrow> cstr \<Rightarrow> nat list \<Rightarrow> (nat \<times> nat) option fm" where
  "dirlookup_loop devrd dp name [] = ret None"
| "dirlookup_loop devrd dp name (off # offs) =
     bnd (read_dirent ''dirlookup read'' devrd dp off) (\<lambda>de.
     if de_inum de = 0 then dirlookup_loop devrd dp name offs
     else if namecmp name (nth (de_name de)) = 0 then
       bnd (gets (\<lambda>s. i_dev (ino dp s))) (\<lambda>dev.
       bnd (iget dev (ucast (de_inum de))) (\<lambda>ip.
       ret (Some (ip, off))))
     else dirlookup_loop devrd dp name offs)"

text \<open>Returns the inode with the value for \<^verbatim>\<open>*poff\<close>.\<close>

definition dirlookup :: "devread \<Rightarrow> nat \<Rightarrow> cstr \<Rightarrow> (nat \<times> nat) option fm" where
  "dirlookup devrd dp name =
     bnd (gets (\<lambda>s. i_d (ino dp s))) (\<lambda>d.
     if di_type d \<noteq> T_DIR then panic ''dirlookup not DIR''
     else dirlookup_loop devrd dp name (dir_offsets (di_size d)))"

fun empty_dirent :: "devread \<Rightarrow> nat \<Rightarrow> nat \<Rightarrow> nat list \<Rightarrow> nat fm" where
  "empty_dirent devrd dp stop [] = ret stop"
| "empty_dirent devrd dp stop (off # offs) =
     bnd (read_dirent ''dirlink read'' devrd dp off) (\<lambda>de.
     if de_inum de = 0 then ret off else empty_dirent devrd dp stop offs)"

definition dirlink :: "devread \<Rightarrow> devwrite \<Rightarrow> nat \<Rightarrow> cstr \<Rightarrow> uint32 \<Rightarrow> int fm" where
  "dirlink devrd devwr dp name inum =
     bnd (dirlookup devrd dp name) (\<lambda>r.
     case r of
       Some (ip, _) \<Rightarrow> thn (iput ip) (ret (-1))
     | None \<Rightarrow>
         bnd (gets (\<lambda>s. dir_offsets (di_size (i_d (ino dp s))))) (\<lambda>offs.
         bnd (empty_dirent devrd dp (16 * length offs) offs) (\<lambda>off.
         bnd (writei devwr dp (dirent_bytes \<lparr>de_inum = ucast inum, de_name = strncpy name 14\<rparr>) (of_nat off) 16) (\<lambda>r.
         if r \<noteq> 16 then panic ''dirlink'' else ret 0))))"

section \<open>Paths\<close>

definition skipelem :: "bytes \<Rightarrow> bytes \<Rightarrow> (bytes \<times> bytes) option" where
  "skipelem pt name =
     (let pt = dropWhile (\<lambda>c. c = slash) pt in
      if pt = [] then None
      else
        (let s = takeWhile (\<lambda>c. c \<noteq> slash) pt;
             pt = dropWhile (\<lambda>c. c \<noteq> slash) pt;
             name = (if length s \<ge> DIRSIZ then splice_at 0 (take DIRSIZ s) name else splice_at 0 (s @ [0]) name)
         in Some (dropWhile (\<lambda>c. c = slash) pt, name)))"

lemma skipelem_shorter: "skipelem pt name = Some (path', name') \<Longrightarrow> length path' < length pt"
proof -
  assume a: "skipelem pt name = Some (path', name')"
  define p where "p = dropWhile (\<lambda>c. c = slash) pt"
  from a have p: "p \<noteq> []" "path' = dropWhile (\<lambda>c. c = slash) (dropWhile (\<lambda>c. c \<noteq> slash) p)"
    by (auto simp: skipelem_def p_def Let_def split: if_splits)
  then have "hd p \<noteq> slash" unfolding p_def using hd_dropWhile [of "\<lambda>c. c = slash" pt] by simp
  with p(1) have "length (dropWhile (\<lambda>c. c \<noteq> slash) p) < length p"
    by (cases p) (auto simp: length_dropWhile_le le_imp_less_Suc)
  moreover have "length path' \<le> length (dropWhile (\<lambda>c. c \<noteq> slash) p)"
    unfolding p(2) by (rule length_dropWhile_le)
  moreover have "length p \<le> length pt" unfolding p_def by (rule length_dropWhile_le)
  ultimately show ?thesis by linarith
qed

text \<open>The successive values of \<^verbatim>\<open>path\<close> and \<^verbatim>\<open>name\<close> in the loop of \<^verbatim>\<open>namex\<close>: they do not depend on
  what the body does.\<close>

function path_walk :: "bytes \<Rightarrow> bytes \<Rightarrow> (bytes \<times> bytes) list" where
  "path_walk pt name =
     (case skipelem pt name of
        None \<Rightarrow> []
      | Some (pt, name) \<Rightarrow> (pt, name) # path_walk pt name)"
  by pat_completeness auto
termination
  by (relation "measure (\<lambda>(pt, name). length pt)") (auto dest: skipelem_shorter)

declare path_walk.simps [simp del]

fun namex_loop :: "devread \<Rightarrow> bool \<Rightarrow> nat \<Rightarrow> (bytes \<times> bytes) list \<Rightarrow> bytes \<Rightarrow> (nat option \<times> bytes) fm" where
  "namex_loop devrd nameiparent ip [] name =
     (if nameiparent then thn (iput ip) (ret (None, name))
      else ret (Some ip, name))"
| "namex_loop devrd nameiparent ip ((pt, name) # steps) name0 =
     thn (ilock (Some ip))
     (bnd (gets (\<lambda>s. di_type (i_d (ino ip s)))) (\<lambda>ty.
     if ty \<noteq> T_DIR then thn (iunlockput ip) (ret (None, name))
     else if nameiparent \<and> pt = [] then thn (iunlock (Some ip)) (ret (Some ip, name))
     else
       bnd (dirlookup devrd ip (nth name)) (\<lambda>r.
       case r of
         None \<Rightarrow> thn (iunlockput ip) (ret (None, name))
       | Some (nx, _) \<Rightarrow>
           thn (iunlockput ip)
           (namex_loop devrd nameiparent nx steps name))))"

definition namex :: "devread \<Rightarrow> bytes \<Rightarrow> bool \<Rightarrow> bytes \<Rightarrow> (nat option \<times> bytes) fm" where
  "namex devrd pt nameiparent name =
     bnd (if pt \<noteq> [] \<and> hd pt = slash then iget ROOTDEV ROOTINO
          else bnd (gets my_cwd) idup) (\<lambda>ip.
     namex_loop devrd nameiparent ip (path_walk pt name) name)"

text \<open>The local \<^verbatim>\<open>name\<close> of \<^verbatim>\<open>namei\<close> is an uninitialised array: its bytes are an argument.\<close>

definition namei :: "devread \<Rightarrow> bytes \<Rightarrow> bytes \<Rightarrow> nat option fm" where
  "namei devrd junk pt = bnd (namex devrd pt False junk) (\<lambda>(ip, _). ret ip)"

definition nameiparent :: "devread \<Rightarrow> bytes \<Rightarrow> bytes \<Rightarrow> (nat option \<times> bytes) fm" where
  "nameiparent devrd pt name = namex devrd pt True name"

end
