(* ===== verification/Syscall.thy ===== *)
theory Syscall
  imports Prelude
begin

text \<open>
  Fetching the arguments of a system call from user memory (\<^verbatim>\<open>fetchint\<close> to \<^verbatim>\<open>argstr\<close> of
  \<^verbatim>\<open>src/syscall.c\<close>). \<open>user\<close> is what these functions read of the current process: the size \<^verbatim>\<open>sz\<close> of its
  memory, the saved stack pointer and the system call number in its trap frame, and its memory.
  A result of \<open>None\<close> is the error return -1.
\<close>

record user =
  u_sz :: uint32
  u_esp :: uint32
  u_eax :: uint32
  u_mem :: memory

definition fetchint :: "user \<Rightarrow> uint32 \<Rightarrow> uint32 option" where
  "fetchint u addr = (if u_sz u \<le> addr \<or> u_sz u < addr + 4 then None else Some (mload32 addr (u_mem u)))"

text \<open>The loop from \<open>s\<close> to \<^verbatim>\<open>ep\<close>, \<open>k\<close> bytes in all: the distance of the first NUL.\<close>

fun nul_loop :: "memory \<Rightarrow> uint32 \<Rightarrow> nat \<Rightarrow> nat option" where
  "nul_loop m s 0 = None"
| "nul_loop m s (Suc k) = (if m s = 0 then Some 0 else map_option Suc (nul_loop m (s + 1) k))"

definition fetchstr :: "user \<Rightarrow> uint32 \<Rightarrow> (uint32 \<times> nat) option" where
  "fetchstr u addr =
     (if u_sz u \<le> addr then None
      else map_option (\<lambda>len. (addr, len)) (nul_loop (u_mem u) addr (unat (u_sz u) - unat addr)))"

definition argint :: "user \<Rightarrow> int \<Rightarrow> uint32 option" where
  "argint u n = fetchint u (u_esp u + 4 + of_int (4 * n))"

definition argptr :: "user \<Rightarrow> int \<Rightarrow> int \<Rightarrow> uint32 option" where
  "argptr u n sz =
     (case argint u n of
        None \<Rightarrow> None
      | Some i \<Rightarrow> if sz < 0 \<or> u_sz u \<le> i \<or> u_sz u < i + of_int sz then None else Some i)"

definition argstr :: "user \<Rightarrow> int \<Rightarrow> (uint32 \<times> nat) option" where
  "argstr u n = (case argint u n of None \<Rightarrow> None | Some addr \<Rightarrow> fetchstr u addr)"

text \<open>The bytes at a pointer, and the characters of a fetched string.\<close>

definition user_bytes :: "user \<Rightarrow> uint32 \<Rightarrow> nat \<Rightarrow> bytes" where
  "user_bytes u p n = mload p n (u_mem u)"

definition str_arg :: "user \<Rightarrow> int \<Rightarrow> bytes option" where
  "str_arg u n = map_option (\<lambda>(p, len). user_bytes u p len) (argstr u n)"

lemma nul_loop_Some:
  "nul_loop m s k = Some len \<longleftrightarrow> len < k \<and> m (s + of_nat len) = 0 \<and> (\<forall>j<len. m (s + of_nat j) \<noteq> 0)"
proof (induction k arbitrary: s len)
  case (Suc k)
  show ?case
  proof (cases len)
    case 0
    then show ?thesis using Suc.IH by auto
  next
    case (Suc l)
    have "(\<forall>j<Suc l. m (s + of_nat j) \<noteq> 0) \<longleftrightarrow> m s \<noteq> 0 \<and> (\<forall>j<l. m (s + 1 + of_nat j) \<noteq> 0)"
      by (auto simp: less_Suc_eq_0_disj add.assoc)
    then show ?thesis using Suc Suc.IH [of "s + 1" l] by (auto simp: add.assoc)
  qed
qed simp

lemma below_kernel:
  fixes i z :: uint32
  assumes "unat z \<le> 2 ^ 31" "i < z" "0 \<le> k" "k < 2 ^ 31" "\<not> z < i + of_int k"
  shows "unat i + nat k \<le> unat z"
proof -
  have k: "of_int k = (of_nat (nat k) :: uint32)" using assms(3) by simp
  have u: "unat (of_nat (nat k) :: uint32) = nat k" using assms(3,4) by (intro unat_of_nat_word) simp
  have "unat i < unat z" using assms(2) by (simp add: word_less_nat_alt)
  then have "unat i + nat k < 2 ^ 32" using assms(1,3,4) by simp
  then have "unat (i + of_int k) = unat i + nat k" unfolding k using u by (simp add: unat_add_lem [THEN iffD1])
  then show ?thesis using assms(5) by (simp add: word_less_nat_alt)
qed

text \<open>C9: What the kernel takes from a system call lies in the memory of the process. When \<^verbatim>\<open>sz\<close> is at most
  \<^verbatim>\<open>KERNBASE\<close>, a word is fetched only from below \<^verbatim>\<open>sz\<close>, a pointer that \<^verbatim>\<open>argptr\<close> accepts for \<open>sz\<close> bytes
  has all of them below \<^verbatim>\<open>sz\<close> although the check is made on wrapping 32-bit sums, and a string that
  \<^verbatim>\<open>fetchstr\<close> accepts is terminated below \<^verbatim>\<open>sz\<close>, with no NUL before its end.\<close>

theorem user_arguments_in_bounds:
  assumes "unat (u_sz u) \<le> 2 ^ 31"
  shows "(fetchint u addr \<noteq> None \<longrightarrow> unat addr + 4 \<le> unat (u_sz u)) \<and>
    (sz < 2 ^ 31 \<longrightarrow> argptr u n sz = Some p \<longrightarrow> unat p + nat sz \<le> unat (u_sz u) \<and> unat p < unat (u_sz u)) \<and>
    (fetchstr u addr = Some (q, len) \<longrightarrow> q = addr \<and> unat addr + len < unat (u_sz u) \<and>
       u_mem u (addr + of_nat len) = 0 \<and> 0 \<notin> set (user_bytes u addr len))"
proof (intro conjI impI)
  assume "fetchint u addr \<noteq> None"
  then show "unat addr + 4 \<le> unat (u_sz u)"
    using below_kernel [OF assms, of addr 4] by (auto simp: fetchint_def not_le split: if_splits)
next
  assume "sz < 2 ^ 31" "argptr u n sz = Some p"
  then show "unat p + nat sz \<le> unat (u_sz u)" "unat p < unat (u_sz u)"
    using below_kernel [OF assms, of p sz]
    by (auto simp: argptr_def not_le not_less word_less_nat_alt split: option.splits if_splits)
next
  assume "fetchstr u addr = Some (q, len)"
  then have f: "\<not> u_sz u \<le> addr" "q = addr" "nul_loop (u_mem u) addr (unat (u_sz u) - unat addr) = Some len"
    by (auto simp: fetchstr_def split: if_splits)
  show "q = addr" "u_mem u (addr + of_nat len) = 0" using f nul_loop_Some by auto
  show "unat addr + len < unat (u_sz u)" using f(3) nul_loop_Some by auto
  show "0 \<notin> set (user_bytes u addr len)"
    using f(3) by (auto simp: nul_loop_Some user_bytes_def mload_def)
qed

definition demo_user :: user where
  "demo_user = \<lparr>u_sz = 8192, u_esp = 4096, u_eax = 5, u_mem = (\<lambda>a. if a = 4101 then 16 else 0)\<rparr>"

theorem user_arguments_in_bounds_witness:
  "fetchint demo_user 4100 \<noteq> None \<and> unat (4100 :: uint32) + 4 \<le> unat (u_sz demo_user) \<and>
   argptr demo_user 0 4096 = Some 4096 \<and> unat (4096 :: uint32) + nat 4096 \<le> unat (u_sz demo_user) \<and>
   fetchstr demo_user 4100 = Some (4100, 0) \<and> unat (4100 :: uint32) + 0 < unat (u_sz demo_user)"
proof -
  have "mload32 4100 (u_mem demo_user) = 4096"
    by (simp add: demo_user_def mload32_def mload_def rd32_def mk32_def upt_rec_numeral)
  moreover have "nul_loop (u_mem demo_user) 4100 4092 = Some 0" unfolding nul_loop_Some by (simp add: demo_user_def)
  ultimately have a: "unat (u_sz demo_user) \<le> 2 ^ 31" "fetchint demo_user 4100 \<noteq> None" "argptr demo_user 0 4096 = Some 4096"
      "fetchstr demo_user 4100 = Some (4100, 0)"
    by (simp_all add: demo_user_def fetchint_def argptr_def argint_def fetchstr_def)
  then show ?thesis
    using user_arguments_in_bounds [OF a(1), of 4100 4096 0 4096 4100 0] by simp
qed

end
