(* ===== verification/Sysfile.thy ===== *)
theory Sysfile
  imports Pipe Dir Syscall
begin

text \<open>
  The part of \<^verbatim>\<open>src/file.c\<close> that works on inodes, and the file system calls of \<^verbatim>\<open>src/sysfile.c\<close> with
  the dispatcher of \<^verbatim>\<open>src/syscall.c\<close>.

  \<open>infs\<close> runs an action of the file system on its part of the kernel state. A system call takes the
  user part \<open>u\<close> of its process; what it stores in user memory is part of its result (\<open>(p, bytes)\<close>: the
  bytes go to address \<open>p\<close>). \<open>dv\<close> is the table \<^verbatim>\<open>devsw\<close>; \<open>junk_name\<close> is what the uninitialised array
  \<^verbatim>\<open>name\<close> on the stack holds.
\<close>

abbreviation O_RDONLY :: uint32 where "O_RDONLY \<equiv> 0"
abbreviation O_WRONLY :: uint32 where "O_WRONLY \<equiv> 1"
abbreviation O_RDWR :: uint32 where "O_RDWR \<equiv> 2"
abbreviation O_CREATE :: uint32 where "O_CREATE \<equiv> 0x200"

abbreviation infs :: "'a fm \<Rightarrow> 'a nm" where "infs m \<equiv> zoom n_fs n_fs_update m"

type_synonym devsw = "devread \<times> devwrite"

section \<open>Files that are inodes\<close>

definition fileinit :: "unit nm" where
  "fileinit = upd (\<lambda>n. n\<lparr>ftable_lk := False\<rparr>)"

text \<open>The inode of a file; the null pointer is passed on to the callee.\<close>

definition file_ip :: "kfile \<Rightarrow> nat nm" where
  "file_ip f = (case f_ip f of Some ip \<Rightarrow> ret ip | None \<Rightarrow> oob ''null inode'')"

definition close_inode :: "kfile \<Rightarrow> unit nm" where
  "close_inode ff =
     bnd (file_ip ff) (\<lambda>ip.
     thn (infs begin_op)
     (thn (infs (iput ip))
     (infs end_op)))"

definition closefile :: "nat \<Rightarrow> unit nm" where
  "closefile = fileclose close_pipe close_inode"

definition filestat :: "nat \<Rightarrow> stat option nm" where
  "filestat fi =
     bnd (gets (\<lambda>n. ftable n ! fi)) (\<lambda>f.
     if f_type f = FD_INODE then
       thn (infs (ilock (f_ip f)))
       (bnd (file_ip f) (\<lambda>ip.
       bnd (infs (stati ip)) (\<lambda>st.
       thn (infs (iunlock (f_ip f)))
       (ret (Some st)))))
     else ret None)"

definition read_inode :: "devsw \<Rightarrow> nat \<Rightarrow> kfile \<Rightarrow> int \<Rightarrow> (int \<times> bytes) nm" where
  "read_inode dv fi f k =
     thn (infs (ilock (f_ip f)))
     (bnd (file_ip f) (\<lambda>ip.
     bnd (gets (\<lambda>n. f_off (ftable n ! fi))) (\<lambda>off.
     bnd (infs (readi (fst dv) ip off (of_int k))) (\<lambda>(r, bs).
     thn (if 0 < r then file_upd fi (\<lambda>f. f\<lparr>f_off := f_off f + of_int r\<rparr>) else ret ())
     (thn (infs (iunlock (f_ip f)))
     (ret (r, bs)))))))"

text \<open>The pieces of the loop of \<^verbatim>\<open>filewrite\<close>: as long as no write fails, they are cut off the buffer
  one after the other.\<close>

function pieces :: "nat \<Rightarrow> bytes \<Rightarrow> bytes list" where
  "pieces m xs = (if m = 0 \<or> xs = [] then [] else take m xs # pieces m (drop m xs))"
  by pat_completeness auto
termination
  by (relation "measure (\<lambda>(m, xs). length xs)") auto

declare pieces.simps [simp del]

fun write_inode_loop :: "devsw \<Rightarrow> nat \<Rightarrow> kfile \<Rightarrow> bytes list \<Rightarrow> bool nm" where
  "write_inode_loop dv fi f [] = ret True"
| "write_inode_loop dv fi f (c # cs) =
     thn (infs begin_op)
     (thn (infs (ilock (f_ip f)))
     (bnd (file_ip f) (\<lambda>ip.
     bnd (gets (\<lambda>n. f_off (ftable n ! fi))) (\<lambda>off.
     bnd (infs (writei (snd dv) ip c off (of_nat (length c)))) (\<lambda>r.
     thn (if 0 < r then file_upd fi (\<lambda>f. f\<lparr>f_off := f_off f + of_int r\<rparr>) else ret ())
     (thn (infs (iunlock (f_ip f)))
     (thn (infs end_op)
     (if r < 0 then ret False
      else if r \<noteq> int (length c) then panic ''short filewrite''
      else write_inode_loop dv fi f cs))))))))"

definition write_inode :: "devsw \<Rightarrow> nat \<Rightarrow> kfile \<Rightarrow> bytes \<Rightarrow> int nm" where
  "write_inode dv fi f addr =
     bnd (write_inode_loop dv fi f (pieces 1536 addr)) (\<lambda>ok.
     ret (if ok then int (length addr) else -1))"

definition readfile :: "devsw \<Rightarrow> nat \<Rightarrow> int \<Rightarrow> (int \<times> bytes) nm" where
  "readfile dv fi k =
     fileread (\<lambda>f k. case f_pipe f of Some p \<Rightarrow> piperead p k | None \<Rightarrow> oob ''null pipe'') (read_inode dv fi) fi k"

definition writefile :: "devsw \<Rightarrow> nat \<Rightarrow> nat \<Rightarrow> bytes \<Rightarrow> int nm" where
  "writefile dv gas fi addr =
     filewrite (\<lambda>f xs. case f_pipe f of Some p \<Rightarrow> pipewrite p xs | None \<Rightarrow> oob ''null pipe'') (write_inode dv fi) gas fi addr"

section \<open>System calls on descriptors\<close>

definition argfd :: "user \<Rightarrow> int \<Rightarrow> (int \<times> nat) option nm" where
  "argfd u k =
     (case argint u k of
        None \<Rightarrow> ret None
      | Some w \<Rightarrow>
          (let fd = sint w in
           if fd < 0 \<or> int NOFILE \<le> fd then ret None
           else bnd (gets (\<lambda>n. ofile n ! nat fd)) (\<lambda>f.
             case f of None \<Rightarrow> ret None | Some fi \<Rightarrow> ret (Some (fd, fi)))))"

definition sys_dup :: "user \<Rightarrow> int nm" where
  "sys_dup u =
     bnd (argfd u 0) (\<lambda>r.
     case r of
       None \<Rightarrow> ret (-1)
     | Some (_, fi) \<Rightarrow>
         bnd (fdalloc fi) (\<lambda>fd.
         if fd < 0 then ret (-1) else bnd (filedup fi) (\<lambda>_. ret fd)))"

definition sys_read :: "devsw \<Rightarrow> user \<Rightarrow> (int \<times> (uint32 \<times> bytes) option) nm" where
  "sys_read dv u =
     bnd (argfd u 0) (\<lambda>r.
     case r of
       None \<Rightarrow> ret (-1, None)
     | Some (_, fi) \<Rightarrow>
         (case argint u 2 of
            None \<Rightarrow> ret (-1, None)
          | Some k \<Rightarrow>
              (case argptr u 1 (sint k) of
                 None \<Rightarrow> ret (-1, None)
               | Some p \<Rightarrow> bnd (readfile dv fi (sint k)) (\<lambda>(r, bs). ret (r, Some (p, bs))))))"

definition sys_write :: "devsw \<Rightarrow> nat \<Rightarrow> user \<Rightarrow> int nm" where
  "sys_write dv gas u =
     bnd (argfd u 0) (\<lambda>r.
     case r of
       None \<Rightarrow> ret (-1)
     | Some (_, fi) \<Rightarrow>
         (case argint u 2 of
            None \<Rightarrow> ret (-1)
          | Some k \<Rightarrow>
              (case argptr u 1 (sint k) of
                 None \<Rightarrow> ret (-1)
               | Some p \<Rightarrow> writefile dv gas fi (user_bytes u p (nat (sint k))))))"

definition sys_close :: "user \<Rightarrow> int nm" where
  "sys_close u =
     bnd (argfd u 0) (\<lambda>r.
     case r of
       None \<Rightarrow> ret (-1)
     | Some (fd, fi) \<Rightarrow>
         thn (upd (\<lambda>n. n\<lparr>ofile := (ofile n)[nat fd := None]\<rparr>))
         (thn (closefile fi)
         (ret 0)))"

text \<open>\<^verbatim>\<open>struct stat\<close> takes 20 bytes.\<close>

definition sys_fstat :: "user \<Rightarrow> (int \<times> (uint32 \<times> stat) option) nm" where
  "sys_fstat u =
     bnd (argfd u 0) (\<lambda>r.
     case r of
       None \<Rightarrow> ret (-1, None)
     | Some (_, fi) \<Rightarrow>
         (case argptr u 1 20 of
            None \<Rightarrow> ret (-1, None)
          | Some p \<Rightarrow> bnd (filestat fi) (\<lambda>st. case st of Some st \<Rightarrow> ret (0, Some (p, st)) | None \<Rightarrow> ret (-1, None))))"

section \<open>System calls on paths\<close>

definition set_nlink :: "nat \<Rightarrow> (16 word \<Rightarrow> 16 word) \<Rightarrow> unit fm" where
  "set_nlink i f = upd (ino_upd i (\<lambda>ip. ip\<lparr>i_d := (i_d ip)\<lparr>di_nlink := f (di_nlink (i_d ip))\<rparr>\<rparr>))"

definition link_bad :: "nat \<Rightarrow> int fm" where
  "link_bad ip =
     thn (ilock (Some ip))
     (thn (set_nlink ip (\<lambda>k. k - 1))
     (thn (iupdate ip)
     (thn (iunlockput ip)
     (thn end_op
     (ret (-1))))))"

definition do_link :: "devsw \<Rightarrow> bytes \<Rightarrow> bytes \<Rightarrow> bytes \<Rightarrow> int fm" where
  "do_link dv junk_name old new =
     thn begin_op
     (bnd (namei (fst dv) junk_name old) (\<lambda>r.
     case r of
       None \<Rightarrow> thn end_op (ret (-1))
     | Some ip \<Rightarrow>
         thn (ilock (Some ip))
         (bnd (gets (\<lambda>s. di_type (i_d (ino ip s)))) (\<lambda>ty.
         if ty = T_DIR then thn (iunlockput ip) (thn end_op (ret (-1)))
         else
           thn (set_nlink ip (\<lambda>k. k + 1))
           (thn (iupdate ip)
           (thn (iunlock (Some ip))
           (bnd (nameiparent (fst dv) new junk_name) (\<lambda>(r, name).
           case r of
             None \<Rightarrow> link_bad ip
           | Some dp \<Rightarrow>
               thn (ilock (Some dp))
               (bnd (gets id) (\<lambda>s.
               if i_dev (ino dp s) \<noteq> i_dev (ino ip s) then thn (iunlockput dp) (link_bad ip)
               else
                 bnd (dirlink (fst dv) (snd dv) dp (nth name) (i_inum (ino ip s))) (\<lambda>r.
                 if r < 0 then thn (iunlockput dp) (link_bad ip)
                 else
                   thn (iunlockput dp)
                   (thn (iput ip)
                   (thn end_op
                   (ret 0))))))))))))))"

definition sys_link :: "devsw \<Rightarrow> bytes \<Rightarrow> user \<Rightarrow> int nm" where
  "sys_link dv junk_name u =
     (case (str_arg u 0, str_arg u 1) of
        (Some old, Some new) \<Rightarrow> infs (do_link dv junk_name old new)
      | _ \<Rightarrow> ret (-1))"

fun isdirempty_loop :: "devread \<Rightarrow> nat \<Rightarrow> nat list \<Rightarrow> bool fm" where
  "isdirempty_loop devrd dp [] = ret True"
| "isdirempty_loop devrd dp (off # offs) =
     bnd (read_dirent ''isdirempty: readi'' devrd dp off) (\<lambda>de.
     if de_inum de \<noteq> 0 then ret False else isdirempty_loop devrd dp offs)"

definition isdirempty :: "devread \<Rightarrow> nat \<Rightarrow> bool fm" where
  "isdirempty devrd dp =
     bnd (gets (\<lambda>s. di_size (i_d (ino dp s)))) (\<lambda>sz. isdirempty_loop devrd dp (drop 2 (dir_offsets sz)))"

definition unlink_bad :: "nat \<Rightarrow> int fm" where
  "unlink_bad dp = thn (iunlockput dp) (thn end_op (ret (-1)))"

definition unlink_entry :: "devsw \<Rightarrow> nat \<Rightarrow> nat \<Rightarrow> nat \<Rightarrow> int fm" where
  "unlink_entry dv dp ip off =
     bnd (writei (snd dv) dp (replicate 16 0) (of_nat off) 16) (\<lambda>r.
     if r \<noteq> 16 then panic ''unlink: writei''
     else
       bnd (gets (\<lambda>s. di_type (i_d (ino ip s)))) (\<lambda>ty.
       thn (if ty = T_DIR then thn (set_nlink dp (\<lambda>k. k - 1)) (iupdate dp) else ret ())
       (thn (iunlockput dp)
       (thn (set_nlink ip (\<lambda>k. k - 1))
       (thn (iupdate ip)
       (thn (iunlockput ip)
       (thn end_op
       (ret 0))))))))"

definition dot :: bytes where "dot = [46, 0]"
definition dotdot :: bytes where "dotdot = [46, 46, 0]"

definition do_unlink :: "devsw \<Rightarrow> bytes \<Rightarrow> bytes \<Rightarrow> int fm" where
  "do_unlink dv junk_name pth =
     thn begin_op
     (bnd (nameiparent (fst dv) pth junk_name) (\<lambda>(r, name).
     case r of
       None \<Rightarrow> thn end_op (ret (-1))
     | Some dp \<Rightarrow>
         thn (ilock (Some dp))
         (if namecmp (nth name) (nth dot) = 0 \<or> namecmp (nth name) (nth dotdot) = 0 then unlink_bad dp
          else
            bnd (dirlookup (fst dv) dp (nth name)) (\<lambda>r.
            case r of
              None \<Rightarrow> unlink_bad dp
            | Some (ip, off) \<Rightarrow>
                thn (ilock (Some ip))
                (bnd (gets (\<lambda>s. i_d (ino ip s))) (\<lambda>d.
                if sint (di_nlink d) < 1 then panic ''unlink: nlink < 1''
                else
                  bnd (if di_type d = T_DIR then isdirempty (fst dv) ip else ret True) (\<lambda>empty.
                  if \<not> empty then thn (iunlockput ip) (unlink_bad dp)
                  else unlink_entry dv dp ip off)))))))"

definition sys_unlink :: "devsw \<Rightarrow> bytes \<Rightarrow> user \<Rightarrow> int nm" where
  "sys_unlink dv junk_name u =
     (case str_arg u 0 of None \<Rightarrow> ret (-1) | Some pth \<Rightarrow> infs (do_unlink dv junk_name pth))"

definition create :: "devsw \<Rightarrow> bytes \<Rightarrow> bytes \<Rightarrow> 16 word \<Rightarrow> 16 word \<Rightarrow> 16 word \<Rightarrow> nat option fm" where
  "create dv junk_name pth ty major minor =
     bnd (nameiparent (fst dv) pth junk_name) (\<lambda>(r, name).
     case r of
       None \<Rightarrow> ret None
     | Some dp \<Rightarrow>
         thn (ilock (Some dp))
         (bnd (dirlookup (fst dv) dp (nth name)) (\<lambda>r.
         case r of
           Some (ip, _) \<Rightarrow>
             thn (iunlockput dp)
             (thn (ilock (Some ip))
             (bnd (gets (\<lambda>s. di_type (i_d (ino ip s)))) (\<lambda>ty'.
             if ty = T_FILE \<and> ty' = T_FILE then ret (Some ip)
             else thn (iunlockput ip) (ret None))))
         | None \<Rightarrow>
             bnd (gets (\<lambda>s. i_dev (ino dp s))) (\<lambda>dev.
             bnd (ialloc dev ty) (\<lambda>ip.
             thn (ilock (Some ip))
             (thn (upd (ino_upd ip (\<lambda>ip. ip\<lparr>i_d := (i_d ip)\<lparr>di_major := major, di_minor := minor, di_nlink := 1\<rparr>\<rparr>)))
             (thn (iupdate ip)
             (thn (if ty = T_DIR then
                     thn (set_nlink dp (\<lambda>k. k + 1))
                     (thn (iupdate dp)
                     (bnd (gets (\<lambda>s. i_inum (ino ip s))) (\<lambda>inum.
                     bnd (dirlink (fst dv) (snd dv) ip (nth dot) inum) (\<lambda>r.
                     if r < 0 then panic ''create dots''
                     else
                       bnd (gets (\<lambda>s. i_inum (ino dp s))) (\<lambda>pnum.
                       bnd (dirlink (fst dv) (snd dv) ip (nth dotdot) pnum) (\<lambda>r.
                       if r < 0 then panic ''create dots'' else ret ()))))))
                   else ret ())
             (bnd (gets (\<lambda>s. i_inum (ino ip s))) (\<lambda>inum.
             bnd (dirlink (fst dv) (snd dv) dp (nth name) inum) (\<lambda>r.
             if r < 0 then panic ''create: dirlink''
             else
               thn (iunlockput dp)
               (ret (Some ip)))))))))))))"

text \<open>\<^verbatim>\<open>sys_open\<close> up to the allocation of the file: the locked inode, still inside the transaction.\<close>

definition open_inode :: "devsw \<Rightarrow> bytes \<Rightarrow> bytes \<Rightarrow> uint32 \<Rightarrow> nat option fm" where
  "open_inode dv junk_name pth omode =
     thn begin_op
     (if omode AND O_CREATE \<noteq> 0 then
        bnd (create dv junk_name pth T_FILE 0 0) (\<lambda>r.
        case r of None \<Rightarrow> thn end_op (ret None) | Some ip \<Rightarrow> ret (Some ip))
      else
        bnd (namei (fst dv) junk_name pth) (\<lambda>r.
        case r of
          None \<Rightarrow> thn end_op (ret None)
        | Some ip \<Rightarrow>
            thn (ilock (Some ip))
            (bnd (gets (\<lambda>s. di_type (i_d (ino ip s)))) (\<lambda>ty.
            if ty = T_DIR \<and> omode \<noteq> O_RDONLY then thn (iunlockput ip) (thn end_op (ret None))
            else ret (Some ip)))))"

definition open_fail :: "nat \<Rightarrow> int nm" where
  "open_fail ip = thn (infs (iunlockput ip)) (thn (infs end_op) (ret (-1)))"

definition do_open :: "devsw \<Rightarrow> bytes \<Rightarrow> bytes \<Rightarrow> uint32 \<Rightarrow> int nm" where
  "do_open dv junk_name pth omode =
     bnd (infs (open_inode dv junk_name pth omode)) (\<lambda>r.
     case r of
       None \<Rightarrow> ret (-1)
     | Some ip \<Rightarrow>
         bnd filealloc (\<lambda>f.
         case f of
           None \<Rightarrow> open_fail ip
         | Some fi \<Rightarrow>
             bnd (fdalloc fi) (\<lambda>fd.
             if fd < 0 then thn (closefile fi) (open_fail ip)
             else
               thn (infs (iunlock (Some ip)))
               (thn (infs end_op)
               (thn (file_upd fi (\<lambda>f. f\<lparr>f_type := FD_INODE, f_ip := Some ip, f_off := 0, f_readable := (omode AND O_WRONLY = 0),
                       f_writable := (omode AND O_WRONLY \<noteq> 0 \<or> omode AND O_RDWR \<noteq> 0)\<rparr>))
               (ret fd))))))"

definition sys_open :: "devsw \<Rightarrow> bytes \<Rightarrow> user \<Rightarrow> int nm" where
  "sys_open dv junk_name u =
     (case (str_arg u 0, argint u 1) of
        (Some pth, Some omode) \<Rightarrow> do_open dv junk_name pth omode
      | _ \<Rightarrow> ret (-1))"

text \<open>The common end of \<^verbatim>\<open>sys_mkdir\<close> and \<^verbatim>\<open>sys_mknod\<close>.\<close>

definition made :: "nat option \<Rightarrow> int fm" where
  "made r = (case r of None \<Rightarrow> thn end_op (ret (-1)) | Some ip \<Rightarrow> thn (iunlockput ip) (thn end_op (ret 0)))"

definition sys_mkdir :: "devsw \<Rightarrow> bytes \<Rightarrow> user \<Rightarrow> int nm" where
  "sys_mkdir dv junk_name u =
     infs (thn begin_op
       (case str_arg u 0 of
          None \<Rightarrow> made None
        | Some pth \<Rightarrow> bnd (create dv junk_name pth T_DIR 0 0) made))"

definition sys_mknod :: "devsw \<Rightarrow> bytes \<Rightarrow> user \<Rightarrow> int nm" where
  "sys_mknod dv junk_name u =
     infs (thn begin_op
       (case (str_arg u 0, argint u 1, argint u 2) of
          (Some pth, Some major, Some minor) \<Rightarrow> bnd (create dv junk_name pth T_DEV (ucast major) (ucast minor)) made
        | _ \<Rightarrow> made None))"

definition sys_chdir :: "devsw \<Rightarrow> bytes \<Rightarrow> user \<Rightarrow> int nm" where
  "sys_chdir dv junk_name u =
     infs (thn begin_op
       (case str_arg u 0 of
          None \<Rightarrow> thn end_op (ret (-1))
        | Some pth \<Rightarrow>
            bnd (namei (fst dv) junk_name pth) (\<lambda>r.
            case r of
              None \<Rightarrow> thn end_op (ret (-1))
            | Some ip \<Rightarrow>
                thn (ilock (Some ip))
                (bnd (gets (\<lambda>s. di_type (i_d (ino ip s)))) (\<lambda>ty.
                if ty \<noteq> T_DIR then thn (iunlockput ip) (thn end_op (ret (-1)))
                else
                  thn (iunlock (Some ip))
                  (bnd (gets my_cwd) (\<lambda>cwd.
                  thn (iput cwd)
                  (thn end_op
                  (thn (upd (\<lambda>s. s\<lparr>my_cwd := ip\<rparr>))
                  (ret 0))))))))))"

abbreviation MAXARG :: nat where "MAXARG \<equiv> 32"

text \<open>The loop of \<^verbatim>\<open>sys_exec\<close> over the argument vector: the strings, or \<open>None\<close> for the error return.\<close>

fun exec_args :: "user \<Rightarrow> uint32 \<Rightarrow> nat \<Rightarrow> nat \<Rightarrow> bytes list option" where
  "exec_args u uargv i 0 = None"
| "exec_args u uargv i (Suc k) =
     (case fetchint u (uargv + 4 * of_nat i) of
        None \<Rightarrow> None
      | Some uarg \<Rightarrow>
          if uarg = 0 then Some []
          else
            (case fetchstr u uarg of
               None \<Rightarrow> None
             | Some (p, len) \<Rightarrow> map_option (\<lambda>rest. user_bytes u p len # rest) (exec_args u uargv (Suc i) k)))"

definition sys_exec :: "(bytes \<Rightarrow> bytes list \<Rightarrow> int nm) \<Rightarrow> user \<Rightarrow> int nm" where
  "sys_exec exec u =
     (case (str_arg u 0, argint u 1) of
        (Some pth, Some uargv) \<Rightarrow>
          (case exec_args u uargv 0 MAXARG of None \<Rightarrow> ret (-1) | Some argv \<Rightarrow> exec pth argv)
      | _ \<Rightarrow> ret (-1))"

definition sys_pipe :: "user \<Rightarrow> (int \<times> (uint32 \<times> int \<times> int) option) nm" where
  "sys_pipe u =
     (case argptr u 0 8 of
        None \<Rightarrow> ret (-1, None)
      | Some p \<Rightarrow>
          bnd (pipealloc close_inode) (\<lambda>r.
          case r of
            None \<Rightarrow> ret (-1, None)
          | Some (rfi, wfi) \<Rightarrow>
              bnd (fdalloc rfi) (\<lambda>fd0.
              if fd0 < 0 then thn (closefile rfi) (thn (closefile wfi) (ret (-1, None)))
              else
                bnd (fdalloc wfi) (\<lambda>fd1.
                if fd1 < 0 then
                  thn (upd (\<lambda>n. n\<lparr>ofile := (ofile n)[nat fd0 := None]\<rparr>))
                  (thn (closefile rfi) (thn (closefile wfi) (ret (-1, None))))
                else ret (0, Some (p, fd0, fd1))))))"

section \<open>The dispatcher\<close>

datatype sysno = SYS_fork | SYS_exit | SYS_wait | SYS_pipe | SYS_read | SYS_kill | SYS_exec | SYS_fstat | SYS_chdir | SYS_dup
  | SYS_getpid | SYS_sbrk | SYS_sleep | SYS_uptime | SYS_open | SYS_write | SYS_mknod | SYS_unlink | SYS_link | SYS_mkdir
  | SYS_close | SYS_ifset | SYS_ifconfig | SYS_socket | SYS_bind | SYS_listen | SYS_connect | SYS_accept | SYS_test
  | SYS_icmp_send_echo_request | SYS_get_icmp_echo_reply_status | SYS_get_icmp_echo_reply_packet

definition syscalls :: "sysno option list" where
  "syscalls = None # map Some [SYS_fork, SYS_exit, SYS_wait, SYS_pipe, SYS_read, SYS_kill, SYS_exec, SYS_fstat, SYS_chdir, SYS_dup,
     SYS_getpid, SYS_sbrk, SYS_sleep, SYS_uptime, SYS_open, SYS_write, SYS_mknod, SYS_unlink, SYS_link, SYS_mkdir,
     SYS_close, SYS_ifset, SYS_ifconfig, SYS_socket, SYS_bind, SYS_listen, SYS_connect, SYS_accept, SYS_test,
     SYS_icmp_send_echo_request, SYS_get_icmp_echo_reply_status, SYS_get_icmp_echo_reply_packet]"

text \<open>A system call returns the value for \<^verbatim>\<open>eax\<close> and the stores into user memory.\<close>

type_synonym sysres = "int \<times> (uint32 \<times> bytes) list"

definition plain :: "int nm \<Rightarrow> sysres nm" where
  "plain m = bnd m (\<lambda>r. ret (r, []))"

definition stat_stores :: "uint32 \<Rightarrow> stat \<Rightarrow> (uint32 \<times> bytes) list" where
  "stat_stores p st = [(p, le16 (st_type st)), (p + 4, le32 (st_dev st)), (p + 8, le32 (st_ino st)), (p + 12, le16 (st_nlink st)),
     (p + 16, le32 (st_size st))]"

text \<open>The handlers of files and of the network; \<open>other\<close> are those of processes and memory.\<close>

definition sys_handler :: "(sysno \<Rightarrow> user \<Rightarrow> int nm) \<Rightarrow> (bytes \<Rightarrow> bytes list \<Rightarrow> int nm) \<Rightarrow> devsw \<Rightarrow> nat \<Rightarrow> bytes \<Rightarrow> sysno \<Rightarrow> user \<Rightarrow> sysres nm" where
  "sys_handler other exec dv gas junk_name c u =
     (case c of
        SYS_pipe \<Rightarrow> bnd (sys_pipe u) (\<lambda>(r, w). ret (r, case w of Some (p, fd0, fd1) \<Rightarrow> [(p, le32 (of_int fd0)), (p + 4, le32 (of_int fd1))] | None \<Rightarrow> []))
      | SYS_read \<Rightarrow> bnd (sys_read dv u) (\<lambda>(r, w). ret (r, case w of Some pb \<Rightarrow> [pb] | None \<Rightarrow> []))
      | SYS_fstat \<Rightarrow> bnd (sys_fstat u) (\<lambda>(r, w). ret (r, case w of Some (p, st) \<Rightarrow> stat_stores p st | None \<Rightarrow> []))
      | SYS_exec \<Rightarrow> plain (sys_exec exec u)
      | SYS_chdir \<Rightarrow> plain (sys_chdir dv junk_name u)
      | SYS_dup \<Rightarrow> plain (sys_dup u)
      | SYS_open \<Rightarrow> plain (sys_open dv junk_name u)
      | SYS_write \<Rightarrow> plain (sys_write dv gas u)
      | SYS_mknod \<Rightarrow> plain (sys_mknod dv junk_name u)
      | SYS_unlink \<Rightarrow> plain (sys_unlink dv junk_name u)
      | SYS_link \<Rightarrow> plain (sys_link dv junk_name u)
      | SYS_mkdir \<Rightarrow> plain (sys_mkdir dv junk_name u)
      | SYS_close \<Rightarrow> plain (sys_close u)
      | SYS_ifset \<Rightarrow> plain (sys_ifset (argint u 0) (argint u 1) (argint u 2))
      | SYS_ifconfig \<Rightarrow> plain sys_ifconfig
      | SYS_socket \<Rightarrow> plain (sys_socket close_pipe close_inode (argint u 0))
      | SYS_bind \<Rightarrow> plain (sys_bind (argint u 0) (argint u 1) (argint u 2))
      | SYS_listen \<Rightarrow> plain (sys_listen (argint u 0))
      | SYS_connect \<Rightarrow> plain (sys_connect (argint u 0) (argint u 1) (argint u 2))
      | SYS_accept \<Rightarrow> plain (sys_accept close_pipe close_inode (argint u 0))
      | SYS_test \<Rightarrow> plain (sys_test (argint u 0))
      | SYS_icmp_send_echo_request \<Rightarrow> plain (sys_icmp_send_echo_request (argint u 0) (argint u 1))
      | SYS_get_icmp_echo_reply_status \<Rightarrow> plain sys_get_icmp_echo_reply_status
      | SYS_get_icmp_echo_reply_packet \<Rightarrow> plain sys_get_icmp_echo_reply_packet
      | _ \<Rightarrow> plain (other c u))"

definition syscall :: "(sysno \<Rightarrow> user \<Rightarrow> sysres nm) \<Rightarrow> int \<Rightarrow> bytes \<Rightarrow> user \<Rightarrow> sysres nm" where
  "syscall handler pid name u =
     (let num = sint (u_eax u) in
      case (if 0 < num \<and> num < int (length syscalls) then syscalls ! nat num else None) of
        Some c \<Rightarrow> handler c u
      | None \<Rightarrow>
          (case cprintf (str ''%d %s: unknown sys call %d'') [AInt (of_int pid), AStr (Some name), AInt (u_eax u)] of
             Some out \<Rightarrow> thn (print_line out) (ret (-1, []))
           | None \<Rightarrow> oob ''cprintf''))"

section \<open>Opening and closing a socket\<close>

text \<open>C32: Let no lock be held, and let there be a free page, a free slot of the file table, a free descriptor, and a free
  socket that is as it was at boot and that no port refers to. Opening a socket takes that socket, a file slot, the lowest free descriptor and one
  page. The system call \<^verbatim>\<open>close\<close> on that descriptor gives them back: the descriptors of the process, the sockets and
  the ports are as before and the free list has its page again. The slot of the file table is free (no reference, type
  \<^verbatim>\<open>FD_NONE\<close>) but keeps its offset, modes and socket pointer from the time it was open; all other slots are as before.\<close>

theorem socket_open_close:
  assumes q: "quiet n" and si: "find_idx (\<lambda>s. so_state s = SOCKET_FREE) (sockets n) = Some si" "sockets n ! si = boot_socket" "unported si n"
    and fi: "find_idx (\<lambda>f. f_ref f = 0) (ftable n) = Some fi"
    and fd: "find_idx (\<lambda>f. f = None) (ofile n) = Some fd" "length (ofile n) = NOFILE"
    and fp: "free_pages (n_kend n) (n_kmem n) (p # ps)" and arg: "argint u 0 = Some (of_nat fd)"
  shows "\<exists>n' n''. socket_open close_pipe close_inode t n sch = Ret (int fd) n' sch \<and>
    ofile n' = (ofile n)[fd := Some fi] \<and> fd_sock n' (int fd) = Some si \<and>
    so_state (sock si n') = SOCKET_UNBOUND \<and> so_buffer (sock si n') = p \<and> free_pages (n_kend n) (n_kmem n') ps \<and>
    sys_close u n' sch' = Ret 0 n'' sch' \<and>
    ofile n'' = ofile n \<and> sockets n'' = sockets n \<and> ports n'' = ports n \<and> free_pages (n_kend n) (n_kmem n'') (p # ps) \<and>
    ftable n'' = (ftable n)[fi := (ftable n ! fi)\<lparr>f_ref := 0, f_type := FD_NONE, f_off := 0, f_readable := True,
      f_writable := True, f_socket := Some si\<rparr>]"
proof -
  have b: "si < length (sockets n)" "fi < length (ftable n)" "fd < length (ofile n)" "ofile n ! fd = None"
    using si(1) fi fd(1) by (auto dest: find_idx_SomeD)
  obtain n' where n': "\<And>sch. socket_open close_pipe close_inode t n sch = Ret (int fd) n' sch"
    "sockets n' = (sockets n)[si := (sockets n ! si)\<lparr>so_state := SOCKET_UNBOUND, so_type := t, so_buffer := p\<rparr>]"
    "ftable n' = (ftable n)[fi := (ftable n ! fi)\<lparr>f_ref := 1, f_type := FD_SOCKET, f_off := 0, f_readable := True,
       f_writable := True, f_socket := Some si\<rparr>]"
    "ofile n' = (ofile n)[fd := Some fi]" "free_pages (n_kend n) (n_kmem n') ps" "ports n' = ports n" "quiet n'" "n_kend n' = n_kend n"
    by (rule socket_open_run [OF q si(1) fi fd(1) fp, where cp = close_pipe and ci = close_inode and t = t]) blast
  have pv: "valid_page (n_kend n) p" "p \<noteq> 0" "p \<notin> set ps"
    using fp kpages.page_nonzero [OF fp] kpages.pages_valid [OF fp] by auto
  define m where "m = n'\<lparr>ofile := (ofile n')[fd := None]\<rparr>"
  have sm: "sock si m = boot_socket\<lparr>so_state := SOCKET_UNBOUND, so_type := t, so_buffer := p\<rparr>"
    using b(1) si(2) by (simp add: m_def sock_def n'(2))
  have mf: "ftable m ! fi = (ftable n ! fi)\<lparr>f_ref := 1, f_type := FD_SOCKET, f_off := 0, f_readable := True,
       f_writable := True, f_socket := Some si\<rparr>" "fi < length (ftable m)" "si < length (sockets m)" "quiet m" "unported si m"
    "free_pages (n_kend m) (n_kmem m) ps" "valid_page (n_kend m) p"
    using b n' si(3) pv by (simp_all add: m_def quiet_def unported_def)
  obtain n'' where n'': "\<And>sch. fileclose close_pipe close_inode fi m sch = Ret () n'' sch" "sockets n'' = (sockets m)[si := boot_socket]"
    "free_pages (n_kend m) (n_kmem n'') (p # ps)" "ports n'' = ports m" "ofile n'' = ofile m"
    "ftable n'' = (ftable m)[fi := (ftable m ! fi)\<lparr>f_ref := 0, f_type := FD_NONE\<rparr>]"
    by (rule fileclose_socket_run [of m fi si ps p, where cp = close_pipe and ci = close_inode])
      (use mf pv in \<open>simp_all add: sm, simp_all add: boot_socket_def\<close>)
  have fd16: "fd < 16" using b(3) fd(2) by simp
  then have sfd: "sint (of_nat fd :: uint32) = int fd"
    by (simp add: signed_of_nat signed_take_bit_int_eq_self)
  have "sys_close u n' sch' = Ret 0 n'' sch'"
    using n''(1) fd16 b(3) n'(4) unfolding m_def
    by (simp add: sys_close_def argfd_def arg sfd closefile_def Let_def)
  moreover have "sockets n'' = sockets n"
    using b(1) si(2) by (simp add: n'' m_def n'(2) list_update_same_conv)
  moreover have "ofile n'' = ofile n"
    using b(3,4) by (simp add: n''(5) m_def n'(4) list_update_same_conv)
  moreover have "fd_sock n' (int fd) = Some si"
    using b fd16 by (simp add: fd_sock_def n'(3,4))
  moreover have "so_state (sock si n') = SOCKET_UNBOUND" "so_buffer (sock si n') = p"
    using b(1) by (simp_all add: sock_def n'(2))
  moreover have "ftable n'' = (ftable n)[fi := (ftable n ! fi)\<lparr>f_ref := 0, f_type := FD_NONE, f_off := 0, f_readable := True,
      f_writable := True, f_socket := Some si\<rparr>]"
    using b(2) by (cases "ftable n ! fi") (simp add: n''(6) mf(1), simp add: m_def n'(3))
  ultimately show ?thesis
    using n'(1,4,5,6,8) n''(3,4) by (intro exI [of _ n'] exI [of _ n'']) (simp add: m_def)
qed

definition demo_user :: user where
  "demo_user = \<lparr>u_sz = 0x1000, u_esp = 0x800, u_eax = 21, u_mem = (\<lambda>_. 0)\<rparr>"

theorem socket_open_close_witness:
  "\<exists>n' n''. socket_open close_pipe close_inode 0 demo_open [] = Ret 0 n' [] \<and> fd_sock n' 0 = Some 0 \<and>
     sys_close demo_user n' [] = Ret 0 n'' [] \<and> ofile n'' = ofile demo_open \<and> sockets n'' = sockets demo_open \<and>
     f_ref (ftable n'' ! 0) = 0"
proof -
  have a: "argint demo_user 0 = Some (of_nat 0)"
    by (simp add: argint_def fetchint_def demo_user_def mload32_def mload_def rd32_def mk32_def upt_rec)
  have l: "length (ofile demo_open) = NOFILE" "0 < length (ftable demo_open)" by (simp_all add: demo_open_def boot_net_def)
  from socket_open_close [OF demo_open_facts(2-7) l(1) demo_open_facts(1) a, of 0 "[]" "[]"] l(2)
  show ?thesis by auto
qed

end
