(* ===== verification/Spinlock.thy ===== *)
theory Spinlock
  imports Prelude
begin

text \<open>
  Spin locks (\<^verbatim>\<open>src/spinlock.c\<close>) on a machine with any number of processors. Elsewhere in the
  development a lock is a flag of the state of one process (\<open>lock_acquire\<close>, \<open>lock_release\<close>); here the
  instructions of \<^verbatim>\<open>acquire\<close>, \<^verbatim>\<open>release\<close> and \<^verbatim>\<open>holding\<close> that touch shared memory are steps of
  their own, and the processors interleave them in any order.

  \<open>pc\<close> says where a processor is: before the load of \<^verbatim>\<open>lk->locked\<close> or of \<^verbatim>\<open>lk->cpu\<close> in \<^verbatim>\<open>holding\<close>, at
  the \<^verbatim>\<open>xchg\<close>, before the store of \<^verbatim>\<open>lk->cpu\<close>, before the stores of \<^verbatim>\<open>release\<close>, in other code (\<open>Run\<close>), or
  stopped by a panic. \<open>crit m c\<close> are the locks for which \<^verbatim>\<open>acquire\<close> has returned on processor \<open>c\<close> and
  \<^verbatim>\<open>release\<close> has not given them up. In other code, a processor starts to acquire or to release any
  lock, or changes its interrupt flag when it is not inside a \<^verbatim>\<open>pushcli\<close>.
\<close>

section \<open>The code\<close>

record spinlock =
  lk_locked :: uint32
  lk_cpu :: "nat option"
  lk_pcs :: "uint32 list"

record cpu =
  ncli :: int
  intena :: bool
  ifl :: bool

definition initlock :: "spinlock \<Rightarrow> spinlock" where
  "initlock lk = lk\<lparr>lk_locked := 0, lk_cpu := None\<rparr>"

definition pushcli :: "cpu \<Rightarrow> cpu" where
  "pushcli c = c\<lparr>ifl := False, intena := (if ncli c = 0 then ifl c else intena c), ncli := ncli c + 1\<rparr>"

definition popcli :: "cpu \<Rightarrow> string + cpu" where
  "popcli c =
     (if ifl c then Inl ''popcli - interruptible''
      else if ncli c - 1 < 0 then Inl ''popcli''
      else Inr (c\<lparr>ncli := ncli c - 1, ifl := (ncli c - 1 = 0 \<and> intena c)\<rparr>))"

fun callerpcs :: "memory \<Rightarrow> uint32 \<Rightarrow> nat \<Rightarrow> uint32 list" where
  "callerpcs m ebp 0 = []"
| "callerpcs m ebp (Suc k) =
     (if ebp = 0 \<or> ebp < 0x80000000 \<or> ebp = 0xffffffff then replicate (Suc k) 0
      else mload32 (ebp + 4) m # callerpcs m (mload32 ebp m) k)"

definition getcallerpcs :: "memory \<Rightarrow> uint32 \<Rightarrow> uint32 list" where
  "getcallerpcs m v = callerpcs m (v - 8) 10"

datatype pc = Run | AHold1 nat | AHold2 nat bool | ASpin nat | ACpu nat
  | RHold1 nat | RHold2 nat bool | RClear nat | RStore nat | Halt string nat

record mach =
  locks :: "nat \<Rightarrow> spinlock"
  cpus :: "nat \<Rightarrow> cpu"
  at :: "nat \<Rightarrow> pc"
  crit :: "nat \<Rightarrow> nat list"

datatype cmd = Acquire nat | Release nat | SetIF bool

definition goto :: "nat \<Rightarrow> pc \<Rightarrow> mach \<Rightarrow> mach" where
  "goto c p m = m\<lparr>at := (at m)(c := p)\<rparr>"

definition cli_upd :: "nat \<Rightarrow> (cpu \<Rightarrow> cpu) \<Rightarrow> mach \<Rightarrow> mach" where
  "cli_upd c f m = m\<lparr>cpus := (cpus m)(c := f (cpus m c))\<rparr>"

definition lock_upd :: "nat \<Rightarrow> (spinlock \<Rightarrow> spinlock) \<Rightarrow> mach \<Rightarrow> mach" where
  "lock_upd l f m = m\<lparr>locks := (locks m)(l := f (locks m l))\<rparr>"

text \<open>\<^verbatim>\<open>popcli\<close>, then on to \<open>p\<close>.\<close>

definition pop_to :: "nat \<Rightarrow> nat \<Rightarrow> pc \<Rightarrow> mach \<Rightarrow> mach" where
  "pop_to c l p m = (case popcli (cpus m c) of Inl msg \<Rightarrow> goto c (Halt msg l) m | Inr k \<Rightarrow> goto c p (cli_upd c (\<lambda>_. k) m))"

text \<open>One step of processor \<open>c\<close>; \<open>cmd\<close> is what it does next when it is in other code, \<open>callers\<close> what
  \<^verbatim>\<open>getcallerpcs\<close> finds.\<close>

definition cpu_step :: "nat \<Rightarrow> cmd \<Rightarrow> uint32 list \<Rightarrow> mach \<Rightarrow> mach" where
  "cpu_step c cmd callers m =
     (case at m c of
        Run \<Rightarrow>
          (case cmd of
             Acquire l \<Rightarrow> goto c (AHold1 l) (cli_upd c (\<lambda>k. pushcli (pushcli k)) m)
           | Release l \<Rightarrow> goto c (RHold1 l) (cli_upd c pushcli m)
           | SetIF b \<Rightarrow> if ncli (cpus m c) = 0 then cli_upd c (\<lambda>k. k\<lparr>ifl := b\<rparr>) m else m)
      | AHold1 l \<Rightarrow> goto c (AHold2 l (lk_locked (locks m l) \<noteq> 0)) m
      | AHold2 l b \<Rightarrow> pop_to c l (if b \<and> lk_cpu (locks m l) = Some c then Halt ''acquire'' l else ASpin l) m
      | ASpin l \<Rightarrow>
          (if lk_locked (locks m l) \<noteq> 0 then lock_upd l (\<lambda>k. k\<lparr>lk_locked := 1\<rparr>) m
           else goto c (ACpu l) (lock_upd l (\<lambda>k. k\<lparr>lk_locked := 1\<rparr>) m))
      | ACpu l \<Rightarrow> goto c Run (lock_upd l (\<lambda>k. k\<lparr>lk_cpu := Some c, lk_pcs := callers\<rparr>) (m\<lparr>crit := (crit m)(c := l # crit m c)\<rparr>))
      | RHold1 l \<Rightarrow> goto c (RHold2 l (lk_locked (locks m l) \<noteq> 0)) m
      | RHold2 l b \<Rightarrow> pop_to c l (if b \<and> lk_cpu (locks m l) = Some c then RClear l else Halt ''release'' l) m
      | RClear l \<Rightarrow> goto c (RStore l) (lock_upd l (\<lambda>k. k\<lparr>lk_pcs := (lk_pcs k)[0 := 0], lk_cpu := None\<rparr>)
                      (m\<lparr>crit := (crit m)(c := remove1 l (crit m c))\<rparr>))
      | RStore l \<Rightarrow> pop_to c l Run (lock_upd l (\<lambda>k. k\<lparr>lk_locked := 0\<rparr>) m)
      | Halt msg l \<Rightarrow> m)"

inductive reach :: "mach \<Rightarrow> mach \<Rightarrow> bool" for m0 where
  reach_refl: "reach m0 m0"
| reach_step: "reach m0 m \<Longrightarrow> reach m0 (cpu_step c cmd callers m)"

definition started :: "mach \<Rightarrow> bool" where
  "started m \<longleftrightarrow> (\<forall>l. lk_locked (locks m l) = 0 \<and> lk_cpu (locks m l) = None) \<and>
     (\<forall>c. ncli (cpus m c) = 0 \<and> at m c = Run \<and> crit m c = [])"

section \<open>The invariant\<close>

text \<open>Processor \<open>c\<close> has won lock \<open>l\<close> and not yet given it back.\<close>

definition owns :: "mach \<Rightarrow> nat \<Rightarrow> nat \<Rightarrow> bool" where
  "owns m c l \<longleftrightarrow> l \<in> set (crit m c) \<or> at m c = ACpu l \<or> at m c = RStore l"

definition lock_inv :: "mach \<Rightarrow> nat \<Rightarrow> bool" where
  "lock_inv m l \<longleftrightarrow> (lk_locked (locks m l) \<noteq> 0 \<longleftrightarrow> (\<exists>c. owns m c l)) \<and> (\<forall>c d. owns m c l \<longrightarrow> owns m d l \<longrightarrow> c = d) \<and>
     (\<forall>c. lk_cpu (locks m l) = Some c \<longleftrightarrow> l \<in> set (crit m c))"

text \<open>How deep a processor is inside \<^verbatim>\<open>pushcli\<close>, beyond the locks it holds.\<close>

fun extra :: "pc \<Rightarrow> int" where
  "extra (AHold1 l) = 2"
| "extra (AHold2 l b) = 2"
| "extra (ASpin l) = 1"
| "extra (ACpu l) = 1"
| "extra (RHold1 l) = 1"
| "extra (RHold2 l b) = 1"
| "extra (RStore l) = 1"
| "extra p = 0"

fun pc_inv :: "nat list \<Rightarrow> pc \<Rightarrow> bool" where
  "pc_inv ls (ACpu l) \<longleftrightarrow> l \<notin> set ls"
| "pc_inv ls (RHold2 l b) \<longleftrightarrow> (l \<in> set ls \<longrightarrow> b)"
| "pc_inv ls (RClear l) \<longleftrightarrow> l \<in> set ls"
| "pc_inv ls (RStore l) \<longleftrightarrow> l \<notin> set ls"
| "pc_inv ls (Halt msg l) \<longleftrightarrow> msg = ''acquire'' \<and> l \<in> set ls \<or> msg = ''release'' \<and> l \<notin> set ls"
| "pc_inv ls p \<longleftrightarrow> True"

fun halted :: "pc \<Rightarrow> bool" where
  "halted (Halt msg l) = True"
| "halted p = False"

definition cpu_inv :: "mach \<Rightarrow> nat \<Rightarrow> bool" where
  "cpu_inv m c \<longleftrightarrow> distinct (crit m c) \<and> pc_inv (crit m c) (at m c) \<and>
     (\<not> halted (at m c) \<longrightarrow> ncli (cpus m c) = int (length (crit m c)) + extra (at m c) \<and> (0 < ncli (cpus m c) \<longrightarrow> \<not> ifl (cpus m c)))"

definition mach_inv :: "mach \<Rightarrow> bool" where
  "mach_inv m \<longleftrightarrow> (\<forall>l. lock_inv m l) \<and> (\<forall>c. cpu_inv m c)"

lemmas mach_upd_defs = goto_def cli_upd_def lock_upd_def

lemma popcli_ok: "0 < ncli k \<Longrightarrow> \<not> ifl k \<Longrightarrow> popcli k = Inr (k\<lparr>ncli := ncli k - 1, ifl := (ncli k - 1 = 0 \<and> intena k)\<rparr>)"
  by (simp add: popcli_def)

lemma pushcli_fields [simp]: "ncli (pushcli k) = ncli k + 1" "ifl (pushcli k) = False"
  by (simp_all add: pushcli_def)

text \<open>A step changes one processor and, when \<open>X = Some l\<close>, lock \<open>l\<close>: the invariant of the others.\<close>

lemma mach_inv_step:
  assumes m: "mach_inv m" and "\<And>d. d \<noteq> c \<Longrightarrow> cpus m' d = cpus m d \<and> at m' d = at m d \<and> crit m' d = crit m d"
    and "\<And>k. X \<noteq> Some k \<Longrightarrow> locks m' k = locks m k \<and> owns m' c k = owns m c k \<and> (k \<in> set (crit m' c)) = (k \<in> set (crit m c))"
    and "cpu_inv m' c" "\<And>l. X = Some l \<Longrightarrow> lock_inv m' l"
  shows "mach_inv m'"
proof -
  have o: "owns m' d k = owns m d k" if "X \<noteq> Some k" for d k
    using assms(2) [of d] assms(3) [OF that] by (cases "d = c") (auto simp: owns_def)
  have "lock_inv m' k" for k
  proof (cases "X = Some k")
    case False
    have "k \<in> set (crit m' d) \<longleftrightarrow> k \<in> set (crit m d)" for d
      using assms(2) [of d] assms(3) [OF False] by (cases "d = c") auto
    then show ?thesis using m assms(3) [OF False] o [OF False] by (simp add: mach_inv_def lock_inv_def)
  qed (rule assms(5))
  moreover have "cpu_inv m' d" for d
    using m assms(2) [of d] assms(4) by (cases "d = c") (auto simp: mach_inv_def cpu_inv_def)
  ultimately show ?thesis by (simp add: mach_inv_def)
qed


text \<open>A step of a processor that is not yet or no longer in the possession of a lock.\<close>

lemma mach_inv_local:
  assumes m: "mach_inv m" and p: "\<forall>l. at m c \<noteq> ACpu l \<and> at m c \<noteq> RStore l" "\<forall>l. p \<noteq> ACpu l \<and> p \<noteq> RStore l"
    and k: "pc_inv (crit m c) p" "\<not> halted p \<Longrightarrow> ncli k = int (length (crit m c)) + extra p \<and> (0 < ncli k \<longrightarrow> \<not> ifl k)"
  shows "mach_inv (goto c p (cli_upd c (\<lambda>_. k) m))"
proof (rule mach_inv_step [OF m, of c _ None])
  have "cpu_inv m c" using m by (simp add: mach_inv_def)
  then show "cpu_inv (goto c p (cli_upd c (\<lambda>_. k) m)) c" using k by (auto simp: cpu_inv_def mach_upd_defs)
qed (use p in \<open>auto simp: mach_upd_defs owns_def\<close>)

lemma goto_cli: "goto c p m = goto c p (cli_upd c (\<lambda>_. cpus m c) m)"
  by (simp add: mach_upd_defs)

lemma cli_const: "cli_upd c f m = cli_upd c (\<lambda>_. f (cpus m c)) m"
  by (simp add: cli_upd_def)

lemma same_mach: "goto c (at m c) (cli_upd c (\<lambda>_. k) m) = cli_upd c (\<lambda>_. k) m"
  by (simp add: mach_upd_defs)

lemma step_run:
  assumes m: "mach_inv m" and a: "at m c = Run"
  shows "mach_inv (cpu_step c cmd callers m)"
proof -
  have n: "ncli (cpus m c) = int (length (crit m c))"
    using m a by (auto simp: mach_inv_def cpu_inv_def dest!: spec [of _ c])
  show ?thesis
  proof (cases cmd)
    case (Acquire l)
    then show ?thesis using mach_inv_local [OF m, of c "AHold1 l" "pushcli (pushcli (cpus m c))"] a n
      by (simp add: cpu_step_def cli_const [of c "\<lambda>k. pushcli (pushcli k)"])
  next
    case (Release l)
    then show ?thesis using mach_inv_local [OF m, of c "RHold1 l" "pushcli (cpus m c)"] a n
      by (simp add: cpu_step_def cli_const [of c pushcli])
  next
    case (SetIF b)
    show ?thesis
    proof (cases "ncli (cpus m c) = 0")
      case True
      then show ?thesis using SetIF mach_inv_local [OF m, of c "Run" "(cpus m c)\<lparr>ifl := b\<rparr>"] a n same_mach [of c m]
        by (simp add: cpu_step_def cli_const [of c "ifl_update (\<lambda>_. b)"])
    next
      case False
      then show ?thesis using SetIF a m by (simp add: cpu_step_def)
    qed
  qed
qed

text \<open>\<^verbatim>\<open>popcli\<close> never panics where it is called.\<close>

lemma pop_to_run:
  assumes "mach_inv m" "\<not> halted (at m c)" "0 < extra (at m c)" "cpus m' c = cpus m c"
  shows "\<exists>k. pop_to c l p m' = goto c p (cli_upd c (\<lambda>_. k) m') \<and> ncli k = ncli (cpus m c) - 1 \<and> (0 < ncli k \<longrightarrow> \<not> ifl k)"
proof -
  have "0 < ncli (cpus m c) \<and> \<not> ifl (cpus m c)"
    using assms by (auto simp: mach_inv_def cpu_inv_def dest!: spec [of _ c])
  then show ?thesis using assms(4) by (auto simp: pop_to_def popcli_ok)
qed

lemma step_hold:
  assumes m: "mach_inv m" and a: "at m c = AHold1 l \<or> at m c = AHold2 l b \<or> at m c = RHold1 l \<or> at m c = RHold2 l b"
  shows "mach_inv (cpu_step c cmd callers m)"
proof -
  have ci: "cpu_inv m c" and li: "lock_inv m l" using m by (simp_all add: mach_inv_def)
  have held: "lk_cpu (locks m l) = Some c \<longleftrightarrow> l \<in> set (crit m c)" using li by (simp add: lock_inv_def)
  have busy: "l \<in> set (crit m c) \<Longrightarrow> lk_locked (locks m l) \<noteq> 0" using li by (auto simp: lock_inv_def owns_def)
  consider "at m c = AHold1 l" | "at m c = AHold2 l b" | "at m c = RHold1 l" | "at m c = RHold2 l b" using a by blast
  then show ?thesis
  proof cases
    case 1
    then show ?thesis using mach_inv_local [OF m, of c "AHold2 l (lk_locked (locks m l) \<noteq> 0)" "cpus m c"] ci
      by (simp add: cpu_step_def cpu_inv_def goto_cli [symmetric])
  next
    case 2
    let ?p = "if b \<and> lk_cpu (locks m l) = Some c then Halt ''acquire'' l else ASpin l"
    obtain k where k: "pop_to c l ?p m = goto c ?p (cli_upd c (\<lambda>_. k) m)" "ncli k = ncli (cpus m c) - 1" "0 < ncli k \<longrightarrow> \<not> ifl k"
      using pop_to_run [OF m, of c m l ?p] 2 by auto
    have "mach_inv (goto c ?p (cli_upd c (\<lambda>_. k) m))"
      using 2 ci k held by (intro mach_inv_local [OF m]) (auto simp: cpu_inv_def)
    then show ?thesis using 2 k(1) by (simp add: cpu_step_def)
  next
    case 3
    then show ?thesis using mach_inv_local [OF m, of c "RHold2 l (lk_locked (locks m l) \<noteq> 0)" "cpus m c"] ci busy
      by (simp add: cpu_step_def cpu_inv_def goto_cli [symmetric])
  next
    case 4
    let ?p = "if b \<and> lk_cpu (locks m l) = Some c then RClear l else Halt ''release'' l"
    obtain k where k: "pop_to c l ?p m = goto c ?p (cli_upd c (\<lambda>_. k) m)" "ncli k = ncli (cpus m c) - 1" "0 < ncli k \<longrightarrow> \<not> ifl k"
      using pop_to_run [OF m, of c m l ?p] 4 by auto
    have "mach_inv (goto c ?p (cli_upd c (\<lambda>_. k) m))"
      using 4 ci k held by (intro mach_inv_local [OF m]) (auto simp: cpu_inv_def)
    then show ?thesis using 4 k(1) by (simp add: cpu_step_def)
  qed
qed

lemma step_spin:
  assumes m: "mach_inv m" and a: "at m c = ASpin l"
  shows "mach_inv (cpu_step c cmd callers m)"
proof (rule mach_inv_step [OF m, of c _ "Some l"])
  have ci: "cpu_inv m c" and li: "lock_inv m l" using m by (simp_all add: mach_inv_def)
  show "cpu_inv (cpu_step c cmd callers m) c"
    using a ci li by (auto simp: cpu_step_def cpu_inv_def mach_upd_defs lock_inv_def owns_def)
  show "lock_inv (cpu_step c cmd callers m) k" if "Some l = Some k" for k
  proof (cases "lk_locked (locks m l) \<noteq> 0")
    case True
    then have "lk_locked (locks (cpu_step c cmd callers m) l) \<noteq> 0" "owns (cpu_step c cmd callers m) = owns m"
        "lk_cpu (locks (cpu_step c cmd callers m) l) = lk_cpu (locks m l)" "crit (cpu_step c cmd callers m) = crit m"
      using a by (auto simp: cpu_step_def mach_upd_defs owns_def fun_eq_iff)
    then show ?thesis using li True that by (simp add: lock_inv_def)
  next
    case False
    then have "\<not> owns m d l" for d using li by (auto simp: lock_inv_def)
    moreover have "owns (cpu_step c cmd callers m) d l \<longleftrightarrow> d = c \<or> owns m d l" for d
      using a False by (auto simp: cpu_step_def mach_upd_defs owns_def)
    ultimately show ?thesis using li that a False by (auto simp: lock_inv_def cpu_step_def mach_upd_defs)
  qed
qed (use a in \<open>auto simp: cpu_step_def mach_upd_defs owns_def\<close>)

lemma step_own:
  assumes m: "mach_inv m" and a: "at m c = ACpu l \<or> at m c = RClear l"
  shows "mach_inv (cpu_step c cmd callers m)"
proof (rule mach_inv_step [OF m, of c _ "Some l"])
  let ?m = "cpu_step c cmd callers m"
  have ci: "cpu_inv m c" and li: "lock_inv m l" using m by (simp_all add: mach_inv_def)
  have len: "l \<in> set (crit m c) \<Longrightarrow> int (length (crit m c) - Suc 0) = int (length (crit m c)) - 1" by (cases "crit m c") auto
  show "cpu_inv ?m c"
    using a ci by (auto simp: cpu_step_def cpu_inv_def mach_upd_defs length_remove1 len)
  have own: "owns m c l" using a ci by (auto simp: owns_def cpu_inv_def)
  then have others: "\<not> owns m d l" if "d \<noteq> c" for d using li that by (auto simp: lock_inv_def)
  have "owns ?m d l \<longleftrightarrow> d = c" for d
    using a others [of d] by (cases "d = c") (auto simp: cpu_step_def mach_upd_defs owns_def)
  moreover have "lk_locked (locks ?m l) = lk_locked (locks m l)" using a by (auto simp: cpu_step_def mach_upd_defs)
  moreover have "lk_cpu (locks ?m l) = Some d \<longleftrightarrow> l \<in> set (crit ?m d)" for d
    using a others [of d] ci by (cases "d = c") (auto simp: cpu_step_def mach_upd_defs owns_def cpu_inv_def)
  ultimately show "lock_inv ?m k" if "Some l = Some k" for k
    using that li own by (auto simp: lock_inv_def)
qed (use a in \<open>auto simp: cpu_step_def mach_upd_defs owns_def\<close>)

lemma step_store:
  assumes m: "mach_inv m" and a: "at m c = RStore l"
  shows "mach_inv (cpu_step c cmd callers m)"
proof -
  have ci: "cpu_inv m c" and li: "lock_inv m l" using m by (simp_all add: mach_inv_def)
  let ?n = "lock_upd l (\<lambda>k. k\<lparr>lk_locked := 0\<rparr>) m"
  obtain k where k: "pop_to c l Run ?n = goto c Run (cli_upd c (\<lambda>_. k) ?n)" "ncli k = ncli (cpus m c) - 1" "0 < ncli k \<longrightarrow> \<not> ifl k"
    using pop_to_run [OF m, of c ?n l Run] a by (auto simp: lock_upd_def)
  have own: "owns m c l" using a by (simp add: owns_def)
  then have others: "\<not> owns m d l" if "d \<noteq> c" for d using li that by (auto simp: lock_inv_def)
  have "mach_inv (goto c Run (cli_upd c (\<lambda>_. k) ?n))" (is "mach_inv ?m")
  proof (rule mach_inv_step [OF m, of c _ "Some l"])
    show "cpu_inv ?m c" using a ci k by (auto simp: cpu_inv_def mach_upd_defs)
    have "\<not> owns ?m d l" for d
      using a others [of d] ci by (cases "d = c") (auto simp: mach_upd_defs owns_def cpu_inv_def)
    then show "lock_inv ?m j" if "Some l = Some j" for j
      using that li by (auto simp: lock_inv_def mach_upd_defs)
  qed (use a in \<open>auto simp: mach_upd_defs owns_def\<close>)
  then show ?thesis using a k(1) by (simp add: cpu_step_def)
qed

lemma step_inv: "mach_inv m \<Longrightarrow> mach_inv (cpu_step c cmd callers m)"
  using step_run [of m c] step_hold [of m c] step_spin [of m c] step_own [of m c] step_store [of m c]
  by (cases "at m c") (auto simp: cpu_step_def)

lemma started_inv: "started m \<Longrightarrow> mach_inv m"
  by (auto simp: started_def mach_inv_def lock_inv_def cpu_inv_def owns_def)

lemma reach_inv: "reach m0 m \<Longrightarrow> started m0 \<Longrightarrow> mach_inv m"
  by (induction rule: reach.induct) (auto intro: started_inv step_inv)


lemma crit_owns: "l \<in> set (crit m c) \<Longrightarrow> owns m c l"
  by (simp add: owns_def)

text \<open>C7: Mutual exclusion. However the processors interleave the loads, stores and exchanges of
  \<^verbatim>\<open>acquire\<close> and \<^verbatim>\<open>release\<close>, no two processors are ever in the critical section of one lock; the
  holder is recorded in the lock and runs with interrupts off; and the only panics are those of a
  processor that acquires a lock it holds or releases one it does not hold (none of \<^verbatim>\<open>popcli\<close>).\<close>

theorem spinlock_mutual_exclusion:
  assumes "started m0" "reach m0 m"
  shows "(l \<in> set (crit m c) \<and> l \<in> set (crit m d) \<longrightarrow> c = d) \<and>
    (l \<in> set (crit m c) \<longrightarrow> lk_locked (locks m l) \<noteq> 0 \<and> lk_cpu (locks m l) = Some c \<and> (halted (at m c) \<or> \<not> ifl (cpus m c))) \<and>
    (at m c = Halt msg l \<longrightarrow> msg = ''acquire'' \<and> l \<in> set (crit m c) \<or> msg = ''release'' \<and> l \<notin> set (crit m c))"
proof -
  have i: "mach_inv m" by (rule reach_inv [OF assms(2,1)])
  then have li: "lock_inv m l" and ci: "cpu_inv m c" by (simp_all add: mach_inv_def)
  have "halted (at m c) \<or> \<not> ifl (cpus m c)" if "l \<in> set (crit m c)"
  proof -
    have "0 < length (crit m c)" "0 \<le> extra (at m c)" using that by (auto, cases "at m c", auto)
    then have "0 < int (length (crit m c)) + extra (at m c)" by linarith
    then show ?thesis using ci by (auto simp: cpu_inv_def)
  qed
  moreover have "lk_locked (locks m l) \<noteq> 0" if "l \<in> set (crit m c)" using li crit_owns [OF that] by (auto simp: lock_inv_def)
  ultimately show ?thesis using li ci crit_owns by (auto simp: lock_inv_def cpu_inv_def)
qed

text \<open>Two processors and one lock: processor 0 is in the critical section while 1 spins.\<close>

definition demo_mach :: mach where
  "demo_mach = \<lparr>locks = (\<lambda>_. \<lparr>lk_locked = 0, lk_cpu = None, lk_pcs = replicate 10 0\<rparr>),
     cpus = (\<lambda>_. \<lparr>ncli = 0, intena = False, ifl = True\<rparr>), at = (\<lambda>_. Run), crit = (\<lambda>_. [])\<rparr>"

definition demo_run :: mach where
  "demo_run = fold (\<lambda>c. cpu_step c (Acquire 7) (replicate 10 0)) [0, 1, 0, 1, 0, 1, 0, 1, 0] demo_mach"

lemma reach_fold: "reach m0 m \<Longrightarrow> reach m0 (fold (\<lambda>c. cpu_step c cmd callers) cs m)"
  by (induction cs arbitrary: m) (auto intro: reach_step)

theorem spinlock_mutual_exclusion_witness:
  "crit demo_run 0 = [7] \<and> at demo_run 1 = ASpin 7 \<and> lk_cpu (locks demo_run 7) = Some 0 \<and> (7 \<in> set (crit demo_run 1)) = (1 = (0 :: nat))"
proof -
  have c: "crit demo_run 0 = [7]" "at demo_run 1 = ASpin 7"
    by (simp_all add: demo_run_def demo_mach_def cpu_step_def mach_upd_defs pop_to_def popcli_def pushcli_def)
  have "reach demo_mach demo_run" unfolding demo_run_def by (intro reach_fold reach_refl)
  moreover have "started demo_mach" by (simp add: started_def demo_mach_def)
  ultimately show ?thesis
    using c spinlock_mutual_exclusion [of demo_mach demo_run 7 0 1] by auto
qed

text \<open>C21: The lock is handed on. When processor \<open>d\<close> spins on a lock that processor \<open>c\<close> is about to give
  back, then \<open>c\<close> can take its step whatever happens elsewhere, after it the lock is free, and the
  next exchange of \<open>d\<close> wins: two more steps of \<open>d\<close> bring it into the critical section.\<close>

theorem spinlock_handover:
  assumes "started m0" "reach m0 m" "at m c = RStore l" "at m d = ASpin l"
  shows "lk_locked (locks (cpu_step c cmd callers m) l) = 0 \<and> at (cpu_step c cmd callers m) c = Run \<and>
    l \<in> set (crit (cpu_step d cmd callers (cpu_step d cmd callers (cpu_step c cmd callers m))) d)"
proof -
  have i: "mach_inv m" by (rule reach_inv [OF assms(2,1)])
  have ne: "c \<noteq> d" using assms(3,4) by auto
  let ?n = "lock_upd l (\<lambda>k. k\<lparr>lk_locked := 0\<rparr>) m"
  obtain k where k: "pop_to c l Run ?n = goto c Run (cli_upd c (\<lambda>_. k) ?n)"
    using pop_to_run [OF i, of c ?n l Run] assms(3) by (auto simp: lock_upd_def)
  then have 1: "cpu_step c cmd callers m = goto c Run (cli_upd c (\<lambda>_. k) ?n)" using assms(3) by (simp add: cpu_step_def)
  show ?thesis using ne assms(4) by (simp add: 1) (simp add: cpu_step_def mach_upd_defs)
qed

theorem spinlock_handover_witness:
  "7 \<in> set (crit (fold (\<lambda>c. cpu_step c (Release 7) []) [0, 0, 0, 0, 0, 1, 1] demo_run) 1)"
proof -
  let ?m = "fold (\<lambda>c. cpu_step c (Release 7) []) [0, 0, 0, 0] demo_run"
  have a: "at ?m 0 = RStore 7" "at ?m 1 = ASpin 7"
    by (simp_all add: demo_run_def demo_mach_def cpu_step_def mach_upd_defs pop_to_def popcli_def pushcli_def)
  have "reach demo_mach demo_run" unfolding demo_run_def by (intro reach_fold reach_refl)
  then have "reach demo_mach ?m" by (rule reach_fold)
  moreover have "started demo_mach" by (simp add: started_def demo_mach_def)
  ultimately show ?thesis
    using spinlock_handover [of demo_mach ?m 0 7 1 "Release 7" "[]"] a by simp
qed

end
