(* ===== verification/Crash.thy ===== *)
theory Crash
  imports Log Str
begin

text \<open>
  Power failures. The disk writes whole blocks, one after the other; a machine that loses power
  leaves a disk on which a prefix of the writes has been done. \<open>crashes n D D'\<close> relates a disk to
  the disks that any number of interrupted recoveries can make of it.

  Shown here: a transaction of the log is atomic. Wherever in \<^verbatim>\<open>commit\<close> the machine loses power, and
  however often it does so again while it recovers, the next complete recovery yields the disk
  with all changes of the transaction or with none.
\<close>

section \<open>Crashes\<close>

text \<open>The home blocks as the next recovery of \<open>D\<close> will make them, and the blocks of the log.\<close>

definition recovered :: "(uint32 \<Rightarrow> bytes) \<Rightarrow> uint32 \<Rightarrow> bytes" where
  "recovered D = apply_writes (disk_installs D) D"

definition log_area :: "(uint32 \<Rightarrow> bytes) \<Rightarrow> uint32 set" where
  "log_area D = disk_log D ` {..29}"

lemma apply_writes_indep: "b \<in> fst ` set ws \<Longrightarrow> apply_writes ws D b = apply_writes ws E b"
proof (induction ws arbitrary: D E)
  case (Cons w ws)
  show ?case
  proof (cases "b \<in> fst ` set ws")
    case True
    then show ?thesis using Cons.IH by (cases w) simp
  next
    case False
    then show ?thesis using Cons.prems by (cases w) (auto simp: apply_writes_other)
  qed
qed simp

lemma apply_writes_prefix: "apply_writes ws (apply_writes (take k ws) D) = apply_writes ws D"
proof (rule ext)
  fix b
  show "apply_writes ws (apply_writes (take k ws) D) b = apply_writes ws D b"
  proof (cases "b \<in> fst ` set ws")
    case True
    then show ?thesis by (rule apply_writes_indep)
  next
    case False
    then have "b \<notin> fst ` set (take k ws)" by (auto dest: in_set_takeD)
    then show ?thesis using False by (simp add: apply_writes_other)
  qed
qed

lemma apply_writes_length:
  "(\<And>b. length (D b) = N) \<Longrightarrow> (\<And>b d. (b, d) \<in> set ws \<Longrightarrow> length d = N) \<Longrightarrow> length (apply_writes ws D b) = N"
proof (induction ws arbitrary: D)
  case (Cons w ws)
  obtain x d where w: "w = (x, d)" by (cases w)
  show ?case unfolding w apply_writes_simps using Cons.prems by (intro Cons.IH) (auto simp: w)
qed simp

lemma head_empty: "rd32 h 0 = 0 \<Longrightarrow> head_blocks h = []"
  by (simp add: head_blocks_def)

lemma disk_ok_same_log:
  assumes ok: "disk_ok n D" and len: "\<And>b. length (D' b) = BSIZE" and one: "D' 1 = D 1"
    and h: "D' (disk_log D 0) = D (disk_log D 0) \<or> head_blocks (D' (disk_log D 0)) = []"
  shows "disk_ok n D' \<and> disk_log D' = disk_log D"
proof -
  have "disk_log D' = disk_log D" by (simp add: fun_eq_iff disk_log_def one)
  then show ?thesis using ok len h by (auto simp: disk_ok_def Let_def simp del: length_head_blocks)
qed

lemma fst_disk_installs: "fst ` set (disk_installs D) = set (head_blocks (D (disk_log D 0)))"
proof -
  have "map fst (disk_installs D) = map (\<lambda>i. head_blocks (D (disk_log D 0)) ! i) [0..<length (head_blocks (D (disk_log D 0)))]"
    by (simp add: disk_installs_def Let_def)
  then show ?thesis by (metis list.set_map map_nth)
qed

lemma disk_installs_dom:
  assumes "disk_ok n D" "b \<in> fst ` set (disk_installs D)"
  shows "b \<noteq> 1 \<and> b \<notin> log_area D"
proof -
  have "b \<noteq> 1 \<and> (\<forall>k\<le>29. b \<noteq> disk_log D k)"
    using assms unfolding fst_disk_installs disk_ok_def Let_def by blast
  then show ?thesis by (auto simp: log_area_def)
qed

lemma recovery_crash:
  assumes ok: "disk_ok n D"
    and D': "D' = apply_writes (take k (disk_installs D @ [(disk_log D 0, put_head [] (D (disk_log D 0)))])) D"
  shows "disk_ok n D' \<and> disk_log D' = disk_log D \<and> (\<forall>b. b \<notin> log_area D \<longrightarrow> recovered D' b = recovered D b)"
proof -
  let ?I = "disk_installs D" and ?L = "disk_log D"
  have len: "\<And>b. length (D b) = BSIZE" using ok by (simp add: disk_ok_def)
  have dom: "b \<noteq> 1" "b \<notin> log_area D" if "b \<in> fst ` set (take j ?I)" for b j
    using that disk_installs_dom [OF ok, of b] by (auto dest: in_set_takeD)
  have il: "length d = BSIZE" if "(b, d) \<in> set (take j ?I)" for b d j
    using in_set_takeD [OF that] len by (auto simp: disk_installs_def Let_def)
  have L: "?L j \<in> log_area D" if "j \<le> 29" for j using that by (simp add: log_area_def)
  have pre: "apply_writes (take j ?I) D x = D x" if "x = 1 \<or> x \<in> log_area D" for j x
    using that dom by (intro apply_writes_other) blast
  show ?thesis
  proof (cases "k \<le> length ?I")
    case True
    then have D': "D' = apply_writes (take k ?I) D" using D' by simp
    have same: "D' 1 = D 1" "\<And>j. j \<le> 29 \<Longrightarrow> D' (?L j) = D (?L j)" using pre L by (simp_all add: D')
    have "disk_ok n D' \<and> disk_log D' = ?L"
      using same len il by (intro disk_ok_same_log [OF ok]) (auto simp: D' intro: apply_writes_length)
    moreover have "disk_installs D' = ?I"
    proof -
      have "length (head_blocks (D (?L 0))) \<le> 29" using ok by (simp add: disk_ok_def Let_def)
      then show ?thesis using same calculation by (simp add: disk_installs_def Let_def)
    qed
    ultimately show ?thesis by (simp add: recovered_def D' apply_writes_prefix)
  next
    case False
    then have D': "D' = (apply_writes ?I D)(?L 0 := put_head [] (D (?L 0)))" using D' by simp
    have h: "head_blocks (D' (?L 0)) = []" by (simp add: D' head_blocks_put)
    have "D' 1 = D 1" using pre [of 1 "length ?I"] ok by (simp add: D' disk_ok_def)
    moreover have "length (D' b) = BSIZE" for b
      using apply_writes_length [OF len, of ?I] il [of _ _ "length ?I"] len by (auto simp: D')
    ultimately have "disk_ok n D' \<and> disk_log D' = ?L" using h by (intro disk_ok_same_log [OF ok]) auto
    moreover from this h have "disk_installs D' = []" by (simp add: disk_installs_def)
    moreover have "D' b = recovered D b" if "b \<notin> log_area D" for b using that L [of 0] by (auto simp: D' recovered_def)
    ultimately show ?thesis by (simp add: recovered_def)
  qed
qed

section \<open>Atomicity\<close>

lemma content_clean:
  assumes c: "cinv {} s" and b: "b \<notin> dirty_blocks s"
  shows "content s b = memdisk s b"
proof (cases "\<exists>j<NBUF. b_dev (bufs s ! j) = 1 \<and> b_blockno (bufs s ! j) = b \<and> is_valid (bufs s ! j)")
  case True
  then obtain j where j: "j < NBUF" "b_dev (bufs s ! j) = 1" "b_blockno (bufs s ! j) = b" "is_valid (bufs s ! j)" by blast
  then have "\<not> is_dirty (bufs s ! j)" using b by (auto simp: dirty_blocks_def)
  then show ?thesis using content_hit [OF c j] cinv_free [OF c _ j(1)] j by (simp add: free_buf_def)
next
  case False
  then show ?thesis by (intro content_miss [OF cinv_table [OF c]]) blast
qed

lemma content_length:
  assumes c: "cinv {} s"
  shows "length (content s b) = BSIZE"
proof (cases "b \<in> dirty_blocks s")
  case True
  then obtain j where j: "j < NBUF" "is_dirty (bufs s ! j)" "b_blockno (bufs s ! j) = b" by (auto simp: dirty_blocks_def)
  note f = cinv_free [OF c _ j(1), simplified]
  then have "content s b = b_data (bufs s ! j)" using content_hit [OF c j(1) _ j(3)] j(2) by (simp add: free_buf_def)
  then show ?thesis using f by (simp add: free_buf_def)
next
  case False
  then show ?thesis using content_clean [OF c] c by (simp add: cinv_def)
qed

text \<open>The machine when the last system call of a transaction has ended and the blocks \<open>bs\<close> are to be
  committed: exactly they are dirty, the log on the disk is empty, and the super block on the
  disk names the log that the kernel uses.\<close>

definition in_transaction :: "fsys \<Rightarrow> uint32 list \<Rightarrow> bool" where
  "in_transaction s bs \<longleftrightarrow> cinv {} s \<and> log_geo s \<and> logged s bs \<and> dirty_blocks s = set bs \<and> length bs < NBUF \<and>
     1 < disksize s \<and> 1 \<notin> set bs \<and> (\<forall>k\<le>29. log_block s k \<noteq> 1) \<and> l_start (lg s) = sint (rd32 (memdisk s 1) 16) \<and>
     rd32 (memdisk s (log_block s 0)) 0 = 0"

lemma commit_crash:
  assumes t: "in_transaction s bs" and D: "D = apply_writes (take k (commit_writes s bs)) (memdisk s)"
  shows "disk_ok (disksize s) D \<and> disk_log D = log_block s \<and>
    (\<forall>b. b \<notin> log_area D \<longrightarrow> recovered D b = (if k \<le> length bs then memdisk s b else content s b))"
proof -
  let ?D0 = "memdisk s" and ?L = "log_block s" and ?n = "length bs" and ?C = "content s"
  let ?A = "log_copies s bs ?n" and ?H1 = "put_head bs (?C (?L 0))" and ?B = "map (\<lambda>b. (b, ?C b)) bs"
  define E where "E = (apply_writes ?A ?D0)(?L 0 := ?H1)"
  have c: "cinv {} s" and l: "logged s bs" and g: "log_geo s" and one: "1 \<notin> set bs" "\<forall>k\<le>29. ?L k \<noteq> 1" and d: "dirty_blocks s = set bs"
    using t by (simp_all add: in_transaction_def)
  have L0: "disk_log ?D0 = ?L"
    using t by (simp add: in_transaction_def fun_eq_iff disk_log_def log_block_def)
  have area: "log_area D' = ?L ` {..29}" if "D' 1 = ?D0 1" for D'
    using that L0 by (simp add: log_area_def disk_log_def fun_eq_iff)
  have n30: "?n \<le> 29" and dist: "distinct bs" using l by (simp_all add: logged_def)
  have len: "\<And>b. length (?C b) = BSIZE" "\<And>b. length (?D0 b) = BSIZE" using content_length [OF c] c by (simp_all add: cinv_def)
  have out: "?L k \<notin> set bs" if "k \<le> 29" for k using logged_outside [OF l that] .
  have ok0: "disk_ok (disksize s) ?D0"
    using t g len L0 head_empty [of "?D0 (?L 0)"] by (simp add: disk_ok_def Let_def in_transaction_def log_geo_def del: length_head_blocks)
  have Afst: "fst ` set (take j ?A) \<subseteq> (\<lambda>i. ?L (Suc i)) ` {..<?n}" for j
    by (auto simp: log_copies_def dest!: in_set_takeD)
  have Aout: "apply_writes (take j ?A) ?D0 b = ?D0 b" if "b = 1 \<or> b = ?L 0 \<or> b \<notin> ?L ` {..29}" for j b
  proof (rule apply_writes_other)
    have "b \<noteq> ?L (Suc i)" if "i < ?n" for i
      using \<open>b = 1 \<or> b = ?L 0 \<or> b \<notin> ?L ` {..29}\<close> one(2) [rule_format, of "Suc i"] log_block_inj [of 0 "Suc i" s] that n30 by auto
    then show "b \<notin> fst ` set (take j ?A)" using Afst [of j] by blast
  qed
  have lenA: "length d = BSIZE" if "(b, d) \<in> set ?A" for b d using that len by (auto simp: log_copies_def)
  have lenE: "length (E b) = BSIZE" for b
    using apply_writes_length [OF len(2) lenA] n30 len by (simp add: E_def)
  have E1: "E 1 = ?D0 1" using Aout [of 1 "length ?A"] one(2) [rule_format, of 0] by (simp add: E_def)
  have Eb: "E b = ?D0 b" if "b \<notin> ?L ` {..29}" for b using that Aout [of b "length ?A"] by (auto simp: E_def)
  have El: "E (?L (Suc i)) = ?C (bs ! i)" if "i < ?n" for i
    using that log_copies_at(1) [OF l that] log_block_inj [of "Suc i" 0 s] n30 by (simp add: E_def)
  have Bfst: "fst ` set (take j ?B) \<subseteq> set bs" for j by (auto dest!: in_set_takeD)
  have Bout: "apply_writes (take j ?B) E b = E b" if "b \<notin> set bs" for j b
    using that Bfst [of j] by (intro apply_writes_other) blast
  have lenB: "length (apply_writes (take j ?B) E b) = BSIZE" for j b
    using lenE len by (intro apply_writes_length) (auto dest!: in_set_takeD)
  have new: "apply_writes ?B E b = ?C b" if "b \<notin> ?L ` {..29}" for b
  proof (cases "b \<in> set bs")
    case True
    then show ?thesis using dist by (intro apply_writes_at) (simp_all add: comp_def)
  next
    case False
    then show ?thesis using Bout [of b "length bs"] Eb [OF that] content_clean [OF c] d by simp
  qed
  have "k \<le> m \<or> (\<exists>j. k = Suc (m + j) \<and> j \<le> m) \<or> Suc (2 * m) < k" for m by presburger
  then consider "k \<le> ?n" | j where "k = Suc (?n + j)" "j \<le> ?n" | "Suc (2 * ?n) < k" by blast
  then show ?thesis
  proof cases
    case 1
    then have D': "D = apply_writes (take k ?A) ?D0" using D by (simp add: commit_writes_def Let_def log_copies_def)
    have s1: "D 1 = ?D0 1" "D (?L 0) = ?D0 (?L 0)" using Aout by (simp_all add: D')
    have "length (D b) = BSIZE" for b
      unfolding D' using len(2) lenA in_set_takeD [of _ k ?A] by (intro apply_writes_length) blast+
    then have "disk_ok (disksize s) D \<and> disk_log D = ?L"
      using disk_ok_same_log [OF ok0, of D] s1 L0 by simp
    moreover from this have "disk_installs D = []" using s1 t head_empty [of "?D0 (?L 0)"] by (simp add: disk_installs_def in_transaction_def)
    ultimately show ?thesis using 1 Aout area [of D, OF s1(1)] by (simp add: recovered_def D')
  next
    case (2 j)
    then have D': "D = apply_writes (take j ?B) E" using D by (simp add: commit_writes_def Let_def log_copies_def E_def take_map)
    have s1: "D 1 = ?D0 1" "\<And>i. i \<le> 29 \<Longrightarrow> D (?L i) = E (?L i)" using Bout one(1) out E1 by (simp_all add: D')
    have L: "disk_log D = ?L" using s1(1) L0 by (simp add: disk_log_def fun_eq_iff)
    have hb: "head_blocks (D (?L 0)) = bs" using s1(2) [of 0] n30 by (simp add: E_def head_blocks_put)
    have "disk_ok (disksize s) D"
      unfolding disk_ok_def L hb Let_def using t l g lenB one(1) by (auto simp: in_transaction_def log_geo_def logged_def D')
    moreover have "D (?L (Suc i)) = ?C (bs ! i)" if "i < ?n" for i using s1(2) [of "Suc i"] El n30 that by simp
    then have "disk_installs D = ?B"
      unfolding disk_installs_def L hb Let_def by (intro nth_equalityI) simp_all
    ultimately show ?thesis using 2 L new area [of D, OF s1(1)] apply_writes_prefix [of ?B j E] by (simp add: recovered_def D')
  next
    case 3
    then have D': "D = (apply_writes ?B E)(?L 0 := put_head [] ?H1)" using D by (simp add: commit_writes_def Let_def log_copies_def E_def)
    have s1: "D 1 = ?D0 1" using Bout [of 1 ?n] one E1 one(2) [rule_format, of 0] by (simp add: D')
    have hb: "head_blocks (D (?L 0)) = []" by (simp add: D' head_blocks_put)
    have "length (D b) = BSIZE" for b using lenB [of ?n b] len n30 by (simp add: D')
    then have "disk_ok (disksize s) D \<and> disk_log D = ?L" using disk_ok_same_log [OF ok0, of D] s1 L0 hb by auto
    moreover from this have "disk_installs D = []" using hb by (simp add: disk_installs_def)
    ultimately show ?thesis using 3 new area [of D, OF s1] by (auto simp: recovered_def D')
  qed
qed

inductive crashes :: "uint32 \<Rightarrow> (uint32 \<Rightarrow> bytes) \<Rightarrow> (uint32 \<Rightarrow> bytes) \<Rightarrow> bool" for n where
  no_crash: "crashes n D D"
| crash: "crashes n D D' \<Longrightarrow> reboot n D' = Ret () r [] \<Longrightarrow> crashes n D (apply_writes (take k (d_writes r)) D')"

lemma crashes_recover:
  "crashes n D D' \<Longrightarrow> disk_ok n D \<Longrightarrow>
   disk_ok n D' \<and> disk_log D' = disk_log D \<and> (\<forall>b. b \<notin> log_area D \<longrightarrow> recovered D' b = recovered D b)"
proof (induction rule: crashes.induct)
  case (crash D D' r k)
  then have ok: "disk_ok n D'" and L: "disk_log D' = disk_log D" and e: "\<forall>b. b \<notin> log_area D \<longrightarrow> recovered D' b = recovered D b"
    by simp_all
  have "d_writes r = disk_installs D' @ [(disk_log D' 0, put_head [] (D' (disk_log D' 0)))]"
    using reboot_spec [OF ok] crash.hyps(2) by auto
  from recovery_crash [OF ok, of _ k, folded this] L e show ?case by (simp add: log_area_def)
qed simp

lemma reboot_recovers:
  assumes "disk_ok n D"
  shows "\<exists>r. reboot n D = Ret () r [] \<and> (\<forall>b. b \<notin> log_area D \<longrightarrow> memdisk r b = recovered D b)"
proof -
  have "b \<noteq> disk_log D 0" if "b \<notin> log_area D" for b using that by (auto simp: log_area_def)
  then show ?thesis using reboot_spec [OF assms] by (auto simp: recovered_def)
qed

lemma commit_home:
  assumes t: "in_transaction s bs" and b: "b \<notin> log_block s ` {..29}"
  shows "apply_writes (commit_writes s bs) (content s) b = content s b"
proof -
  have l: "logged s bs" using t by (simp add: in_transaction_def)
  have d: "distinct bs" using l by (simp add: logged_def)
  have b0: "b \<noteq> log_block s 0" using b by auto
  have "apply_writes (map (\<lambda>b. (b, content s b)) bs) D b = (if b \<in> set bs then content s b else D b)" for D
    using d by (auto intro!: apply_writes_other apply_writes_at simp: comp_def)
  then show ?thesis using b0 log_copies_at(3) [OF l b] by (simp add: commit_writes_def Let_def)
qed

text \<open>C3: Transactions are atomic across power failures. When the blocks \<open>bs\<close> of a transaction are to be
  committed, \<^verbatim>\<open>commit\<close> returns with all of them on the disk and nothing left to write. If the
  machine loses power after any number \<open>k\<close> of the block writes of this \<^verbatim>\<open>commit\<close>, and again any
  number of times while it recovers, then the next start-up that completes leaves, outside the
  log, exactly the disk before the transaction (when the header had not been written, \<open>k\<close> at
  most the number of blocks) or exactly the disk with all of its changes.\<close>

theorem log_crash_atomic:
  assumes t: "in_transaction s bs" and ne: "bs \<noteq> []"
  shows "\<exists>s'. commit s sch = Ret () s' sch \<and> dirty_blocks s' = {} \<and>
    (\<forall>b. b \<notin> log_block s ` {..29} \<longrightarrow> memdisk s' b = content s b \<and> content s' b = content s b) \<and>
    (\<forall>k D. crashes (disksize s) (apply_writes (take k (drop (length (d_writes s)) (d_writes s'))) (memdisk s)) D \<longrightarrow>
      (\<exists>r. reboot (disksize s) D = Ret () r [] \<and>
        (\<forall>b. b \<notin> log_block s ` {..29} \<longrightarrow> memdisk r b = (if k \<le> length bs then memdisk s b else content s b))))"
proof -
  have c: "cinv {} s" "log_geo s" "logged s bs" "dirty_blocks s = set bs" "length bs < NBUF"
    using t by (simp_all add: in_transaction_def)
  obtain s' where run: "commit s sch = Ret () s' sch" and w: "wrote (clear_n s) (commit_writes s bs) {} s'"
    using commit_spec [OF c ne] by blast
  have ws: "drop (length (d_writes s)) (d_writes s') = commit_writes s bs" "dirty_blocks s' = {}" "cinv {} s'" using w by (simp_all add: wrote_def)
  have home: "content s' b = content s b" if "b \<notin> log_block s ` {..29}" for b
    using w commit_home [OF t that] by (simp add: wrote_def)
  have disk: "memdisk s' b = content s' b" for b using content_clean [OF ws(3)] ws(2) by simp
  have "\<exists>r. reboot (disksize s) D = Ret () r [] \<and>
      (\<forall>b. b \<notin> log_block s ` {..29} \<longrightarrow> memdisk r b = (if k \<le> length bs then memdisk s b else content s b))"
    if cr: "crashes (disksize s) (apply_writes (take k (commit_writes s bs)) (memdisk s)) D" for k D
  proof -
    let ?D = "apply_writes (take k (commit_writes s bs)) (memdisk s)"
    have cc: "disk_ok (disksize s) ?D" "disk_log ?D = log_block s"
      "\<forall>b. b \<notin> log_area ?D \<longrightarrow> recovered ?D b = (if k \<le> length bs then memdisk s b else content s b)"
      using commit_crash [OF t refl] by blast+
    have cd: "disk_ok (disksize s) D" "disk_log D = log_block s" "\<forall>b. b \<notin> log_area ?D \<longrightarrow> recovered D b = recovered ?D b"
      using crashes_recover [OF cr cc(1)] cc(2) by auto
    have "log_area ?D = log_block s ` {..29}" "log_area D = log_block s ` {..29}" using cc(2) cd(2) by (simp_all add: log_area_def)
    then show ?thesis using reboot_recovers [OF cd(1)] cd(3) cc(3) by auto
  qed
  then show ?thesis using run ws home disk by (intro exI [of _ s']) simp
qed

text \<open>A disk with a log in blocks 2 to 32 and otherwise zeros, for the example: the kernel starts on it,
  a system call changes block 40.\<close>

definition demo_disk :: "uint32 \<Rightarrow> bytes" where
  "demo_disk b = (if b = 1 then concat (map le32 [1000, 941, 200, 30, 2, 32, 58]) @ replicate 484 0 else replicate 512 0)"

lemma demo_disk_log: "disk_log demo_disk k = 2 + of_nat k"
  by (simp add: disk_log_def demo_disk_def rd32_def le32_def mk32_def)

lemma demo_disk_ok: "disk_ok 1000 demo_disk"
proof -
  have "disk_log demo_disk k < 1000 \<and> disk_log demo_disk k \<noteq> 1" if "k \<le> 29" for k
  proof -
    have "unat (2 + of_nat k :: uint32) = 2 + k" using that unat_add_nat [of 2 k] by simp
    then show ?thesis using that by (auto simp: demo_disk_log word_less_nat_alt word_unat_eq_iff)
  qed
  moreover have "head_blocks (demo_disk (disk_log demo_disk 0)) = []"
    by (rule head_empty) (simp add: demo_disk_log demo_disk_def rd32_def mk32_def)
  ultimately show ?thesis by (simp add: disk_ok_def Let_def demo_disk_def BSIZE_def)
qed

lemma demo_transaction:
  "\<exists>s. in_transaction s [40] \<and> disksize s = 1000 \<and> memdisk s 40 = replicate BSIZE 0 \<and> content s 40 = replicate BSIZE 7"
proof -
  obtain r where r: "cinv {} r" "content r = memdisk r" "dirty_blocks r = {}" and rdy: "log_ready 1000 demo_disk r"
    and dr: "d_writes r = disk_installs demo_disk @ [(disk_log demo_disk 0, put_head [] (demo_disk (disk_log demo_disk 0)))]"
      "memdisk r = apply_writes (d_writes r) demo_disk"
    using reboot_spec [OF demo_disk_ok] by blast
  have di: "disk_installs demo_disk = []"
    using head_empty [of "demo_disk (disk_log demo_disk 0)"]
    by (simp add: disk_installs_def demo_disk_log demo_disk_def rd32_def mk32_def)
  have md: "memdisk r = demo_disk(2 := put_head [] (demo_disk 2))" using dr di by (simp add: demo_disk_log)
  define s0 where "s0 = r\<lparr>lg := (lg r)\<lparr>l_outstanding := 1\<rparr>\<rparr>"
  have L: "log_block s0 = disk_log demo_disk" "log_geo s0" "logged s0 []" "disksize s0 = 1000" "length (lh_block (lg s0)) = 30" "\<not> log_lk s0"
    "l_size (lg s0) = 30" "l_start (lg s0) = 2" "1 \<le> l_outstanding (lg s0)"
  proof -
    have e: "log_block s0 = log_block r" "log_dev s0 = log_dev r" "disksize s0 = disksize r" "lh_n (lg s0) = lh_n (lg r)"
      by (simp_all add: s0_def log_block_def log_dev_def fun_eq_iff)
    have "log_geo s0 = log_geo r" "logged s0 [] = logged r []" by (simp_all add: log_geo_def logged_def e)
    then show "log_geo s0" "logged s0 []" "log_block s0 = disk_log demo_disk" "disksize s0 = 1000" using rdy e by (simp_all add: log_ready_def)
    show "length (lh_block (lg s0)) = 30" "\<not> log_lk s0" "l_size (lg s0) = 30" "l_start (lg s0) = 2" "1 \<le> l_outstanding (lg s0)"
      using rdy by (simp_all add: log_ready_def s0_def demo_disk_def rd32_def mk32_def le32_def)
  qed
  have c0: "cinv {} s0" "content s0 = memdisk r" "dirty_blocks s0 = {}" "memdisk s0 = memdisk r" using r by (simp_all add: s0_def)
  have out: "40 \<noteq> log_block s0 k" "1 \<noteq> log_block s0 k" if "k \<le> 29" for k
    using that unat_add_nat [of 2 k] by (auto simp: L demo_disk_log word_unat_eq_iff)
  have "(0 :: nat) < NBUF" by (simp add: NBUF_def)
  then obtain i s1 where p1: "bread_post {} s0 40 i s1" using bread_ex [OF c0(1), of 40] L(4) c0(3) by auto
  define s2 where "s2 = buf_upd i (b_data_update (\<lambda>_. replicate BSIZE 7)) s1"
  have c1: "cinv {i} s1" "b_blockno (bufs s1 ! i) = 40" "rest s1 = rest s0" "memdisk s1 = memdisk r" "content s1 = memdisk r" "dirty_blocks s1 = {}"
    using p1 c0 by (simp_all add: bread_post_def)
  have iN: "i < length (bufs s1)" using cinv_held [OF c1(1)] cinv_table [OF c1(1)] by auto
  have c2: "cinv {i} s2" "content s2 = (memdisk r)(40 := replicate BSIZE 7)" "dirty_blocks s2 = {}" "memdisk s2 = memdisk r" "rest s2 = rest s0" "b_blockno (bufs s2 ! i) = 40"
    using bmodify_spec [OF c1(1) _ _ c1(2) [symmetric], of "replicate BSIZE 7"] c1 iN by (simp_all add: s2_def)
  have L2: "lg s2 = lg s0" "log_block s2 = log_block s0" "logged s2 []" "\<not> log_lk s2"
    using log_rest [OF c2(5)] logged_rest(1) [OF c2(5)] rest_fields(7) [OF c2(5)] L by simp_all
  obtain s3 where p3: "log_write_post {i} s2 40 [] i s3"
    using log_write_spec [OF c2(1) insertI1 c2(6) L2(3)] L L2 out by auto
  have c3: "cinv {i} s3" "is_dirty (bufs s3 ! i)" "log_add 40 [] = [40]" using p3 by (simp_all add: log_write_post_def log_add_def)
  obtain s4 where p4: "brelse_post {i} s3 i s4" using brelse_ex [OF c3(1), of i] c3(2) by auto
  have c4: "cinv {} s4" "content s4 = (memdisk r)(40 := replicate BSIZE 7)" "dirty_blocks s4 = {40}" "memdisk s4 = memdisk r" "rest s4 = rest s3"
    using p4 p3 c2 by (simp_all add: brelse_post_def log_write_post_def)
  have l4: "l_start (lg s4) = 2" "l_dev (lg s4) = l_dev (lg s0)" "logged s4 [40]" "disksize s4 = 1000"
  proof -
    have "lg s4 = lg s3" "logged s4 [40]" using log_rest(5) [OF c4(5)] logged_rest(1) [OF c4(5)] p3 c3(3) by (simp_all add: log_write_post_def)
    moreover have "l_start (lg s3) = 2" "l_dev (lg s3) = l_dev (lg s0)"
    proof -
      have "lg s3 = (lg s2)\<lparr>lh_n := int (length (log_add 40 [])), lh_block := lh_block (lg s3)\<rparr>" using p3 by (simp add: log_write_post_def)
      then have "l_start (lg s3) = l_start (lg s2)" "l_dev (lg s3) = l_dev (lg s2)"
        by (metis fslog.select_convs(1) fslog.surjective fslog.update_convs(6,7), metis fslog.select_convs(5) fslog.surjective fslog.update_convs(6,7))
      then show "l_start (lg s3) = 2" "l_dev (lg s3) = l_dev (lg s0)" using L2(1) L(8) by simp_all
    qed
    moreover have "disksize s4 = 1000"
      using log_rest(4) [OF c4(5)] rest_fields(1) [of s3 "s2\<lparr>lg := lg s3\<rparr>"] p3 log_rest(4) [OF c2(5)] L(4) by (simp add: log_write_post_def)
    ultimately show "l_start (lg s4) = 2" "l_dev (lg s4) = l_dev (lg s0)" "logged s4 [40]" "disksize s4 = 1000" by simp_all
  qed
  have L4: "log_block s4 = disk_log demo_disk" using L(1,8) l4(1) by (simp add: log_block_def fun_eq_iff)
  have "log_geo s4" using L(1,2,4) L4 l4(2,4) by (simp add: log_geo_def log_dev_def)
  moreover have "rd32 (memdisk r 1) 16 = 2" by (simp add: md demo_disk_def rd32_def mk32_def le32_def)
  moreover have "rd32 (memdisk r (log_block s4 0)) 0 = 0" by (simp add: L4 demo_disk_log md head_n)
  ultimately have "in_transaction s4 [40]"
    using c4 l4 out L L4 by (simp add: in_transaction_def NBUF_def)
  moreover have "memdisk s4 40 = replicate BSIZE 0" using c4 by (simp add: md demo_disk_def BSIZE_def)
  ultimately show ?thesis using c4 l4 by (intro exI [of _ s4]) simp
qed

theorem log_crash_atomic_witness:
  "\<exists>s s' r r'. in_transaction s [40] \<and> commit s [] = Ret () s' [] \<and> memdisk s 40 \<noteq> content s 40 \<and>
    reboot 1000 (apply_writes (take 1 (drop (length (d_writes s)) (d_writes s'))) (memdisk s)) = Ret () r [] \<and> memdisk r 40 = memdisk s 40 \<and>
    reboot 1000 (apply_writes (take 2 (drop (length (d_writes s)) (d_writes s'))) (memdisk s)) = Ret () r' [] \<and> memdisk r' 40 = content s 40"
proof -
  obtain s where s: "in_transaction s [40]" "disksize s = 1000" "memdisk s 40 = replicate BSIZE 0" "content s 40 = replicate BSIZE 7"
    using demo_transaction by blast
  then have home: "40 \<notin> log_block s ` {..29}" by (auto simp: in_transaction_def logged_def)
  obtain s' where s': "commit s [] = Ret () s' []"
    and at: "\<And>k. \<exists>r. reboot 1000 (apply_writes (take k (drop (length (d_writes s)) (d_writes s'))) (memdisk s)) = Ret () r [] \<and>
      memdisk r 40 = (if k \<le> 1 then memdisk s 40 else content s 40)"
    using log_crash_atomic [OF s(1), of "[]"] s(2) home crashes.no_crash by fastforce
  show ?thesis using s s' at [of 1] at [of 2] by (auto simp: BSIZE_def)
qed

end
