(* ===== verification/Tx.thy ===== *)
theory Tx
  imports Inode Crash
begin

text \<open>
  What the inode layer does to the disk inside a transaction: the contract of \<^verbatim>\<open>bread\<close>, \<^verbatim>\<open>log_write\<close> and
  \<^verbatim>\<open>brelse\<close> (\<open>block_access\<close>) for a process that is between \<^verbatim>\<open>begin_op\<close> and \<^verbatim>\<open>end_op\<close>, and on it the
  block allocator. \<open>tx H s bs\<close>: the process has locked the buffers in \<open>H\<close> and the blocks \<open>bs\<close> are in
  the log; \<open>tstep H s C bs s'\<close>: the process has come from \<open>s\<close> to \<open>s'\<close>, where readers now see \<open>C\<close>, and
  nothing but the cache and the log has changed.
\<close>

section \<open>Access to a block\<close>

definition tx :: "nat set \<Rightarrow> fsys \<Rightarrow> uint32 list \<Rightarrow> bool" where
  "tx H s bs \<longleftrightarrow> cinv H s \<and> log_geo s \<and> logged s bs \<and> dirty_blocks s = set bs \<and> length (lh_block (lg s)) = 30 \<and> \<not> log_lk s \<and>
     1 \<le> l_outstanding (lg s) \<and> l_size (lg s) = 30"

definition same :: "fsys \<Rightarrow> fsys \<Rightarrow> bool" where
  "same s s' \<longleftrightarrow> inodes s' = inodes s \<and> sb s' = sb s \<and> disksize s' = disksize s \<and> my_pid s' = my_pid s \<and> my_cwd s' = my_cwd s \<and>
     icache_lk s' = icache_lk s \<and> log_block s' = log_block s \<and> memdisk s' = memdisk s"

definition held_same :: "nat set \<Rightarrow> fsys \<Rightarrow> fsys \<Rightarrow> bool" where
  "held_same H s s' \<longleftrightarrow> (\<forall>j\<in>H. b_blockno (bufs s' ! j) = b_blockno (bufs s ! j) \<and> b_data (bufs s' ! j) = b_data (bufs s ! j) \<and>
     is_dirty (bufs s' ! j) = is_dirty (bufs s ! j))"

definition tstep :: "nat set \<Rightarrow> fsys \<Rightarrow> (uint32 \<Rightarrow> bytes) \<Rightarrow> uint32 list \<Rightarrow> fsys \<Rightarrow> bool" where
  "tstep H s C bs s' \<longleftrightarrow> tx H s' bs \<and> content s' = C \<and> same s s' \<and> held_same H s s'"

lemma cache_view:
  assumes "bufs t = bufs s" "memdisk t = memdisk s" "disksize t = disksize s" "bcache_lk t = bcache_lk s" "my_pid t = my_pid s"
  shows "cinv H t = cinv H s" "content t = content s" "dirty_blocks t = dirty_blocks s"
proof -
  have "ring t = ring s"
    using assms by (auto simp: ring_def nxt_def [abs_def] prv_def [abs_def] fun_eq_iff)
  then show "cinv H t = cinv H s"
    using assms by (simp add: cinv_def cache_inv_def unique_bufs_def held_buf_def free_buf_def)
  show "content t = content s" "dirty_blocks t = dirty_blocks s"
    using assms by (simp_all add: fun_eq_iff content_def dirty_blocks_def split: option.split)
qed

lemma tx_view:
  assumes "bufs t = bufs s" "memdisk t = memdisk s" "disksize t = disksize s" "bcache_lk t = bcache_lk s" "my_pid t = my_pid s"
    "lg t = lg s" "log_lk t = log_lk s"
  shows "tx H t bs = tx H s bs"
proof -
  have "log_block t = log_block s" "log_dev t = log_dev s" "home_block t = home_block s"
    using assms by (simp_all add: fun_eq_iff log_block_def log_dev_def home_block_def)
  then show ?thesis using assms cache_view [OF assms(1-5)] by (simp add: tx_def log_geo_def logged_def)
qed

lemma inode_view [simp]:
  "cinv H (s\<lparr>inodes := x\<rparr>) = cinv H s" "content (s\<lparr>inodes := x\<rparr>) = content s" "dirty_blocks (s\<lparr>inodes := x\<rparr>) = dirty_blocks s"
  "tx H (s\<lparr>inodes := x\<rparr>) bs = tx H s bs" "tx H (s\<lparr>icache_lk := l\<rparr>) bs = tx H s bs" "content (s\<lparr>icache_lk := l\<rparr>) = content s"
  "cinv H (s\<lparr>sb := y\<rparr>) = cinv H s" "content (s\<lparr>sb := y\<rparr>) = content s" "dirty_blocks (s\<lparr>sb := y\<rparr>) = dirty_blocks s"
  "log_block (s\<lparr>inodes := x\<rparr>) = log_block s" "log_block (s\<lparr>icache_lk := l\<rparr>) = log_block s"
  by (rule cache_view tx_view; simp; fail)+ (simp_all add: fun_eq_iff log_block_def)

lemma same_refl [simp]: "same s s" "held_same H s s"
  by (simp_all add: same_def held_same_def)

lemma same_trans: "same s t \<Longrightarrow> same t u \<Longrightarrow> same s u"
  by (simp add: same_def)

lemma held_same_trans: "held_same H s t \<Longrightarrow> held_same H t u \<Longrightarrow> held_same H s u"
  by (simp add: held_same_def)

lemma tstep_refl: "tx H s bs \<Longrightarrow> tstep H s (content s) bs s"
  by (simp add: tstep_def)

lemma tstep_trans: "tstep H s C bs t \<Longrightarrow> tstep H t D cs u \<Longrightarrow> tstep H s D cs u"
  by (auto simp: tstep_def intro: same_trans held_same_trans)

lemma same_rest: "rest t = rest s \<Longrightarrow> memdisk t = memdisk s \<Longrightarrow> same s t"
  using rest_fields [of t s] log_rest(1) [of t s] by (simp add: same_def)

lemma tx_rest:
  assumes "tx H s bs" "rest t = rest s" "cinv H' t" "dirty_blocks t = dirty_blocks s"
  shows "tx H' t bs"
  using assms(1,3,4) rest_fields [OF assms(2)] logged_rest [OF assms(2)] by (simp add: tx_def)

lemma tx_length: "tx H s bs \<Longrightarrow> card (dirty_blocks s) = length bs"
  by (simp add: tx_def logged_def distinct_card)

lemma tx_bread:
  assumes t: "tx H s bs" and b: "b < disksize s" "\<forall>j\<in>H. b_blockno (bufs s ! j) \<noteq> b" "b \<in> set bs \<or> length bs + card H < NBUF"
  shows "\<exists>i s1. (\<forall>sch. bread 1 b s sch = Ret i s1 sch) \<and> i \<notin> H \<and>
    tx (insert i H) s1 bs \<and> content s1 = content s \<and> same s s1 \<and> held_same H s s1 \<and> b_blockno (bufs s1 ! i) = b \<and>
    b_data (bufs s1 ! i) = content s b \<and> (is_dirty (bufs s1 ! i) \<or> content s b = memdisk s1 b)"
proof -
  have c: "cinv H s" "dirty_blocks s = set bs" using t by (simp_all add: tx_def)
  have "b \<in> dirty_blocks s \<or> card (dirty_blocks s) + card H < NBUF" using b(3) c(2) tx_length [OF t] by auto
  from bread_ex [OF c(1) b(1,2) this] obtain i s1 where
    r: "\<forall>sch. bread 1 b s sch = Ret i s1 sch" and p: "bread_post H s b i s1" by blast
  have "tx (insert i H) s1 bs" using p by (intro tx_rest [OF t]) (simp_all add: bread_post_def)
  moreover have "same s s1" using p by (intro same_rest) (simp_all add: bread_post_def)
  moreover have "held_same H s s1" using p by (simp add: bread_post_def held_same_def)
  ultimately show ?thesis using r p by (intro exI [of _ i] exI [of _ s1]) (auto simp: bread_post_def)
qed

lemma tx_brelse:
  assumes t: "tx (insert i H) s bs" and i: "i \<notin> H" "is_dirty (bufs s ! i) \<or> b_data (bufs s ! i) = memdisk s (b_blockno (bufs s ! i))"
  shows "\<exists>s'. (\<forall>sch. brelse i s sch = Ret () s' sch) \<and> tstep H s (content s) bs s'"
proof -
  have c: "cinv (insert i H) s" using t by (simp add: tx_def)
  from brelse_ex [OF c _ i(2)] obtain s' where
    r: "\<forall>sch. brelse i s sch = Ret () s' sch" and p: "brelse_post (insert i H) s i s'" by blast
  have H: "insert i H - {i} = H" using i(1) by simp
  have "tx H s' bs" using p H by (intro tx_rest [OF t]) (simp_all add: brelse_post_def)
  moreover have "same s s'" using p by (intro same_rest) (simp_all add: brelse_post_def)
  moreover have "held_same H s s'" using p H by (simp add: brelse_post_def held_same_def)
  ultimately show ?thesis using r p by (intro exI [of _ s']) (simp add: tstep_def brelse_post_def)
qed

lemma tx_modify:
  assumes t: "tx H s bs" and i: "i \<in> H" "b_blockno (bufs s ! i) = b" "length (f (b_data (bufs s ! i))) = BSIZE"
    and l: "length bs < 29" "\<forall>k\<le>29. b \<noteq> log_block s k"
  shows "\<exists>s1 s2. (\<forall>sch. set_data i f s sch = Ret () s1 sch) \<and> (\<forall>sch. log_write i s1 sch = Ret () s2 sch) \<and>
    tx H s2 (log_add b bs) \<and> content s2 = (content s)(b := f (b_data (bufs s ! i))) \<and> same s s2 \<and> held_same (H - {i}) s s2 \<and>
    is_dirty (bufs s2 ! i) \<and> b_blockno (bufs s2 ! i) = b \<and> b_data (bufs s2 ! i) = f (b_data (bufs s ! i))"
proof -
  let ?d = "f (b_data (bufs s ! i))" and ?s1 = "buf_upd i (b_data_update f) s"
  have c: "cinv H s" using t by (simp add: tx_def)
  have e: "?s1 = buf_upd i (b_data_update (\<lambda>_. ?d)) s" by (rule buf_upd_cong) simp
  note bm = bmodify_spec [OF c i(1,3), of b, folded e]
  have i': "i < length (bufs s)" using cinv_held [OF c i(1)] cinv_table [OF c] by simp
  have t1: "tx H ?s1 bs" using bm i(2) by (intro tx_rest [OF t]) auto
  then have pre: "cinv H ?s1" "logged ?s1 bs" "length (lh_block (lg ?s1)) = 30" "\<not> log_lk ?s1" "1 \<le> l_outstanding (lg ?s1)" "l_size (lg ?s1) = 30"
    by (simp_all add: tx_def)
  have lb: "log_block ?s1 = log_block s" using log_rest(1) [of ?s1 s] by simp
  have "\<exists>s'. (\<forall>sch. log_write i ?s1 sch = Ret () s' sch) \<and> log_write_post H ?s1 b bs i s'"
    using i l pre i' lb by (intro log_write_spec) (simp_all add: fun_eq_iff)
  then obtain s2 where r: "\<forall>sch. log_write i ?s1 sch = Ret () s2 sch" and p: "log_write_post H ?s1 b bs i s2" by blast
  have q: "rest s2 = rest (?s1\<lparr>lg := lg s2\<rparr>)" "lg s2 = (lg ?s1)\<lparr>lh_n := int (length (log_add b bs)), lh_block := lh_block (lg s2)\<rparr>"
    using p by (simp_all add: log_write_post_def)
  note rf = rest_fields [OF q(1)]
  have q2: "l_dev (lg s2) = l_dev (lg s)" "l_start (lg s2) = l_start (lg s)" "l_outstanding (lg s2) = l_outstanding (lg s)" "l_size (lg s2) = l_size (lg s)"
    using arg_cong [OF q(2), of l_dev] arg_cong [OF q(2), of l_start] arg_cong [OF q(2), of l_outstanding] arg_cong [OF q(2), of l_size] by simp_all
  have lb2: "log_block s2 = log_block s" "log_dev s2 = log_dev s" using q2 by (simp_all add: fun_eq_iff log_block_def log_dev_def)
  have "tx H s2 (log_add b bs)"
    using p t rf lb2 q2 bm(3) i(2) by (auto simp: tx_def log_write_post_def log_geo_def log_add_def)
  moreover have "same s s2" using rf p lb2 by (simp add: same_def log_write_post_def)
  moreover have "held_same (H - {i}) s s2" using p by (auto simp: held_same_def log_write_post_def)
  moreover have "content s2 = (content s)(b := ?d)" using p bm(2) i(2) by (simp add: log_write_post_def)
  ultimately show ?thesis
    using r p i' by (intro exI [of _ ?s1] exI [of _ s2]) (simp add: set_data_def log_write_post_def)
qed


text \<open>The three ways to use a block: read it and give it back; change it, log it and give it back.
  \<open>access H s bs b i s1\<close>: buffer \<open>i\<close> has just been read for block \<open>b\<close>.\<close>

definition access :: "nat set \<Rightarrow> fsys \<Rightarrow> uint32 list \<Rightarrow> uint32 \<Rightarrow> nat \<Rightarrow> fsys \<Rightarrow> bool" where
  "access H s bs b i s1 \<longleftrightarrow> i \<notin> H \<and> tx (insert i H) s1 bs \<and> content s1 = content s \<and> same s s1 \<and> held_same H s s1 \<and>
     b_blockno (bufs s1 ! i) = b \<and> b_data (bufs s1 ! i) = content s b \<and> (is_dirty (bufs s1 ! i) \<or> content s b = memdisk s1 b)"

lemma bread_access:
  assumes "tx H s bs" "b < disksize s" "\<forall>j\<in>H. b_blockno (bufs s ! j) \<noteq> b" "b \<in> set bs \<or> length bs + card H < NBUF"
  shows "\<exists>i s1. (\<forall>sch. bread 1 b s sch = Ret i s1 sch) \<and> access H s bs b i s1"
  using tx_bread [OF assms] by (auto simp: access_def)

lemma access_data: "access H s bs b i s1 \<Longrightarrow> get_data i s1 sch = Ret (content s b) s1 sch"
  by (simp add: access_def get_data_def)

lemma access_release:
  assumes a: "access H s bs b i s1"
  shows "\<exists>s2. (\<forall>sch. brelse i s1 sch = Ret () s2 sch) \<and> tstep H s (content s) bs s2"
proof -
  obtain s2 where r: "\<forall>sch. brelse i s1 sch = Ret () s2 sch" and t: "tstep H s1 (content s1) bs s2"
    using tx_brelse [of i H s1 bs] a by (auto simp: access_def)
  have "tstep H s (content s) bs s2"
    using t a by (auto simp: access_def tstep_def intro: same_trans held_same_trans)
  then show ?thesis using r by blast
qed

definition modified :: "nat set \<Rightarrow> fsys \<Rightarrow> uint32 list \<Rightarrow> uint32 \<Rightarrow> (bytes \<Rightarrow> bytes) \<Rightarrow> nat \<Rightarrow> fsys \<Rightarrow> bool" where
  "modified H s bs b f i s1 \<longleftrightarrow> (\<exists>t1 t2 t3. (\<forall>sch. set_data i f s1 sch = Ret () t1 sch) \<and> (\<forall>sch. log_write i t1 sch = Ret () t2 sch) \<and>
     (\<forall>sch. brelse i t2 sch = Ret () t3 sch) \<and> tstep H s ((content s)(b := f (content s b))) (log_add b bs) t3)"

lemma access_modify:
  assumes a: "access H s bs b i s1" and f: "length (f (content s b)) = BSIZE" and l: "length bs < 29" "\<forall>k\<le>29. b \<noteq> log_block s k"
  shows "modified H s bs b f i s1"
proof -
  have a': "i \<notin> H" "tx (insert i H) s1 bs" "content s1 = content s" "same s s1" "held_same H s s1" "b_blockno (bufs s1 ! i) = b" "b_data (bufs s1 ! i) = content s b"
    using a by (simp_all add: access_def)
  have "log_block s1 = log_block s" using a'(4) by (simp add: same_def)
  then obtain t1 t2 where t: "\<forall>sch. set_data i f s1 sch = Ret () t1 sch" "\<forall>sch. log_write i t1 sch = Ret () t2 sch"
    "tx (insert i H) t2 (log_add b bs)" "content t2 = (content s)(b := f (content s b))" "same s1 t2" "held_same (insert i H - {i}) s1 t2"
    "is_dirty (bufs t2 ! i)"
    using tx_modify [OF a'(2), of i b f] a' f l by auto
  obtain t3 where t3: "\<forall>sch. brelse i t2 sch = Ret () t3 sch" "tstep H t2 (content t2) (log_add b bs) t3"
    using tx_brelse [OF t(3) a'(1)] t(7) by blast
  have "held_same H s1 t2" using t(6) a'(1) by simp
  then have "tstep H s ((content s)(b := f (content s b))) (log_add b bs) t3"
    using t3(2) t(4,5) a'(4,5) by (auto simp: tstep_def intro: same_trans held_same_trans)
  then show ?thesis unfolding modified_def using t(1,2) t3(1) by blast
qed

lemma tx_access:
  assumes "tx H s bs" "b < disksize s" "\<forall>j\<in>H. b_blockno (bufs s ! j) \<noteq> b" "b \<in> set bs \<or> length bs + card H < NBUF"
  obtains i s1 s2 where "\<And>sch. bread 1 b s sch = Ret i s1 sch" "\<And>sch. get_data i s1 sch = Ret (content s b) s1 sch"
    "\<And>sch. brelse i s1 sch = Ret () s2 sch" "tstep H s (content s) bs s2" "access H s bs b i s1"
proof -
  obtain i s1 where r: "\<forall>sch. bread 1 b s sch = Ret i s1 sch" and a: "access H s bs b i s1"
    using bread_access [OF assms] by blast
  obtain s2 where "\<forall>sch. brelse i s1 sch = Ret () s2 sch" "tstep H s (content s) bs s2"
    using access_release [OF a] by blast
  then show ?thesis using that r a access_data [OF a] by blast
qed

lemma set_log_add [simp]: "set (log_add b bs) = insert b (set bs)"
  by (auto simp: log_add_def)

lemma length_log_add: "length (log_add b bs) \<le> Suc (length bs)"
  by (auto simp: log_add_def)

text \<open>Reading a block and writing it back changed.\<close>

lemma rewrite_block:
  assumes t: "tx H s bs" "b < disksize s" "\<forall>j\<in>H. b_blockno (bufs s ! j) \<noteq> b" and l: "length bs < 29" "length bs + card H < NBUF" "\<forall>k\<le>29. b \<noteq> log_block s k"
    and f: "length (f (content s b)) = BSIZE"
  shows "\<exists>i s1 t1 t2 t3. (\<forall>sch. bread 1 b s sch = Ret i s1 sch) \<and> (\<forall>sch. get_data i s1 sch = Ret (content s b) s1 sch) \<and> same s s1 \<and>
    (\<forall>sch. set_data i f s1 sch = Ret () t1 sch) \<and> (\<forall>sch. log_write i t1 sch = Ret () t2 sch) \<and> (\<forall>sch. brelse i t2 sch = Ret () t3 sch) \<and>
    tstep H s ((content s)(b := f (content s b))) (log_add b bs) t3"
proof -
  obtain i s1 where r: "\<forall>sch. bread 1 b s sch = Ret i s1 sch" and a: "access H s bs b i s1"
    using bread_access [OF t] l(2) by blast
  have "modified H s bs b f i s1" by (rule access_modify [of H s bs b i s1 f, OF a f l(1,3)])
  moreover have "same s s1" using a by (simp add: access_def)
  ultimately show ?thesis using r access_data [OF a] unfolding modified_def by blast
qed

lemma bzero_spec:
  assumes t: "tx H s bs" "b < disksize s" "\<forall>j\<in>H. b_blockno (bufs s ! j) \<noteq> b" and l: "length bs < 29" "length bs + card H < NBUF" "\<forall>k\<le>29. b \<noteq> log_block s k"
  shows "\<exists>s'. (\<forall>sch. bzero 1 b s sch = Ret () s' sch) \<and> tstep H s ((content s)(b := replicate BSIZE 0)) (log_add b bs) s'"
  using rewrite_block [OF t l, of "\<lambda>_. replicate BSIZE 0"] by (auto simp: bzero_def)


section \<open>The block allocator\<close>

text \<open>Block \<open>b\<close> is marked in the bit map of content \<open>C\<close>. The blocks that are not for data: the boot
  block, the super block, the log, the inodes and the bit map. In a sound file system they are all marked, and everything that the
  super block describes is on the disk.\<close>

definition used :: "(uint32 \<Rightarrow> bytes) \<Rightarrow> superblock \<Rightarrow> nat \<Rightarrow> bool" where
  "used C sp b \<longleftrightarrow> \<not> bit_clear (C (BBLOCK (of_nat b) sp)) (b mod BPB)"

definition meta :: "fsys \<Rightarrow> uint32 set" where
  "meta s = {0, 1} \<union> log_block s ` {..29} \<union> (\<lambda>b. BBLOCK (of_nat b) (sb s)) ` {..<unat (sb_size (sb s))} \<union>
     (\<lambda>i. IBLOCK i (sb s)) ` {i. i < sb_ninodes (sb s)}"

definition fs_geo :: "fsys \<Rightarrow> bool" where
  "fs_geo s \<longleftrightarrow> sb_size (sb s) \<le> disksize s \<and> (\<forall>b\<in>meta s. b < disksize s) \<and>
     (\<forall>b<unat (sb_size (sb s)). \<forall>k\<le>29. BBLOCK (of_nat b) (sb s) \<noteq> log_block s k) \<and>
     (\<forall>i < sb_ninodes (sb s). \<forall>k\<le>29. IBLOCK i (sb s) \<noteq> log_block s k) \<and>
     (\<forall>b<unat (sb_size (sb s)). \<forall>i < sb_ninodes (sb s). BBLOCK (of_nat b) (sb s) \<noteq> IBLOCK i (sb s))"

definition meta_used :: "fsys \<Rightarrow> bool" where
  "meta_used s \<longleftrightarrow> (\<forall>b<unat (sb_size (sb s)). \<not> used (content s) (sb s) b \<longrightarrow> of_nat b \<notin> meta s)"

lemma same_meta: "same s t \<Longrightarrow> meta t = meta s" "same s t \<Longrightarrow> fs_geo t = fs_geo s"
  by (simp_all add: same_def meta_def fs_geo_def)

lemma bmap_block:
  assumes "b < unat (sb_size (sb s))"
  shows "BBLOCK (of_nat b) (sb s) \<in> meta s"
  using assms by (auto simp: meta_def)

text \<open>Different blocks of the map hold the bits of different groups of \<^verbatim>\<open>BPB\<close> blocks.\<close>

lemma BBLOCK_group:
  assumes "b < 2 ^ 32"
  shows "BBLOCK (of_nat b) sp = of_nat (b div BPB) + sb_bmapstart sp"
proof -
  have "(of_nat b :: uint32) div 4096 = of_nat (b div 4096)"
  proof -
    have "b div 4096 < 2 ^ 32" using assms by (auto intro: le_less_trans [OF div_le_dividend])
    then show ?thesis using assms unfolding word_unat_eq_iff unat_div by (simp add: unat_of_nat_word)
  qed
  then show ?thesis by (simp add: BBLOCK_def)
qed


lemma BBLOCK_same:
  assumes "b < 2 ^ 32" "c < 2 ^ 32" "BBLOCK (of_nat b) sp = BBLOCK (of_nat c) sp"
  shows "b div BPB = c div BPB"
proof -
  have "(of_nat (b div BPB) :: uint32) = of_nat (c div BPB)" using assms by (simp add: BBLOCK_group)
  moreover have "b div BPB < 2 ^ 32" "c div BPB < 2 ^ 32" using assms(1,2) by (auto intro: le_less_trans [OF div_le_dividend])
  ultimately show ?thesis by (metis unat_of_nat_word)
qed

lemma bit_clear_iff: "bit_clear d bi \<longleftrightarrow> \<not> bit (d ! (bi div 8)) (bi mod 8)"
  using and_exp_eq_0_iff_not_bit [of "d ! (bi div 8)" "bi mod 8"] by (simp add: bit_clear_def bit_mask_def push_bit_of_1)

lemma bit_mask_iff: "bit (bit_mask bi) j \<longleftrightarrow> j = bi mod 8"
  by (auto simp: bit_mask_def push_bit_of_1 bit_exp_iff possible_bit_def)

definition set_bit_of :: "nat \<Rightarrow> bytes \<Rightarrow> bytes" where
  "set_bit_of bi d = d[bi div 8 := d ! (bi div 8) OR bit_mask bi]"

definition clear_bit_of :: "nat \<Rightarrow> bytes \<Rightarrow> bytes" where
  "clear_bit_of bi d = d[bi div 8 := d ! (bi div 8) AND NOT (bit_mask bi)]"

lemma same_bit: "bi div 8 = bj div 8 \<Longrightarrow> bi mod 8 = bj mod 8 \<longleftrightarrow> bi = (bj :: nat)"
  by (metis div_mult_mod_eq)

lemma length_bits [simp]: "length (set_bit_of bi d) = length d" "length (clear_bit_of bi d) = length d"
  by (simp_all add: set_bit_of_def clear_bit_of_def)

lemma bits_after:
  assumes "bi < BPB" "length d = 512"
  shows "bit_clear (set_bit_of bi d) bj \<longleftrightarrow> bj \<noteq> bi \<and> bit_clear d bj" "bit_clear (clear_bit_of bi d) bj \<longleftrightarrow> bj = bi \<or> bit_clear d bj"
proof -
  have b: "bi div 8 < length d" using assms by simp
  have m: "bi mod 8 < 8" "bj mod 8 < 8" by simp_all
  show "bit_clear (set_bit_of bi d) bj \<longleftrightarrow> bj \<noteq> bi \<and> bit_clear d bj"
    using b same_bit [of bi bj] by (cases "bi div 8 = bj div 8") (auto simp: set_bit_of_def bit_clear_iff bit_or_iff bit_mask_iff)
  show "bit_clear (clear_bit_of bi d) bj \<longleftrightarrow> bj = bi \<or> bit_clear d bj"
    using b m same_bit [of bi bj] by (cases "bi div 8 = bj div 8")
      (auto simp: clear_bit_of_def bit_clear_iff bit_and_iff bit_not_iff bit_mask_iff possible_bit_def)
qed

lemma clear_set_bit: "bi < BPB \<Longrightarrow> length d = 512 \<Longrightarrow> bit_clear d bi \<Longrightarrow> clear_bit_of bi (set_bit_of bi d) = d"
proof -
  assume a: "bi < BPB" "length d = 512" "bit_clear d bi"
  have "(d ! (bi div 8) OR bit_mask bi) AND NOT (bit_mask bi) = d ! (bi div 8)"
    using a(3) by (intro bit_word_eqI) (auto simp: bit_clear_iff bit_and_iff bit_or_iff bit_not_iff bit_mask_iff possible_bit_def)
  then show ?thesis using a(1,2) by (simp add: set_bit_of_def clear_bit_of_def)
qed

text \<open>The map after a bit of it has been set or cleared.\<close>

lemma used_after:
  assumes "b < 2 ^ 32" "c < 2 ^ 32" "length (C (BBLOCK (of_nat b) sp)) = 512"
  shows "used (C(BBLOCK (of_nat b) sp := set_bit_of (b mod BPB) (C (BBLOCK (of_nat b) sp)))) sp c \<longleftrightarrow> c = b \<or> used C sp c"
    "used (C(BBLOCK (of_nat b) sp := clear_bit_of (b mod BPB) (C (BBLOCK (of_nat b) sp)))) sp c \<longleftrightarrow> c \<noteq> b \<and> used C sp c"
proof -
  have e: "c = b \<longleftrightarrow> c div BPB = b div BPB \<and> c mod BPB = b mod BPB" by (metis div_mult_mod_eq)
  note g = BBLOCK_same [OF assms(2,1), of sp] BBLOCK_group [OF assms(1), of sp] BBLOCK_group [OF assms(2), of sp]
  have m: "b mod BPB < BPB" by simp
  show "used (C(BBLOCK (of_nat b) sp := set_bit_of (b mod BPB) (C (BBLOCK (of_nat b) sp)))) sp c \<longleftrightarrow> c = b \<or> used C sp c"
    using g e bits_after(1) [OF m assms(3), of "c mod BPB"] by (auto simp: used_def)
  show "used (C(BBLOCK (of_nat b) sp := clear_bit_of (b mod BPB) (C (BBLOCK (of_nat b) sp)))) sp c \<longleftrightarrow> c \<noteq> b \<and> used C sp c"
    using g e bits_after(2) [OF m assms(3), of "c mod BPB"] by (auto simp: used_def)
qed


text \<open>The state in which \<^verbatim>\<open>balloc\<close> succeeds: there is room in the log for two more blocks, a free block,
  and the locked buffers are for blocks in use.\<close>

definition nblk :: "fsys \<Rightarrow> nat" where
  "nblk s = unat (sb_size (sb s))"

definition alloc_ready :: "nat set \<Rightarrow> fsys \<Rightarrow> uint32 list \<Rightarrow> bool" where
  "alloc_ready H s bs \<longleftrightarrow> tx H s bs \<and> fs_geo s \<and> meta_used s \<and> length bs < 28 \<and> card H \<le> 1 \<and> (\<exists>b<nblk s. \<not> used (content s) (sb s) b) \<and>
     (\<forall>j\<in>H. b_blockno (bufs s ! j) \<notin> meta s \<and> used (content s) (sb s) (unat (b_blockno (bufs s ! j))))"

definition alloc_content :: "(uint32 \<Rightarrow> bytes) \<Rightarrow> superblock \<Rightarrow> nat \<Rightarrow> uint32 \<Rightarrow> bytes" where
  "alloc_content C sp b =
     C(BBLOCK (of_nat b) sp := set_bit_of (b mod BPB) (C (BBLOCK (of_nat b) sp)), of_nat b := replicate BSIZE 0)"

lemma alloc_ready_step:
  assumes "alloc_ready H s bs" "tstep H s (content s) bs t"
  shows "alloc_ready H t bs"
proof -
  have e: "same s t" "content t = content s" "held_same H s t" "tx H t bs" using assms(2) by (simp_all add: tstep_def)
  then have "sb t = sb s" by (simp add: same_def)
  then show ?thesis using assms(1) e same_meta [OF e(1)] by (simp add: alloc_ready_def meta_used_def nblk_def held_same_def)
qed

lemma nblk_lt: "nblk s < 2 ^ 32"
  using unat_lt [of "sb_size (sb s)"] by (simp add: nblk_def)

lemma block_on_disk:
  assumes "fs_geo s" "b < nblk s"
  shows "of_nat b < disksize s"
proof -
  have "unat (of_nat b :: uint32) = b" using assms(2) nblk_lt [of s] by (intro unat_of_nat_word) simp
  then show ?thesis using assms by (simp add: fs_geo_def nblk_def word_less_nat_alt word_le_nat_alt)
qed

lemma tx_len: "tx H s bs \<Longrightarrow> length (content s b) = BSIZE"
proof (cases "find_idx (\<lambda>c. b_dev c = 1 \<and> b_blockno c = b \<and> is_valid c) (take NBUF (bufs s))")
  case None
  moreover assume "tx H s bs"
  ultimately show ?thesis by (simp add: content_def tx_def cinv_def)
next
  case (Some i)
  moreover assume t: "tx H s bs"
  moreover have "i < NBUF" using find_idx_SomeD [OF Some] by simp
  then have "length (b_data (bufs s ! i)) = BSIZE"
    using t by (cases "i \<in> H") (auto simp: tx_def cinv_def held_buf_def free_buf_def)
  ultimately show ?thesis by (simp add: content_def)
qed

lemma log_in_meta: "b \<notin> meta s \<Longrightarrow> k \<le> 29 \<Longrightarrow> b \<noteq> log_block s k"
  by (auto simp: meta_def)

text \<open>The block that the search finds.\<close>

lemma balloc_found:
  assumes r: "alloc_ready H s bs" and b: "b < nblk s" "\<not> used (content s) (sb s) b"
    and g: "b = q + bi" "bi < BPB" "q mod BPB = 0" "find (bit_clear (content s (BBLOCK (of_nat q) (sb s)))) [0..<min BPB (nblk s - q)] = Some bi"
  shows "\<exists>s'. (\<forall>sch. balloc_loop 1 (q # gs) s sch = Ret (of_nat b) s' sch) \<and>
    tstep H s (alloc_content (content s) (sb s) b) (log_add (of_nat b) (log_add (BBLOCK (of_nat b) (sb s)) bs)) s'"
proof -
  let ?bm = "BBLOCK (of_nat b) (sb s)" and ?C = "content s"
  have t: "tx H s bs" and geo: "fs_geo s" and mu: "meta_used s" and l: "length bs < 28" "card H \<le> 1"
    and H: "\<forall>j\<in>H. b_blockno (bufs s ! j) \<notin> meta s \<and> used ?C (sb s) (unat (b_blockno (bufs s ! j)))"
    using r by (simp_all add: alloc_ready_def)
  have b32: "b < 2 ^ 32" "q < 2 ^ 32" using b(1) nblk_lt [of s] g(1) by simp_all
  obtain g where q: "q = g * BPB" using g(3) by (metis div_mult_mod_eq add_0_right)
  have bmg: "BBLOCK (of_nat q) (sb s) = ?bm" using g(1-3) BBLOCK_group [OF b32(1)] BBLOCK_group [OF b32(2)] q by simp
  have bim: "b mod BPB = bi" using g(1,2) q by simp
  have bmm: "?bm \<in> meta s" using b(1) by (intro bmap_block) (simp add: nblk_def)
  have bm: "?bm < disksize s" "\<forall>j\<in>H. b_blockno (bufs s ! j) \<noteq> ?bm" "\<forall>k\<le>29. ?bm \<noteq> log_block s k"
    using geo bmm H b(1) by (auto simp: fs_geo_def nblk_def)
  have l2: "length bs < 29" "length bs + card H < NBUF" using l by (simp_all add: NBUF_def)
  obtain i s1 t1 t2 t3 where m:
    "\<And>sch. bread 1 ?bm s sch = Ret i s1 sch" "\<And>sch. get_data i s1 sch = Ret (?C ?bm) s1 sch" "same s s1"
    "\<And>sch. set_data i (set_bit_of bi) s1 sch = Ret () t1 sch" "\<And>sch. log_write i t1 sch = Ret () t2 sch" "\<And>sch. brelse i t2 sch = Ret () t3 sch"
    "tstep H s (?C(?bm := set_bit_of bi (?C ?bm))) (log_add ?bm bs) t3"
    using rewrite_block [OF t bm(1,2) l2 bm(3), of "set_bit_of bi"] tx_len [OF t, of ?bm] by auto
  have e: "same s t3" "tx H t3 (log_add ?bm bs)" "content t3 = ?C(?bm := set_bit_of bi (?C ?bm))" "held_same H s t3" using m(7) by (simp_all add: tstep_def)
  have bnm: "of_nat b \<notin> meta s" using mu b by (simp add: meta_used_def nblk_def)
  have ub: "unat (of_nat b :: uint32) = b" by (rule unat_of_nat_word [OF b32(1)])
  have z1: "of_nat b < disksize t3" using block_on_disk [OF geo b(1)] e(1) by (simp add: same_def)
  have z2: "\<forall>j\<in>H. b_blockno (bufs t3 ! j) \<noteq> of_nat b" using H e(4) b(2) ub unfolding held_same_def by metis
  have z3: "length (log_add ?bm bs) < 29" "length (log_add ?bm bs) + card H < NBUF" using l length_log_add [of ?bm bs] by (simp_all add: NBUF_def)
  have z4: "\<forall>k\<le>29. of_nat b \<noteq> log_block t3 k" using log_in_meta [OF bnm] e(1) by (simp add: same_def)
  obtain s' where s': "\<And>sch. bzero 1 (of_nat b) t3 sch = Ret () s' sch"
    "tstep H t3 ((content t3)(of_nat b := replicate BSIZE 0)) (log_add (of_nat b) (log_add ?bm bs)) s'"
    using bzero_spec [OF e(2) z1 z2 z3 z4] by blast
  have "balloc_loop 1 (q # gs) s sch = Ret (of_nat b) s' sch" for sch
    using m s'(1) g(4) unfolding set_bit_of_def [abs_def] nblk_def by (simp add: bmg g(1) [symmetric] del: of_nat_add)
  moreover have "tstep H s (alloc_content ?C (sb s) b) (log_add (of_nat b) (log_add ?bm bs)) s'"
    using tstep_trans [OF m(7) s'(2)] by (simp add: e(3) alloc_content_def bim)
  ultimately show ?thesis by blast
qed


definition allocated :: "nat set \<Rightarrow> fsys \<Rightarrow> uint32 list \<Rightarrow> nat \<Rightarrow> fsys \<Rightarrow> bool" where
  "allocated H s bs b s' \<longleftrightarrow> b < nblk s \<and> \<not> used (content s) (sb s) b \<and>
     tstep H s (alloc_content (content s) (sb s) b) (log_add (of_nat b) (log_add (BBLOCK (of_nat b) (sb s)) bs)) s'"

lemma group_bit:
  assumes "q + bi < 2 ^ 32" "q mod BPB = 0" "bi < BPB"
  shows "used C sp (q + bi) \<longleftrightarrow> \<not> bit_clear (C (BBLOCK (of_nat q) sp)) bi"
proof -
  obtain g where q: "q = g * BPB" using assms(2) by (metis div_mult_mod_eq add_0_right)
  have "BBLOCK (of_nat (q + bi)) sp = BBLOCK (of_nat q) sp"
    using assms(3) BBLOCK_group [OF assms(1), of sp] BBLOCK_group [of q sp] assms(1) q by simp
  then show ?thesis using q assms(3) by (simp add: used_def del: of_nat_add)
qed

lemma balloc_loop_spec:
  assumes "alloc_ready H s bs" "\<forall>c<g * BPB. c < nblk s \<longrightarrow> used (content s) (sb s) c" "K = g + n" "nblk s \<le> K * BPB"
  shows "\<exists>b s'. (\<forall>sch. balloc_loop 1 (map (\<lambda>k. k * BPB) [g..<K]) s sch = Ret (of_nat b) s' sch) \<and> allocated H s bs b s'"
  using assms
proof (induction n arbitrary: g s)
  case 0
  then show ?case by (auto simp: alloc_ready_def)
next
  case (Suc n)
  let ?q = "g * BPB" and ?C = "content s"
  let ?bm = "BBLOCK (of_nat ?q) (sb s)"
  have q0: "?q mod BPB = 0" by simp
  have upt: "map (\<lambda>k. k * BPB) [g..<K] = ?q # map (\<lambda>k. k * BPB) [Suc g..<K]"
    using Suc.prems(3) by (simp add: upt_conv_Cons del: upt_Suc)
  have qn: "?q < nblk s"
  proof (rule ccontr)
    assume "\<not> ?q < nblk s"
    then show False using Suc.prems(1,2) by (auto simp: alloc_ready_def)
  qed
  have lt: "?q + bi < 2 ^ 32" if "bi < min BPB (nblk s - ?q)" for bi using that nblk_lt [of s] qn by auto
  show ?case
  proof (cases "find (bit_clear (?C ?bm)) [0..<min BPB (nblk s - ?q)]")
    case (Some bi)
    have bi: "bi < min BPB (nblk s - ?q)" "bit_clear (?C ?bm) bi" using find_SomeD [OF Some] by simp_all
    then have u: "\<not> used ?C (sb s) (?q + bi)" using group_bit [OF lt [OF bi(1)] q0, of ?C "sb s"] by simp
    have b: "?q + bi < nblk s" "bi < BPB" using bi(1) qn by auto
    show ?thesis
      using balloc_found [OF Suc.prems(1) b(1) u refl b(2) q0 Some, of "map (\<lambda>k. k * BPB) [Suc g..<K]"] b u
      unfolding upt allocated_def by blast
  next
    case None
    then have none: "\<not> bit_clear (?C ?bm) bi" if "bi < min BPB (nblk s - ?q)" for bi using that by (simp add: find_None_iff)
    have al: "tx H s bs" "fs_geo s" "length bs < 28" "card H \<le> 1" "\<forall>j\<in>H. b_blockno (bufs s ! j) \<notin> meta s"
      using Suc.prems(1) by (simp_all add: alloc_ready_def)
    have bmm: "?bm \<in> meta s" using qn by (intro bmap_block) (simp add: nblk_def)
    then have bd: "?bm < disksize s" "\<forall>j\<in>H. b_blockno (bufs s ! j) \<noteq> ?bm" "?bm \<in> set bs \<or> length bs + card H < NBUF"
      using al by (auto simp: fs_geo_def NBUF_def)
    obtain i s1 s2 where a: "\<And>sch. bread 1 ?bm s sch = Ret i s1 sch" "\<And>sch. get_data i s1 sch = Ret (?C ?bm) s1 sch"
        "\<And>sch. brelse i s1 sch = Ret () s2 sch" "tstep H s ?C bs s2"
      using tx_access [OF al(1) bd] by metis
    have e: "sb s2 = sb s" "content s2 = ?C" using a(4) by (simp_all add: tstep_def same_def)
    have r2: "alloc_ready H s2 bs" by (rule alloc_ready_step [OF Suc.prems(1) a(4)])
    have "used ?C (sb s) c" if "c < Suc g * BPB" "c < nblk s" for c
    proof (cases "c < ?q")
      case False
      then have "c - ?q < min BPB (nblk s - ?q)" "c = ?q + (c - ?q)" using that by auto
      then show ?thesis using group_bit [OF lt q0, of "c - ?q" ?C "sb s"] none by simp
    qed (use Suc.prems(2) that in simp)
    then have "\<exists>b s'. (\<forall>sch. balloc_loop 1 (map (\<lambda>k. k * BPB) [Suc g..<K]) s2 sch = Ret (of_nat b) s' sch) \<and> allocated H s2 bs b s'"
      using Suc.prems(3,4) e by (intro Suc.IH r2) (simp_all add: nblk_def)
    then obtain b s' where b: "\<And>sch. balloc_loop 1 (map (\<lambda>k. k * BPB) [Suc g..<K]) s2 sch = Ret (of_nat b) s' sch" "allocated H s2 bs b s'"
      by blast
    have "balloc_loop 1 (map (\<lambda>k. k * BPB) [g..<K]) s sch = Ret (of_nat b) s' sch" for sch
      using a(1-3) b(1) None unfolding upt nblk_def by (simp del: of_nat_mult)
    moreover have "allocated H s bs b s'" using b(2) tstep_trans [OF a(4)] by (auto simp: allocated_def e nblk_def)
    ultimately show ?thesis by blast
  qed
qed

lemma balloc_spec:
  assumes "alloc_ready H s bs"
  shows "\<exists>b s'. (\<forall>sch. balloc 1 s sch = Ret (of_nat b) s' sch) \<and> allocated H s bs b s'"
proof -
  let ?K = "(nblk s + (BPB - 1)) div BPB"
  have "nblk s \<le> ?K * BPB" 
    using div_mult_mod_eq [of "nblk s + (BPB - 1)" BPB] mod_less_divisor [of BPB "nblk s + (BPB - 1)"] by linarith
  then show ?thesis
    using balloc_loop_spec [OF assms, of 0 ?K ?K] by (simp add: balloc_def nblk_def)
qed

lemma bfree_spec:
  assumes t: "tx H s bs" "fs_geo s" "\<forall>j\<in>H. b_blockno (bufs s ! j) \<notin> meta s" "length bs < 29" "card H \<le> 1"
    and b: "b < nblk s" "used (content s) (sb s) b"
  shows "\<exists>s'. (\<forall>sch. bfree 1 (of_nat b) s sch = Ret () s' sch) \<and>
    tstep H s ((content s)(BBLOCK (of_nat b) (sb s) := clear_bit_of (b mod BPB) (content s (BBLOCK (of_nat b) (sb s)))))
      (log_add (BBLOCK (of_nat b) (sb s)) bs) s'"
proof -
  let ?bm = "BBLOCK (of_nat b) (sb s)"
  have "?bm \<in> meta s" using b(1) by (intro bmap_block) (simp add: nblk_def)
  then have bm: "?bm < disksize s" "\<forall>j\<in>H. b_blockno (bufs s ! j) \<noteq> ?bm" "\<forall>k\<le>29. ?bm \<noteq> log_block s k"
    using t(2,3) b(1) by (auto simp: fs_geo_def nblk_def)
  have l: "length bs + card H < NBUF" using t(4,5) by (simp add: NBUF_def)
  have u: "unat (of_nat b :: uint32) = b" using b(1) nblk_lt [of s] by (intro unat_of_nat_word) simp
  from rewrite_block [OF t(1) bm(1,2) t(4) l bm(3), of "clear_bit_of (b mod BPB)"] tx_len [OF t(1), of ?bm]
  obtain i s1 t1 t2 s' where
    "\<And>sch. bread 1 ?bm s sch = Ret i s1 sch" "\<And>sch. get_data i s1 sch = Ret (content s ?bm) s1 sch"
    "\<And>sch. set_data i (clear_bit_of (b mod BPB)) s1 sch = Ret () t1 sch" "\<And>sch. log_write i t1 sch = Ret () t2 sch" "\<And>sch. brelse i t2 sch = Ret () s' sch"
    "tstep H s ((content s)(?bm := clear_bit_of (b mod BPB) (content s ?bm))) (log_add ?bm bs) s'"
    by auto
  then show ?thesis
    using b(2) unfolding clear_bit_of_def [abs_def] by (intro exI [of _ s']) (simp add: bfree_def Let_def u used_def)
qed


section \<open>Allocating and freeing\<close>

lemma allocated_facts:
  assumes r: "alloc_ready H s bs" and a: "allocated H s bs b s'"
  shows "of_nat b \<notin> meta s" "content s' (of_nat b) = replicate BSIZE 0"
    "x \<noteq> of_nat b \<Longrightarrow> x \<noteq> BBLOCK (of_nat b) (sb s) \<Longrightarrow> content s' x = content s x"
    "c < nblk s \<Longrightarrow> used (content s') (sb s) c \<longleftrightarrow> c = b \<or> used (content s) (sb s) c"
    "meta_used s'" "fs_geo s'" "same s s'" "held_same H s s'"
    "tx H s' (log_add (of_nat b) (log_add (BBLOCK (of_nat b) (sb s)) bs))"
proof -
  let ?C = "content s" and ?bm = "\<lambda>b. BBLOCK (of_nat b) (sb s)"
  have t: "tx H s bs" using r by (simp add: alloc_ready_def)
  have e: "content s' = alloc_content ?C (sb s) b" and sm: "same s s'" "held_same H s s'"
    and tx': "tx H s' (log_add (of_nat b) (log_add (?bm b) bs))" using a by (simp_all add: allocated_def tstep_def)
  have b: "b < nblk s" "\<not> used ?C (sb s) b" using a by (simp_all add: allocated_def)
  have len: "length (?C (?bm b)) = 512" using tx_len [OF t] by (simp add: BSIZE_def)
  show nm: "of_nat b \<notin> meta s" using r b by (simp add: alloc_ready_def meta_used_def nblk_def)
  show "content s' (of_nat b) = replicate BSIZE 0" by (simp add: e alloc_content_def)
  show "x \<noteq> of_nat b \<Longrightarrow> x \<noteq> ?bm b \<Longrightarrow> content s' x = ?C x" by (simp add: e alloc_content_def)
  have u: "used (content s') (sb s) c \<longleftrightarrow> c = b \<or> used ?C (sb s) c" if c: "c < nblk s" for c
  proof -
    have "?bm c \<noteq> of_nat b" using nm bmap_block [of c s] c by (auto simp: nblk_def)
    then have "used (content s') (sb s) c = used (?C(?bm b := set_bit_of (b mod BPB) (?C (?bm b)))) (sb s) c"
      by (simp add: e alloc_content_def used_def)
    then show ?thesis using used_after(1) [of b c ?C "sb s"] len b(1) c nblk_lt [of s] by simp
  qed
  then show "c < nblk s \<Longrightarrow> used (content s') (sb s) c \<longleftrightarrow> c = b \<or> used ?C (sb s) c" .
  have sbe: "sb s' = sb s" using sm by (simp add: same_def)
  show "meta_used s'" using r u same_meta(1) [OF sm(1)] by (simp add: alloc_ready_def meta_used_def sbe nblk_def)
  show "fs_geo s'" using r same_meta(2) [OF sm(1)] by (simp add: alloc_ready_def)
  show "same s s'" "held_same H s s'" "tx H s' (log_add (of_nat b) (log_add (?bm b) bs))" using sm tx' by simp_all
qed

text \<open>C10: Inside a transaction with room in the log and a free block in the map, \<^verbatim>\<open>balloc\<close> returns a block
  that was free, outside the log, the inodes and the map, and marks exactly this block; the block
  reads as zeros and no other block outside the map has changed. A following \<^verbatim>\<open>bfree\<close> of the block
  restores the map bit for bit.\<close>

theorem balloc_bfree:
  assumes r: "alloc_ready {} s bs" and room: "length bs < 27"
  shows "\<exists>b s' s''. (\<forall>sch. balloc 1 s sch = Ret (of_nat b) s' sch) \<and> b < nblk s \<and> \<not> used (content s) (sb s) b \<and> of_nat b \<notin> meta s \<and>
    content s' (of_nat b) = replicate BSIZE 0 \<and>
    {c. c < nblk s \<and> used (content s') (sb s) c} = insert b {c. c < nblk s \<and> used (content s) (sb s) c} \<and>
    (\<forall>x. content s' x = content s x \<or> x = of_nat b \<or> x = BBLOCK (of_nat b) (sb s)) \<and>
    (\<forall>sch. bfree 1 (of_nat b) s' sch = Ret () s'' sch) \<and> content s'' = (content s)(of_nat b := replicate BSIZE 0)"
proof -
  obtain b s' where run: "\<forall>sch. balloc 1 s sch = Ret (of_nat b) s' sch" and a: "allocated {} s bs b s'"
    using balloc_spec [OF r] by blast
  note f = allocated_facts [OF r a]
  let ?bm = "BBLOCK (of_nat b) (sb s)" and ?bs = "log_add (of_nat b) (log_add (BBLOCK (of_nat b) (sb s)) bs)"
  have b: "b < nblk s" "\<not> used (content s) (sb s) b" using a by (simp_all add: allocated_def)
  have sbe: "sb s' = sb s" "nblk s' = nblk s" using f(7) by (simp_all add: same_def nblk_def)
  have l: "length ?bs < 29"
    using room length_log_add [of "of_nat b" "log_add ?bm bs"] length_log_add [of ?bm bs] by simp
  have len: "length (content s ?bm) = 512" using tx_len [of "{}" s bs] r by (simp add: alloc_ready_def BSIZE_def)
  have "used (content s') (sb s') b" using f(4) [OF b(1)] sbe by simp
  from bfree_spec [OF f(9,6) _ l _ _ this] b(1) sbe obtain s'' where
    s'': "\<forall>sch. bfree 1 (of_nat b) s' sch = Ret () s'' sch" "content s'' = (content s')(?bm := clear_bit_of (b mod BPB) (content s' ?bm))"
    by (auto simp: tstep_def)
  have bmb: "?bm \<noteq> of_nat b" using f(1) bmap_block [of b s] b(1) by (auto simp: nblk_def)
  have "content s' = alloc_content (content s) (sb s) b" using a by (simp add: allocated_def tstep_def)
  moreover have "bit_clear (content s ?bm) (b mod BPB)" using b(2) by (simp add: used_def)
  then have "clear_bit_of (b mod BPB) (set_bit_of (b mod BPB) (content s ?bm)) = content s ?bm" using len by (intro clear_set_bit) simp_all
  ultimately have "content s'' = (content s)(of_nat b := replicate BSIZE 0)"
    using s''(2) bmb by (simp add: alloc_content_def fun_eq_iff)
  moreover have "{c. c < nblk s \<and> used (content s') (sb s) c} = insert b {c. c < nblk s \<and> used (content s) (sb s) c}"
    using f(4) b(1) by auto
  moreover have "content s' x = content s x \<or> x = of_nat b \<or> x = ?bm" for x using f(3) by blast
  ultimately show ?thesis
    using run b f(1,2) s''(1) by (intro exI [of _ b] exI [of _ s'] exI [of _ s'']) simp
qed

section \<open>An example\<close>

text \<open>A disk as \<^verbatim>\<open>mkfs\<close> lays it out, with 1000 blocks of which the first 59 are in use.\<close>

definition demo_sb :: superblock where
  "demo_sb = \<lparr>sb_size = 1000, sb_nblocks = 941, sb_ninodes = 200, sb_nlog = 30, sb_logstart = 2, sb_inodestart = 32, sb_bmapstart = 58\<rparr>"

definition demo_fsdisk :: "uint32 \<Rightarrow> bytes" where
  "demo_fsdisk b = (if b = 58 then replicate 7 255 @ [7] @ replicate 504 0 else demo_disk b)"

lemma demo_fsdisk_log: "disk_log demo_fsdisk k = 2 + of_nat k"
  using demo_disk_log [of k] by (simp add: disk_log_def demo_fsdisk_def)

lemma demo_fsdisk_ok: "disk_ok 1000 demo_fsdisk"
proof -
  have "disk_log demo_fsdisk = disk_log demo_disk" by (simp add: fun_eq_iff demo_fsdisk_log demo_disk_log)
  moreover have "demo_fsdisk (disk_log demo_disk 0) = demo_disk (disk_log demo_disk 0)" by (simp add: demo_disk_log demo_fsdisk_def)
  moreover have "length (demo_fsdisk b) = BSIZE" for b by (simp add: demo_fsdisk_def demo_disk_def BSIZE_def)
  ultimately show ?thesis using demo_disk_ok by (simp add: disk_ok_def)
qed

lemma demo_tx:
  "\<exists>s. tx {} s [] \<and> sb s = demo_sb \<and> disksize s = 1000 \<and> inodes s = is \<and> (\<forall>k. log_block s k = 2 + of_nat k) \<and>
     (\<forall>b. b \<noteq> 2 \<longrightarrow> content s b = demo_fsdisk b)"
proof -
  obtain r where r: "cinv {} r" "content r = memdisk r" "dirty_blocks r = {}" and rdy: "log_ready 1000 demo_fsdisk r"
    and dr: "d_writes r = disk_installs demo_fsdisk @ [(disk_log demo_fsdisk 0, put_head [] (demo_fsdisk (disk_log demo_fsdisk 0)))]"
      "memdisk r = apply_writes (d_writes r) demo_fsdisk"
    using reboot_spec [OF demo_fsdisk_ok] by blast
  have "rd32 (demo_fsdisk 2) 0 = 0" by (simp add: demo_fsdisk_def demo_disk_def rd32_def mk32_def)
  then have di: "disk_installs demo_fsdisk = []"
    using head_empty [of "demo_fsdisk 2"] by (simp add: disk_installs_def demo_fsdisk_log)
  have md: "memdisk r = demo_fsdisk(2 := put_head [] (demo_fsdisk 2))" using dr di by (simp add: demo_fsdisk_log)
  define s where "s = r\<lparr>lg := (lg r)\<lparr>l_outstanding := 1\<rparr>, sb := demo_sb, inodes := is\<rparr>"
  have e: "log_block s = log_block r" "log_dev s = log_dev r" "disksize s = disksize r" "lh_n (lg s) = lh_n (lg r)"
    by (simp_all add: s_def log_block_def log_dev_def fun_eq_iff)
  have "log_geo s = log_geo r" "logged s [] = logged r []" by (simp_all add: log_geo_def logged_def e)
  then have "log_geo s" "logged s []" "disksize s = 1000" "log_block s = disk_log demo_fsdisk" using rdy e by (simp_all add: log_ready_def)
  moreover have "length (lh_block (lg s)) = 30" "\<not> log_lk s" "l_size (lg s) = 30" "1 \<le> l_outstanding (lg s)"
    using rdy by (simp_all add: log_ready_def s_def demo_fsdisk_def demo_disk_def rd32_def mk32_def le32_def)
  moreover have "cinv {} s" "content s = memdisk r" "dirty_blocks s = {}" using r by (simp_all add: s_def)
  ultimately show ?thesis using md by (intro exI [of _ s]) (simp add: tx_def demo_fsdisk_log, simp add: s_def)
qed


lemma demo_bits: "list_all (\<lambda>b. \<not> bit_clear (replicate 7 255 @ [7] @ replicate 504 0) b) [0..<59] \<and>
    bit_clear (replicate 7 255 @ [7] @ replicate 504 0) 59"
  by code_simp

lemma demo_geo:
  assumes s: "sb s = demo_sb" "disksize s = 1000" "\<forall>k. log_block s k = 2 + of_nat k" "content s 58 = demo_fsdisk 58"
  shows "\<forall>b\<in>meta s. unat b < 59" "fs_geo s" "meta_used s" "\<exists>b<nblk s. \<not> used (content s) (sb s) b" "nblk s = 1000"
proof -
  have L: "unat (log_block s k) = 2 + k" if "k \<le> 29" for k using that s(3) unat_add_nat [of 2 k] by simp
  have B: "BBLOCK (of_nat b) (sb s) = 58" if "b < 1000" for b
    using that BBLOCK_group [of b "sb s"] s(1) by (simp add: demo_sb_def)
  have I: "unat (IBLOCK i (sb s)) = 32 + unat i div 8 \<and> unat i div 8 < 25" if "i < sb_ninodes (sb s)" for i
  proof -
    have i: "unat i < 200" using that s(1) by (simp add: demo_sb_def word_less_nat_alt)
    then have "unat (i div 8) = unat i div 8" by (simp add: unat_div)
    moreover have "unat i div 8 < 25" using i by simp
    ultimately show ?thesis using s(1) by (simp add: IBLOCK_def demo_sb_def unat_plus_if')
  qed
  show n: "nblk s = 1000" using s(1) by (simp add: nblk_def demo_sb_def)
  show m: "\<forall>b\<in>meta s. unat b < 59"
  proof
    fix b assume "b \<in> meta s"
    then consider k where "k \<le> 29" "b = log_block s k" | "b = 58" | "b = 0" | "b = 1" | i where "i < sb_ninodes (sb s)" "b = IBLOCK i (sb s)"
      using B n by (auto simp: meta_def nblk_def)
    then show "unat b < 59"
    proof cases
      case 1
      then show ?thesis using L by simp
    next
      case 5
      then show ?thesis using I by fastforce
    qed simp_all
  qed
  have "b < disksize s" if "b \<in> meta s" for b using m that s(2) by (fastforce simp: word_less_nat_alt)
  moreover have "(58 :: uint32) \<noteq> log_block s k" "IBLOCK i (sb s) \<noteq> 58" if "k \<le> 29" "i < sb_ninodes (sb s)" for k i
    using L [OF that(1)] I [OF that(2)] that(1) by (auto simp: word_unat_eq_iff)
  moreover have "(58 :: uint32) \<noteq> log_block s k" if "k \<le> 29" for k using L [OF that] that by (auto simp: word_unat_eq_iff)
  moreover have "IBLOCK i (sb s) \<noteq> log_block s k" if "k \<le> 29" "i < sb_ninodes (sb s)" for k i
    using L [OF that(1)] I [OF that(2)] that(1) by (auto simp: word_unat_eq_iff)
  ultimately show "fs_geo s" using n B s(1,2) by (fastforce simp: fs_geo_def nblk_def demo_sb_def)
  have u: "used (content s) (sb s) b \<longleftrightarrow> \<not> bit_clear (replicate 7 255 @ [7] @ replicate 504 0) b" if "b < 1000" for b
    using B [OF that] s(4) that by (simp add: used_def demo_fsdisk_def)
  have "used (content s) (sb s) b" if "b < 59" for b using demo_bits u [of b] that by (simp add: list_all_iff)
  then have "\<not> used (content s) (sb s) b \<Longrightarrow> 59 \<le> b" for b using not_le by blast
  moreover have "unat (of_nat b :: uint32) = b" if "b < 1000" for b using that by (simp add: unat_of_nat_word)
  ultimately show "meta_used s" using m n unfolding meta_used_def nblk_def by (metis not_le)
  show "\<exists>b<nblk s. \<not> used (content s) (sb s) b" using u [of 59] demo_bits n by (intro exI [of _ 59]) simp
qed

theorem balloc_bfree_witness:
  "\<exists>s b s' s''. alloc_ready {} s [] \<and> balloc 1 s [] = Ret (of_nat b) s' [] \<and> \<not> used (content s) (sb s) b \<and> used (content s') (sb s) b \<and>
    bfree 1 (of_nat b) s' [] = Ret () s'' [] \<and> content s'' 58 = content s 58"
proof -
  obtain s where s: "tx {} s []" "sb s = demo_sb" "disksize s = 1000" "\<forall>k. log_block s k = 2 + of_nat k" "content s 58 = demo_fsdisk 58"
    using demo_tx [of "[]"] by (auto dest: spec [of _ 58])
  note g = demo_geo [OF s(2-5)]
  have r: "alloc_ready {} s []" using s(1) g by (simp add: alloc_ready_def)
  obtain b s' s'' where f: "\<forall>sch. balloc 1 s sch = Ret (of_nat b) s' sch" "b < nblk s" "\<not> used (content s) (sb s) b" "of_nat b \<notin> meta s"
    "{c. c < nblk s \<and> used (content s') (sb s) c} = insert b {c. c < nblk s \<and> used (content s) (sb s) c}"
    "\<forall>sch. bfree 1 (of_nat b) s' sch = Ret () s'' sch" "content s'' = (content s)(of_nat b := replicate BSIZE 0)"
    using balloc_bfree [OF r] by auto
  have "58 \<in> meta s" using bmap_block [of 0 s] s(2) by (simp add: BBLOCK_def demo_sb_def)
  then have "58 \<noteq> (of_nat b :: uint32)" using f(4) by auto
  moreover have "used (content s') (sb s) b" using f(2,5) by blast
  ultimately show ?thesis using r f by (intro exI [of _ s] exI [of _ b] exI [of _ s'] exI [of _ s'']) simp
qed

end
