(* ===== verification/Content.thy ===== *)
theory Content
  imports Tx
begin

text \<open>
  The content of an inode (\<^verbatim>\<open>bmap\<close>, \<^verbatim>\<open>readi\<close> and \<^verbatim>\<open>writei\<close> of \<^verbatim>\<open>src/fs.c\<close>). \<open>fb s i bn\<close> is the address of
  block \<open>bn\<close> of inode \<open>i\<close>, through the direct addresses or the indirect block, 0 when there is none.
  In a sound file (\<open>file_ok\<close>) the addresses are different blocks of the data area that are marked in
  the bit map. \<open>bmap\<close> keeps that, and \<open>writei\<close> followed by \<open>readi\<close> returns what was written.
\<close>

section \<open>The blocks of a file\<close>

definition ind :: "fsys \<Rightarrow> nat \<Rightarrow> uint32" where
  "ind s i = di_addrs (i_d (ino i s)) ! NDIRECT"

definition fb :: "fsys \<Rightarrow> nat \<Rightarrow> nat \<Rightarrow> uint32" where
  "fb s i bn = (if bn < NDIRECT then di_addrs (i_d (ino i s)) ! bn
     else if ind s i = 0 then 0 else rd32 (content s (ind s i)) (4 * (bn - NDIRECT)))"

definition good :: "fsys \<Rightarrow> uint32 \<Rightarrow> bool" where
  "good s a \<longleftrightarrow> unat a < nblk s \<and> a \<notin> meta s \<and> used (content s) (sb s) (unat a)"

definition file_ok :: "fsys \<Rightarrow> nat \<Rightarrow> bool" where
  "file_ok s i \<longleftrightarrow> i < length (inodes s) \<and> i_dev (ino i s) = 1 \<and> length (di_addrs (i_d (ino i s))) = 13 \<and>
     (\<forall>bn<MAXFILE. fb s i bn \<noteq> 0 \<longrightarrow> good s (fb s i bn) \<and> fb s i bn \<noteq> ind s i) \<and> (ind s i \<noteq> 0 \<longrightarrow> good s (ind s i)) \<and>
     (\<forall>bn<MAXFILE. \<forall>bm<MAXFILE. fb s i bn \<noteq> 0 \<longrightarrow> fb s i bn = fb s i bm \<longrightarrow> bn = bm)"

text \<open>The state of the file system inside a transaction, and the number of free blocks.\<close>

definition fs_ok :: "fsys \<Rightarrow> uint32 list \<Rightarrow> bool" where
  "fs_ok s bs \<longleftrightarrow> tx {} s bs \<and> fs_geo s \<and> meta_used s"

definition nfree :: "fsys \<Rightarrow> nat" where
  "nfree s = card {b. b < nblk s \<and> \<not> used (content s) (sb s) b}"

text \<open>The blocks that have to be in the log for a change of the file, beside its data.\<close>

definition bmaps :: "fsys \<Rightarrow> uint32 set" where
  "bmaps s = (\<lambda>b. BBLOCK (of_nat b) (sb s)) ` {..<nblk s}"

definition cap :: "fsys \<Rightarrow> nat \<Rightarrow> uint32 list \<Rightarrow> nat" where
  "cap s i bs = card (set bs \<union> bmaps s \<union> ({ind s i} - {0})) + (if ind s i = 0 then 1 else 0)"

lemma finite_bmaps [simp]: "finite (bmaps s)"
  by (simp add: bmaps_def)

lemma bmaps_meta: "bmaps s \<subseteq> meta s"
  by (auto simp: bmaps_def meta_def nblk_def)

lemma tx_distinct: "tx H s bs \<Longrightarrow> length bs = card (set bs)"
  by (simp add: tx_def logged_def distinct_card)

lemma length_cap: "tx H s bs \<Longrightarrow> length bs \<le> cap s i bs"
  unfolding tx_distinct cap_def by (intro trans_le_add1 card_mono) auto

lemma good_nonzero: "good s a \<Longrightarrow> a \<noteq> 0"
  by (auto simp: good_def meta_def)

lemma good_disk: "fs_geo s \<Longrightarrow> good s a \<Longrightarrow> a < disksize s"
  by (simp add: good_def fs_geo_def nblk_def word_less_nat_alt word_le_nat_alt)

lemma good_not_log: "good s a \<Longrightarrow> \<forall>k\<le>29. a \<noteq> log_block s k"
  by (auto simp: good_def meta_def)

text \<open>What allocation does, seen from a file.\<close>

definition grown :: "fsys \<Rightarrow> uint32 list \<Rightarrow> uint32 \<Rightarrow> fsys \<Rightarrow> uint32 list \<Rightarrow> bool" where
  "grown s bs a s' bs' \<longleftrightarrow> good s' a \<and> \<not> used (content s) (sb s) (unat a) \<and> content s' a = replicate BSIZE 0 \<and>
     (\<forall>x. x \<noteq> a \<longrightarrow> x \<notin> bmaps s \<longrightarrow> content s' x = content s x) \<and> (\<forall>x. good s x \<longrightarrow> good s' x) \<and>
     fs_geo s' \<and> meta_used s' \<and> nfree s = Suc (nfree s') \<and> sb s' = sb s \<and> disksize s' = disksize s \<and> nblk s' = nblk s \<and>
     log_block s' = log_block s \<and> meta s' = meta s \<and> bmaps s' = bmaps s \<and> set bs' \<subseteq> insert a (set bs \<union> bmaps s)"

lemma allocated_grown:
  assumes r: "alloc_ready H s bs" and a: "allocated H s bs b s'"
  shows "grown s bs (of_nat b) s' (log_add (of_nat b) (log_add (BBLOCK (of_nat b) (sb s)) bs))"
proof -
  note f = allocated_facts [OF r a]
  have b: "b < nblk s" "\<not> used (content s) (sb s) b" using a by (simp_all add: allocated_def)
  have ub: "unat (of_nat b :: uint32) = b" using b(1) nblk_lt [of s] by (intro unat_of_nat_word) simp
  have e: "sb s' = sb s" "disksize s' = disksize s" "log_block s' = log_block s" "nblk s' = nblk s" using f(7) by (simp_all add: same_def nblk_def)
  have m: "meta s' = meta s" "bmaps s' = bmaps s" using same_meta(1) [OF f(7)] e by (simp_all add: bmaps_def)
  have bm: "BBLOCK (of_nat b) (sb s) \<in> bmaps s" using b(1) by (auto simp: bmaps_def)
  have "{c. c < nblk s \<and> \<not> used (content s) (sb s) c} = insert b {c. c < nblk s \<and> \<not> used (content s') (sb s) c}"
    using f(4) b by auto
  moreover have "b \<notin> {c. c < nblk s \<and> \<not> used (content s') (sb s) c}" using f(4) b(1) by simp
  ultimately have "nfree s = Suc (nfree s')" by (simp add: nfree_def e)
  moreover have "good s' (of_nat b)" using f(1,4) b(1) ub m e by (simp add: good_def)
  moreover have "good s' x" if "good s x" for x using that f(4) m e by (simp add: good_def)
  moreover have "content s' x = content s x" if "x \<noteq> of_nat b" "x \<notin> bmaps s" for x using f(3) that bm by auto
  ultimately show ?thesis using f(2,5,6) b(2) ub e m bm by (auto simp: grown_def)
qed

lemma balloc_grown:
  assumes t: "tx H s bs" "fs_geo s" "meta_used s" "length bs < 28" "card H \<le> 1" "0 < nfree s"
    and H: "\<forall>j\<in>H. good s (b_blockno (bufs s ! j))"
  shows "\<exists>a s' bs'. (\<forall>sch. balloc 1 s sch = Ret a s' sch) \<and> grown s bs a s' bs' \<and> tx H s' bs' \<and> same s s' \<and> held_same H s s'"
proof -
  have "\<exists>b<nblk s. \<not> used (content s) (sb s) b" using t(6) by (auto simp: nfree_def card_gt_0_iff)
  then have r: "alloc_ready H s bs" using t H by (simp add: alloc_ready_def good_def)
  obtain b s' where b: "\<forall>sch. balloc 1 s sch = Ret (of_nat b) s' sch" "allocated H s bs b s'" using balloc_spec [OF r] by blast
  show ?thesis using b(1) allocated_grown [OF r b(2)] allocated_facts(7-9) [OF r b(2)] by blast
qed


section \<open>Steps that grow a file\<close>

text \<open>From \<open>s\<close> to \<open>s'\<close>, inode \<open>i\<close> has kept its blocks, at most \<open>c\<close> blocks have been allocated, blocks in
  use have changed only in \<open>fb s' i ` T\<close>, and what is new in the log is the map, the indirect block
  and blocks in \<open>fb s' i ` T\<close>.\<close>

definition no_addrs :: "inode \<Rightarrow> inode" where
  "no_addrs ip = ip\<lparr>i_d := (i_d ip)\<lparr>di_addrs := []\<rparr>\<rparr>"

definition frame :: "fsys \<Rightarrow> nat \<Rightarrow> fsys \<Rightarrow> bool" where
  "frame s i s' \<longleftrightarrow> no_addrs (ino i s') = no_addrs (ino i s) \<and> (\<forall>j. j \<noteq> i \<longrightarrow> ino j s' = ino j s) \<and>
     length (inodes s') = length (inodes s) \<and> sb s' = sb s \<and> disksize s' = disksize s \<and> log_block s' = log_block s \<and> my_pid s' = my_pid s \<and>
     my_cwd s' = my_cwd s \<and> icache_lk s' = icache_lk s"

definition file_step :: "fsys \<Rightarrow> nat \<Rightarrow> uint32 list \<Rightarrow> nat set \<Rightarrow> nat \<Rightarrow> fsys \<Rightarrow> uint32 list \<Rightarrow> bool" where
  "file_step s i bs T c s' bs' \<longleftrightarrow> fs_ok s' bs' \<and> file_ok s' i \<and> frame s i s' \<and>
     (\<forall>bm<MAXFILE. fb s i bm \<noteq> 0 \<longrightarrow> fb s' i bm = fb s i bm) \<and> (ind s i \<noteq> 0 \<longrightarrow> ind s' i = ind s i) \<and>
     (ind s' i = ind s i \<or> \<not> good s (ind s' i)) \<and> (\<forall>x. good s x \<longrightarrow> good s' x) \<and> (\<forall>x. good s x \<longrightarrow> x \<noteq> ind s i \<longrightarrow> x \<notin> fb s' i ` T \<longrightarrow> content s' x = content s x) \<and>
     (\<forall>x\<in>meta s - bmaps s. content s' x = content s x) \<and> nfree s \<le> nfree s' + c \<and>
     set bs' \<subseteq> set bs \<union> bmaps s \<union> ({ind s' i} - {0}) \<union> fb s' i ` T"

lemma frame_refl [simp]: "frame s i s"
  by (simp add: frame_def)

lemma frame_meta: "frame s i s' \<Longrightarrow> meta s' = meta s \<and> bmaps s' = bmaps s \<and> nblk s' = nblk s"
  by (simp add: frame_def meta_def bmaps_def nblk_def)

lemma frame_trans: "frame s i t \<Longrightarrow> frame t i u \<Longrightarrow> frame s i u"
  by (auto simp: frame_def)

lemma fb_indirect: "bn \<ge> NDIRECT \<Longrightarrow> fb s i bn \<noteq> 0 \<Longrightarrow> ind s i \<noteq> 0"
  by (auto simp: fb_def split: if_splits)

lemma new_blocks_trans:
  "A \<subseteq> B \<union> M \<union> I \<union> F \<Longrightarrow> D \<subseteq> A \<union> M \<union> J \<union> G \<Longrightarrow> I \<subseteq> J \<Longrightarrow> F \<subseteq> F' \<Longrightarrow> D \<subseteq> B \<union> M \<union> J \<union> (F' \<union> G)"
  by blast

lemma file_step_trans:
  assumes 1: "file_step s i bs T c t cs" and 2: "file_step t i cs U d u ds" and T: "\<forall>bn\<in>T. bn < MAXFILE \<and> fb t i bn \<noteq> 0"
  shows "file_step s i bs (T \<union> U) (c + d) u ds"
proof -
  have m: "meta t = meta s" "bmaps t = bmaps s" using 1 frame_meta by (auto simp: file_step_def)
  have b1: "fb t i ` T \<subseteq> fb u i ` T" using 2 T by (auto simp: file_step_def)
  have k: "content u x = content s x" if x: "good s x" "x \<noteq> ind s i" "x \<notin> fb u i ` (T \<union> U)" for x
  proof -
    have "x \<notin> fb t i ` T" "x \<notin> fb u i ` U" using x(3) b1 by (auto simp: image_Un)
    then have "content t x = content s x" using 1 x by (simp add: file_step_def)
    moreover have "good t x" "x \<noteq> ind t i" using 1 x by (auto simp: file_step_def)
    ultimately show ?thesis using 2 \<open>x \<notin> fb u i ` U\<close> by (simp add: file_step_def)
  qed
  have b2: "{ind t i} - {0} \<subseteq> {ind u i} - {0}" using 2 by (auto simp: file_step_def)
  have b3: "set cs \<subseteq> set bs \<union> bmaps s \<union> ({ind t i} - {0}) \<union> fb t i ` T"
    "set ds \<subseteq> set cs \<union> bmaps s \<union> ({ind u i} - {0}) \<union> fb u i ` U" using 1 2 m by (simp_all add: file_step_def)
  have "set ds \<subseteq> set bs \<union> bmaps s \<union> ({ind u i} - {0}) \<union> fb u i ` (T \<union> U)"
    unfolding image_Un by (rule new_blocks_trans [OF b3 b2 b1])
  moreover have "frame s i u" using 1 2 frame_trans by (auto simp: file_step_def)
  moreover have "fb u i bm = fb s i bm" if "bm < MAXFILE" "fb s i bm \<noteq> 0" for bm
    using 1 2 that by (simp add: file_step_def)
  moreover have "ind u i = ind s i \<or> \<not> good s (ind u i)" "ind s i \<noteq> 0 \<longrightarrow> ind u i = ind s i" using 1 2 by (auto simp: file_step_def)
  moreover have "\<forall>x\<in>meta s - bmaps s. content u x = content s x" using 1 2 m by (simp add: file_step_def)
  moreover have "nfree s \<le> nfree u + (c + d)" "\<forall>x. good s x \<longrightarrow> good u x" "fs_ok u ds" "file_ok u i" using 1 2 by (auto simp: file_step_def)
  ultimately show ?thesis using k by (simp add: file_step_def)
qed

text \<open>Nothing but the cache has changed.\<close>

lemma same_file:
  assumes "same s t" "content t = content s"
  shows "fb t i = fb s i" "ind t i = ind s i" "good t = good s" "file_ok t i = file_ok s i" "nfree t = nfree s" "frame s i t" "bmaps t = bmaps s"
    "fs_geo t = fs_geo s" "meta_used t = meta_used s" "ino i t = ino i s"
proof -
  have e: "inodes t = inodes s" "sb t = sb s" "meta t = meta s" "nblk t = nblk s" using assms(1) same_meta [OF assms(1)] by (simp_all add: same_def nblk_def)
  show i: "ind t i = ind s i" "ino i t = ino i s" using e by (simp_all add: ind_def ino_def)
  show f: "fb t i = fb s i" using e i assms(2) by (simp add: fun_eq_iff fb_def)
  show g: "good t = good s" using e assms(2) by (intro ext) (simp add: good_def)
  show "file_ok t i = file_ok s i" using e i f g by (simp add: file_ok_def)
  show "nfree t = nfree s" "bmaps t = bmaps s" "meta_used t = meta_used s" using e assms(2) by (simp_all add: nfree_def bmaps_def meta_used_def nblk_def)
  show "frame s i t" "fs_geo t = fs_geo s" using e assms(1) same_meta [OF assms(1)] by (simp_all add: frame_def same_def ino_def)
qed

lemma same_file_step:
  assumes "fs_ok s bs" "file_ok s i" "tstep {} s (content s) bs t"
  shows "file_step s i bs {} 0 t bs"
proof -
  have e: "same s t" "content t = content s" "tx {} t bs" using assms(3) by (simp_all add: tstep_def)
  show ?thesis using assms(1,2) e same_file [OF e(1,2)] by (auto simp: file_step_def fs_ok_def)
qed

lemma inode_upd_view [simp]:
  "content (ino_upd i f s) = content s" "tx H (ino_upd i f s) bs = tx H s bs" "sb (ino_upd i f s) = sb s" "disksize (ino_upd i f s) = disksize s"
  "log_block (ino_upd i f s) = log_block s" "meta (ino_upd i f s) = meta s" "nblk (ino_upd i f s) = nblk s" "bmaps (ino_upd i f s) = bmaps s"
  "nfree (ino_upd i f s) = nfree s" "good (ino_upd i f s) = good s" "fs_geo (ino_upd i f s) = fs_geo s" "meta_used (ino_upd i f s) = meta_used s"
  "length (inodes (ino_upd i f s)) = length (inodes s)" "my_pid (ino_upd i f s) = my_pid s" "my_cwd (ino_upd i f s) = my_cwd s"
  "icache_lk (ino_upd i f s) = icache_lk s" "memdisk (ino_upd i f s) = memdisk s"
  by (simp_all add: ino_upd_def meta_def nblk_def bmaps_def nfree_def good_def [abs_def] fs_geo_def meta_used_def)

lemma ino_upd_ino [simp]:
  "i < length (inodes s) \<Longrightarrow> ino i (ino_upd i f s) = f (ino i s)" "j \<noteq> i \<Longrightarrow> ino j (ino_upd i f s) = ino j s"
  by (simp_all add: ino_upd_def ino_def)


section \<open>The map of a file\<close>

lemma rd32_zeros: "k + 4 \<le> n \<Longrightarrow> rd32 (replicate n 0) k = 0"
  by (simp add: rd32_def mk32_def)

lemma rd32_splice:
  assumes "k + 4 \<le> length d" "j + 4 \<le> length d" "j = k \<or> j + 4 \<le> k \<or> k + 4 \<le> j"
  shows "rd32 (splice_at k (le32 a) d) j = (if j = k then a else rd32 d j)"
proof (cases "j = k")
  case True
  have "rd32 (splice_at k (le32 a) d) k = a" using assms(1) by (simp add: splice_at_def rd32_append)
  then show ?thesis using True by simp
next
  case False
  have "splice_at k (le32 a) d ! (j + m) = d ! (j + m)" if "m < 4" for m
    using assms False that by (subst nth_splice_at) auto
  from this [of 0] this [of 1] this [of 2] this [of 3] show ?thesis using False by (simp add: rd32_def numeral_eq_Suc)
qed

definition put_addr :: "nat \<Rightarrow> nat \<Rightarrow> uint32 \<Rightarrow> fsys \<Rightarrow> fsys" where
  "put_addr i k a = ino_upd i (\<lambda>ip. ip\<lparr>i_d := (i_d ip)\<lparr>di_addrs := (di_addrs (i_d ip))[k := a]\<rparr>\<rparr>)"

lemma grown_old:
  assumes "grown s bs a t cs" "good s x"
  shows "x \<noteq> a" "content t x = content s x"
  using assms bmaps_meta [of s] by (auto simp: grown_def good_def)

lemma slot_file:
  assumes f: "file_ok s i" and g: "grown s bs a t cs" and sm: "same s t" and k: "k < 13" "di_addrs (i_d (ino i s)) ! k = 0"
  shows "ind (put_addr i k a t) i = (if k = NDIRECT then a else ind s i)"
    "bn < MAXFILE \<Longrightarrow> fb (put_addr i k a t) i bn = (if bn = k \<and> k < NDIRECT then a else fb s i bn)"
    "no_addrs (ino i (put_addr i k a t)) = no_addrs (ino i s)" "di_addrs (i_d (ino i (put_addr i k a t))) ! k = a"
proof -
  have e: "inodes t = inodes s" using sm by (simp add: same_def)
  have f': "i < length (inodes t)" "length (di_addrs (i_d (ino i s))) = 13" "ino i t = ino i s" using f e by (simp_all add: file_ok_def ino_def)
  show i: "ind (put_addr i k a t) i = (if k = NDIRECT then a else ind s i)" using f' by (simp add: ind_def put_addr_def)
  show "no_addrs (ino i (put_addr i k a t)) = no_addrs (ino i s)" "di_addrs (i_d (ino i (put_addr i k a t))) ! k = a"
    using f' k(1) by (simp_all add: no_addrs_def put_addr_def)
  show "fb (put_addr i k a t) i bn = (if bn = k \<and> k < NDIRECT then a else fb s i bn)" if bn: "bn < MAXFILE"
  proof (cases "bn < NDIRECT")
    case True
    then show ?thesis using f' k(1) by (auto simp: fb_def put_addr_def nth_list_update)
  next
    case False
    show ?thesis
    proof (cases "k = NDIRECT")
      case True
      then have "ind s i = 0" using k(2) by (simp add: ind_def)
      moreover have "a \<noteq> 0" "content t a = replicate BSIZE 0" using g good_nonzero by (auto simp: grown_def)
      moreover have "rd32 (replicate BSIZE 0) (4 * (bn - NDIRECT)) = 0" using bn by (intro rd32_zeros) (simp add: BSIZE_def)
      ultimately show ?thesis using False True i by (simp add: fb_def) (simp add: put_addr_def)
    next
      case k12: False
      have "content t (ind s i) = content s (ind s i)" if "ind s i \<noteq> 0" using f that grown_old(2) [OF g] by (simp add: file_ok_def)
      then show ?thesis using False k12 i by (simp add: fb_def) (auto simp: put_addr_def)
    qed
  qed
qed

lemma alloc_slot:
  assumes fs: "fs_ok s bs" and f: "file_ok s i" and k: "k < 13" "di_addrs (i_d (ino i s)) ! k = 0" and l: "length bs < 28" "0 < nfree s"
  shows "\<exists>a s' bs'. (\<forall>sch. bnd (balloc 1) (\<lambda>a. thn (set_addr i k a) (ret a)) s sch = Ret a s' sch) \<and> a \<noteq> 0 \<and> di_addrs (i_d (ino i s')) ! k = a \<and>
    content s' a = replicate BSIZE 0 \<and> file_step s i bs (if k < NDIRECT then {k} else {}) 1 s' bs'"
proof -
  have t0: "tx {} s bs" "fs_geo s" "meta_used s" using fs by (simp_all add: fs_ok_def)
  obtain a t cs where r: "\<forall>sch. balloc 1 s sch = Ret a t sch" and g: "grown s bs a t cs" and t: "tx {} t cs" and sm: "same s t"
    using balloc_grown [OF t0 l(1) _ l(2)] by auto
  let ?u = "put_addr i k a t"
  note sf = slot_file [OF f g sm k]
  have run: "bnd (balloc 1) (\<lambda>a. thn (set_addr i k a) (ret a)) s sch = Ret a ?u sch" for sch
    using r by (simp add: set_addr_def put_addr_def)
  have a0: "a \<noteq> 0" using g good_nonzero by (auto simp: grown_def)
  have gu: "good ?u = good t" "content ?u = content t" "nfree ?u = nfree t" by (simp_all add: put_addr_def)
  have old: "good s x \<Longrightarrow> good t x" "good t a" for x using g by (auto simp: grown_def)
  note ga = grown_old(1) [OF g]
  have fnz: "\<not> (bn = k \<and> k < NDIRECT) \<or> fb s i bn = 0" for bn using k(2) by (auto simp: fb_def)
  have len: "length (di_addrs (i_d (ino i s))) = 13" "i < length (inodes s)" "i_dev (ino i s) = 1" using f by (simp_all add: file_ok_def)
  have ino_u: "i < length (inodes ?u)" "i_dev (ino i ?u) = 1" "length (di_addrs (i_d (ino i ?u))) = 13"
    using len sm by (simp_all add: put_addr_def same_def) (simp_all add: ino_def same_def)
  have "file_ok ?u i"
  proof -
    have "fb ?u i bn = fb ?u i bm \<longrightarrow> bn = bm" if "bn < MAXFILE" "bm < MAXFILE" "fb ?u i bn \<noteq> 0" for bn bm
    proof -
      have "fb s i x \<noteq> a" if "x < MAXFILE" "fb s i x \<noteq> 0" for x using f ga that by (auto simp: file_ok_def)
      then show ?thesis using that sf(2) [OF that(1)] sf(2) [OF that(2)] f a0 unfolding file_ok_def by metis
    qed
    moreover have "good ?u (fb ?u i bn) \<and> fb ?u i bn \<noteq> ind ?u i" if "bn < MAXFILE" "fb ?u i bn \<noteq> 0" for bn
    proof (cases "bn = k \<and> k < NDIRECT")
      case True
      then have "fb ?u i bn = a" "ind ?u i = ind s i" using sf(1,2) that by simp_all
      moreover have "ind s i \<noteq> a" using f ga a0 by (auto simp: file_ok_def)
      ultimately show ?thesis using old(2) gu by simp
    next
      case False
      then have e: "fb ?u i bn = fb s i bn" using sf(2) [OF that(1)] by auto
      then have "good s (fb s i bn)" "fb s i bn \<noteq> ind s i" using f that by (simp_all add: file_ok_def)
      then show ?thesis using e old(1) gu(1) sf(1) ga by auto
    qed
    moreover have "good ?u (ind ?u i)" if "ind ?u i \<noteq> 0"
      using that sf(1) f old gu(1) by (auto simp: file_ok_def split: if_splits)
    ultimately show ?thesis using ino_u by (simp add: file_ok_def)
  qed
  moreover have "fs_ok ?u cs" using t g by (simp add: fs_ok_def put_addr_def grown_def)
  moreover have "frame s i ?u" using sf(3) sm by (simp add: frame_def same_def) (simp add: put_addr_def ino_def ino_upd_def)
  moreover have "fb ?u i bm = fb s i bm" if "bm < MAXFILE" "fb s i bm \<noteq> 0" for bm using sf(2) [OF that(1)] fnz [of bm] that(2) by auto
  moreover have "ind s i \<noteq> 0 \<longrightarrow> ind ?u i = ind s i" "ind ?u i = ind s i \<or> \<not> good s (ind ?u i)"
    using sf(1) k(2) ga by (auto simp: ind_def)
  moreover have "content ?u x = content s x" if "x \<in> meta s - bmaps s" for x
  proof -
    have "x \<noteq> a" using that g by (auto simp: grown_def good_def)
    then show ?thesis using that g gu by (simp add: grown_def)
  qed
  moreover have "set cs \<subseteq> set bs \<union> bmaps s \<union> ({ind ?u i} - {0}) \<union> fb ?u i ` (if k < NDIRECT then {k} else {})"
    using g sf(1) sf(2) [of k] a0 k(1) by (auto simp: grown_def)
  ultimately have "file_step s i bs (if k < NDIRECT then {k} else {}) 1 ?u cs"
    using g grown_old(2) [OF g] gu old(1) by (auto simp: file_step_def grown_def)
  then show ?thesis using run a0 sf(4) g gu(2) by (intro exI [of _ a] exI [of _ ?u] exI [of _ cs]) (simp add: grown_def)
qed


lemma file_step_mono: "file_step s i bs T c s' bs' \<Longrightarrow> T \<subseteq> U \<Longrightarrow> c \<le> d \<Longrightarrow> file_step s i bs U d s' bs'"
proof -
  assume f: "file_step s i bs T c s' bs'" and TU: "T \<subseteq> U" and cd: "c \<le> d"
  have "set bs' \<subseteq> (set bs \<union> bmaps s \<union> ({ind s' i} - {0})) \<union> fb s' i ` T" using f by (simp add: file_step_def)
  also have "\<dots> \<subseteq> (set bs \<union> bmaps s \<union> ({ind s' i} - {0})) \<union> fb s' i ` U" by (rule Un_mono [OF subset_refl image_mono [OF TU]])
  finally have "set bs' \<subseteq> (set bs \<union> bmaps s \<union> ({ind s' i} - {0})) \<union> fb s' i ` U" .
  moreover have "x \<notin> fb s' i ` T" if "x \<notin> fb s' i ` U" for x using that image_mono [OF TU, of "fb s' i"] by blast
  ultimately show ?thesis using f cd by (simp add: file_step_def)
qed

lemma cap_step:
  assumes f: "file_step s i bs T c s' bs'" and T: "finite T"
  shows "cap s' i bs' \<le> cap s i bs + card T"
proof -
  let ?A = "set bs \<union> bmaps s" and ?I = "{ind s' i} - {0}"
  have b: "bmaps s' = bmaps s" using f frame_meta by (auto simp: file_step_def)
  have "set bs' \<union> bmaps s' \<union> ?I \<subseteq> (?A \<union> ?I) \<union> fb s' i ` T" using f b by (auto simp: file_step_def)
  then have "card (set bs' \<union> bmaps s' \<union> ?I) \<le> card ((?A \<union> ?I) \<union> fb s' i ` T)" using T by (intro card_mono) auto
  also have "\<dots> \<le> card (?A \<union> ?I) + card (fb s' i ` T)" by (rule card_Un_le)
  also have "\<dots> \<le> card (?A \<union> ?I) + card T" using card_image_le [OF T] by simp
  finally have 1: "card (set bs' \<union> bmaps s' \<union> ?I) \<le> card (?A \<union> ?I) + card T" .
  have "card (?A \<union> {ind s' i}) \<le> Suc (card ?A)" by (simp add: card_insert_if)
  then show ?thesis using 1 f by (cases "ind s i = 0"; cases "ind s' i = 0") (auto simp: cap_def file_step_def)
qed

lemma file_blocks_cap: "fs_ok s bs \<Longrightarrow> length bs \<le> cap s i bs"
  using length_cap by (auto simp: fs_ok_def)

lemma indirect_fb:
  assumes "content s' (ind s i) = splice_at (4 * (bn - NDIRECT)) (le32 a) (content s (ind s i))" "ind s' i = ind s i" "ind s i \<noteq> 0"
    and "length (content s (ind s i)) = BSIZE" "ino i s' = ino i s" "NDIRECT \<le> bn" "bn < MAXFILE" "bm < MAXFILE"
  shows "fb s' i bm = (if bm = bn then a else fb s i bm)"
proof (cases "bm < NDIRECT")
  case True
  then show ?thesis using assms by (auto simp: fb_def)
next
  case False
  have "rd32 (splice_at (4 * (bn - NDIRECT)) (le32 a) (content s (ind s i))) (4 * (bm - NDIRECT)) =
      (if 4 * (bm - NDIRECT) = 4 * (bn - NDIRECT) then a else rd32 (content s (ind s i)) (4 * (bm - NDIRECT)))"
    using assms(4,6-8) False by (intro rd32_splice) (auto simp: BSIZE_def)
  then show ?thesis using assms False by (auto simp: fb_def)
qed

definition bmap_entry :: "nat \<Rightarrow> uint32 \<Rightarrow> nat \<Rightarrow> uint32 fm" where
  "bmap_entry i addr bn =
     bnd (bread 1 addr) (\<lambda>bp.
     bnd (get_data bp) (\<lambda>d.
     bnd (if rd32 d (4 * (bn - NDIRECT)) = 0 then
            bnd (balloc 1) (\<lambda>addr.
            thn (set_data bp (splice_at (4 * (bn - NDIRECT)) (le32 addr)))
            (thn (log_write bp)
            (ret addr)))
          else ret (rd32 d (4 * (bn - NDIRECT)))) (\<lambda>addr.
     thn (brelse bp)
     (ret addr))))"

lemma entry_file:
  assumes fs: "fs_ok s bs" and f: "file_ok s i" and I: "ind s i \<noteq> 0" and bn: "NDIRECT \<le> bn" "bn < MAXFILE" "fb s i bn = 0"
    and g: "grown s bs a t cs" and u: "tx {} u ds" "content u = (content t)(ind s i := splice_at (4 * (bn - NDIRECT)) (le32 a) (content s (ind s i)))"
      "same s u" "set ds = insert (ind s i) (set cs)"
  shows "file_step s i bs {bn} 1 u ds \<and> fb u i bn = a \<and> content u a = replicate BSIZE 0"
proof -
  let ?I = "ind s i"
  have e: "inodes u = inodes s" "sb u = sb s" "meta u = meta s" "fs_geo u = fs_geo s" "nblk u = nblk s" "ino i u = ino i s" "ind u i = ?I" "bmaps u = bmaps s"
    using u(3) same_meta [OF u(3)] by (simp_all add: same_def nblk_def ino_def ind_def bmaps_def)
  have gI: "good s ?I" using f I by (simp add: file_ok_def)
  note old = grown_old [OF g]
  have Im: "?I \<notin> bmaps s" "?I \<noteq> a" using gI bmaps_meta old(1) by (auto simp: good_def)
  have us: "used (content u) (sb u) b = used (content t) (sb t) b" if "b < nblk s" for b
  proof -
    have "BBLOCK (of_nat b) (sb s) \<in> bmaps s" using that by (auto simp: bmaps_def)
    then have "BBLOCK (of_nat b) (sb s) \<noteq> ?I" using Im(1) by metis
    then show ?thesis using g e(2) u(2) by (simp add: used_def grown_def)
  qed
  have gt: "sb t = sb s" "nblk t = nblk s" "meta t = meta s" "meta_used t" "good t a" using g by (simp_all add: grown_def)
  have gu: "good u = good t" using us gt e by (intro ext) (auto simp: good_def)
  have keep: "good s x \<Longrightarrow> good u x" for x using g gu by (simp add: grown_def)
  have nf: "nfree u = nfree t" using us gt e by (simp add: nfree_def) (metis (no_types, lifting))
  have mu: "meta_used u" using gt us e by (simp add: meta_used_def nblk_def)
  have len: "length (content s ?I) = BSIZE" using fs tx_len by (auto simp: fs_ok_def)
  have fbu: "fb u i bm = (if bm = bn then a else fb s i bm)" if "bm < MAXFILE" for bm
    using indirect_fb [of u s i bn a bm] u(2) e I len bn that by simp
  have a0: "a \<noteq> 0" using gt(5) good_nonzero by simp
  have c: "content u x = content s x" if "x \<noteq> a" "x \<notin> bmaps s" "x \<noteq> ?I" for x using g u(2) that by (simp add: grown_def)
  have "file_ok u i"
  proof -
    have "fb s i x \<noteq> a" if "x < MAXFILE" for x using f old(1) a0 that by (auto simp: file_ok_def)
    then have "fb u i x = fb u i y \<longrightarrow> x = y" if "x < MAXFILE" "y < MAXFILE" "fb u i x \<noteq> 0" for x y
      using f fbu that unfolding file_ok_def by metis
    then show ?thesis using f fbu e keep Im(2) gt(5) gu I by (auto simp: file_ok_def)
  qed
  moreover have "frame s i u" using u(3) by (simp add: frame_def same_def) (simp add: ino_def)
  moreover have "set ds \<subseteq> set bs \<union> bmaps s \<union> ({ind u i} - {0}) \<union> fb u i ` {bn}"
    using g u(4) fbu [OF bn(2)] e(7) I by (auto simp: grown_def)
  moreover have "content u x = content s x" if "good s x" "x \<noteq> ?I" for x
    using c [of x] that old(1) bmaps_meta [of s] by (auto simp: good_def)
  moreover have "content u x = content s x" if "x \<in> meta s - bmaps s" for x
    using c [of x] that gI gt(5,3) by (auto simp: good_def)
  moreover have "fs_ok u ds" using u(1) mu e(4) fs by (simp add: fs_ok_def)
  ultimately have "file_step s i bs {bn} 1 u ds"
    using fbu bn(3) keep e(7) nf g by (auto simp: file_step_def grown_def)
  moreover have "content u a = replicate BSIZE 0" using g u(2) Im(2) by (simp add: grown_def)
  ultimately show ?thesis using fbu bn(2) by simp
qed


lemma bmap_entry_spec:
  assumes fs: "fs_ok s bs" and f: "file_ok s i" and I: "ind s i \<noteq> 0" and bn: "NDIRECT \<le> bn" "bn < MAXFILE" and l: "length bs < 28" "0 < nfree s"
    and cap: "cap s i bs < 28"
  shows "\<exists>a s' bs'. (\<forall>sch. bmap_entry i (ind s i) bn s sch = Ret a s' sch) \<and> a \<noteq> 0 \<and> fb s' i bn = a \<and>
    content s' a = (if fb s i bn = 0 then replicate BSIZE 0 else content s a) \<and> file_step s i bs {bn} 1 s' bs'"
proof -
  let ?I = "ind s i" and ?k = "4 * (bn - NDIRECT)"
  have tx: "tx {} s bs" "fs_geo s" "meta_used s" using fs by (simp_all add: fs_ok_def)
  have gI: "good s ?I" using f I by (simp add: file_ok_def)
  have e: "rd32 (content s ?I) ?k = fb s i bn" using I bn(1) by (simp add: fb_def)
  have "?I \<in> set bs \<or> length bs + card ({} :: nat set) < NBUF" using l(1) by (simp add: NBUF_def)
  then obtain p s1 where r1: "\<forall>sch. bread 1 ?I s sch = Ret p s1 sch" and ac: "access {} s bs ?I p s1"
    using bread_access [OF tx(1) good_disk [OF tx(2) gI]] by auto
  note gd = access_data [OF ac]
  show ?thesis
  proof (cases "fb s i bn = 0")
    case False
    obtain s2 where r2: "\<forall>sch. brelse p s1 sch = Ret () s2 sch" and t2: "tstep {} s (content s) bs s2" using access_release [OF ac] by blast
    have "same s s2" "content s2 = content s" using t2 by (simp_all add: tstep_def)
    then have "fb s2 i bn = fb s i bn" "content s2 (fb s i bn) = content s (fb s i bn)" using same_file(1) [of s s2 i] by simp_all
    moreover have "file_step s i bs {bn} 1 s2 bs" using file_step_mono [OF same_file_step [OF fs f t2]] by simp
    moreover have "bmap_entry i ?I bn s sch = Ret (fb s i bn) s2 sch" for sch using r1 r2 gd e False by (simp add: bmap_entry_def)
    ultimately show ?thesis using False by (intro exI [of _ "fb s i bn"] exI [of _ s2] exI [of _ bs]) simp
  next
    case True
    have a1: "tx {p} s1 bs" "content s1 = content s" "same s s1" "b_blockno (bufs s1 ! p) = ?I" "b_data (bufs s1 ! p) = content s ?I"
      using ac by (simp_all add: access_def)
    note sf = same_file [OF a1(3,2)]
    obtain a s2 cs where r2: "\<forall>sch. balloc 1 s1 sch = Ret a s2 sch" and g1: "grown s1 bs a s2 cs" and t2: "tx {p} s2 cs" "same s1 s2" "held_same {p} s1 s2"
      using balloc_grown [OF a1(1) _ _ l(1)] tx sf l(2) a1(4) gI by auto
    have g: "grown s bs a s2 cs" using g1 a1(2,3) sf same_meta [OF a1(3)] by (simp add: grown_def same_def nblk_def)
    have p2: "b_blockno (bufs s2 ! p) = ?I" "b_data (bufs s2 ! p) = content s ?I" using t2(3) a1(4,5) by (simp_all add: held_same_def)
    have "set cs \<subseteq> insert a (set bs \<union> bmaps s \<union> ({?I} - {0}))" using g by (auto simp: grown_def)
    then have "card (set cs) \<le> card (insert a (set bs \<union> bmaps s \<union> ({?I} - {0})))" by (intro card_mono) auto
    also have "\<dots> \<le> Suc (card (set bs \<union> bmaps s \<union> ({?I} - {0})))" by (simp add: card_insert_if)
    also have "\<dots> \<le> Suc (cap s i bs)" by (simp add: cap_def)
    finally have lc: "length cs < 29" using tx_distinct [OF t2(1)] cap by simp
    have sm2: "same s s2" by (rule same_trans [OF a1(3) t2(2)])
    have nl: "\<forall>k\<le>29. ?I \<noteq> log_block s2 k" using good_not_log [OF gI] sm2 by (simp add: same_def)
    have "length (splice_at ?k (le32 a) (content s ?I)) = BSIZE" using bn tx_len [OF tx(1)] by (simp add: BSIZE_def)
    then obtain s3 s4 where r3: "\<forall>sch. set_data p (splice_at ?k (le32 a)) s2 sch = Ret () s3 sch" "\<forall>sch. log_write p s3 sch = Ret () s4 sch"
      and t4: "tx {p} s4 (log_add ?I cs)" "content s4 = (content s2)(?I := splice_at ?k (le32 a) (content s ?I))" "same s2 s4" "is_dirty (bufs s4 ! p)"
      using tx_modify [OF t2(1) insertI1 p2(1) _ lc nl, of "splice_at ?k (le32 a)"] p2(2) by auto
    obtain u where r5: "\<forall>sch. brelse p s4 sch = Ret () u sch" and t5: "tstep {} s4 (content s4) (log_add ?I cs) u"
      using tx_brelse [of p "{}" s4] t4(1,4) by auto
    have "tx {} u (log_add ?I cs)" "content u = (content s2)(?I := splice_at ?k (le32 a) (content s ?I))" "same s u"
      using t5 t4(2,3) sm2 by (auto simp: tstep_def intro: same_trans)
    note ef = entry_file [OF fs f I bn True g this]
    have "bmap_entry i ?I bn s sch = Ret a u sch" for sch using r1 gd e True r2 r3 r5 by (simp add: bmap_entry_def)
    moreover have "a \<noteq> 0" using g good_nonzero by (auto simp: grown_def)
    ultimately show ?thesis using ef True by (intro exI [of _ a] exI [of _ u] exI [of _ "log_add ?I cs"]) auto
  qed
qed

lemma bnd_gets: "bnd (gets f) k s sch = k (f s) s sch"
  by simp

lemma bmap_spec:
  assumes fs: "fs_ok s bs" and f: "file_ok s i" and bn: "bn < MAXFILE" and l: "2 \<le> nfree s" "cap s i bs < 28"
  shows "\<exists>a s' bs'. (\<forall>sch. bmap i bn s sch = Ret a s' sch) \<and> a \<noteq> 0 \<and> fb s' i bn = a \<and>
    content s' a = (if fb s i bn = 0 then replicate BSIZE 0 else content s a) \<and> file_step s i bs {bn} 2 s' bs'"
proof -
  have d: "i_dev (ino i s) = 1" using f by (simp add: file_ok_def)
  have lb: "length bs < 28" "0 < nfree s" using file_blocks_cap [OF fs, of i] l by simp_all
  have step0: "file_step s i bs {} 0 s bs" using same_file_step [OF fs f tstep_refl] fs by (simp add: fs_ok_def)
  show ?thesis
  proof (cases "bn < NDIRECT")
    case True
    show ?thesis
    proof (cases "di_addrs (i_d (ino i s)) ! bn = 0")
      case False
      then have "bmap i bn s sch = Ret (fb s i bn) s sch" for sch using True by (simp add: bmap_def get_addr_def fb_def)
      moreover have "fb s i bn \<noteq> 0" using False True by (simp add: fb_def)
      ultimately show ?thesis using file_step_mono [OF step0, of "{bn}" 2] by (intro exI [of _ "fb s i bn"] exI [of _ s] exI [of _ bs]) simp
    next
      case z: True
      then obtain a s' bs' where r: "\<forall>sch. bnd (balloc 1) (\<lambda>a. thn (set_addr i bn a) (ret a)) s sch = Ret a s' sch" "a \<noteq> 0"
          "di_addrs (i_d (ino i s')) ! bn = a" "content s' a = replicate BSIZE 0" "file_step s i bs {bn} 1 s' bs'"
        using alloc_slot [OF fs f _ z lb] True by auto
      have "bmap i bn s sch = Ret a s' sch" for sch using True z r(1) d by (simp add: bmap_def get_addr_def)
      then show ?thesis using r(2-4) file_step_mono [OF r(5), of "{bn}" 2] True z by (intro exI [of _ a] exI [of _ s'] exI [of _ bs']) (simp add: fb_def)
    qed
  next
    case ge: False
    let ?get = "if ind s i = 0 then bnd (balloc 1) (\<lambda>a. thn (set_addr i NDIRECT a) (ret a)) else ret (ind s i)"
    obtain s1 cs where r1: "\<forall>sch. ?get s sch = Ret (ind s1 i) s1 sch" "ind s1 i \<noteq> 0" and st1: "file_step s i bs {} 1 s1 cs"
      and z1: "fb s1 i bn = fb s i bn"
    proof (cases "ind s i = 0")
      case True
      then have "di_addrs (i_d (ino i s)) ! NDIRECT = 0" by (simp add: ind_def)
      from alloc_slot [OF fs f _ this lb] obtain a s1 cs where
        r: "\<forall>sch. bnd (balloc 1) (\<lambda>a. thn (set_addr i NDIRECT a) (ret a)) s sch = Ret a s1 sch" "a \<noteq> 0"
          "di_addrs (i_d (ino i s1)) ! NDIRECT = a" "content s1 a = replicate BSIZE 0" "file_step s i bs {} 1 s1 cs"
        by auto
      have "rd32 (replicate BSIZE 0) (4 * (bn - NDIRECT)) = 0" using bn by (intro rd32_zeros) (simp add: BSIZE_def)
      then have "fb s1 i bn = fb s i bn" using r(3,4) ge True by (simp add: fb_def) (simp add: ind_def)
      then show thesis using that [of s1 cs] r True by (simp add: ind_def)
    next
      case False
      then show thesis using that [of s bs] file_step_mono [OF step0, of "{}" 1] by simp
    qed
    have fs1: "fs_ok s1 cs" "file_ok s1 i" "nfree s \<le> nfree s1 + 1" "cap s1 i cs < 28"
      using st1 cap_step [OF st1] l by (simp_all add: file_step_def)
    have lb1: "length cs < 28" "0 < nfree s1" using file_blocks_cap [OF fs1(1), of i] fs1 l by simp_all
    have bn1: "NDIRECT \<le> bn" using ge by simp
    obtain a s' bs' where r2: "\<forall>sch. bmap_entry i (ind s1 i) bn s1 sch = Ret a s' sch" "a \<noteq> 0" "fb s' i bn = a"
        "content s' a = (if fb s1 i bn = 0 then replicate BSIZE 0 else content s1 a)" "file_step s1 i cs {bn} 1 s' bs'"
      using bmap_entry_spec [OF fs1(1,2) r1(2) bn1 bn lb1 fs1(4)] by blast
    have "bmap i bn s sch = bnd ?get (\<lambda>addr. bmap_entry i addr bn) s sch" for sch
    proof -
      have "bn - NDIRECT < NINDIRECT" using ge bn by simp
      then show ?thesis using ge d by (simp add: bmap_def get_addr_def ind_def bmap_entry_def Let_def bnd_gets del: bnd_app cong: if_cong)
    qed
    then have "bmap i bn s sch = Ret a s' sch" for sch using r1(1) r2(1) by simp
    moreover have "file_step s i bs {bn} 2 s' bs'" using file_step_trans [OF st1 r2(5)] by (simp add: numeral_2_eq_2)
    moreover have "content s1 a = content s a" if nz: "fb s i bn \<noteq> 0"
    proof -
      have "fb s' i bn = fb s1 i bn" using r2(5) bn nz z1 by (simp add: file_step_def)
      then have "good s a" "a \<noteq> ind s i" using f bn nz z1 r2(3) by (auto simp: file_ok_def)
      then show ?thesis using st1 by (simp add: file_step_def)
    qed
    ultimately show ?thesis using r2(2-4) z1 by (intro exI [of _ a] exI [of _ s'] exI [of _ bs']) simp
  qed
qed


section \<open>Writing a block of a file\<close>

lemma data_write:
  assumes fs: "fs_ok s bs" and f: "file_ok s i" and bn: "bn < MAXFILE" "fb s i bn \<noteq> 0"
    and t: "tstep {} s ((content s)(fb s i bn := d)) cs u" "cs = log_add (fb s i bn) bs"
  shows "file_step s i bs {bn} 0 u cs \<and> fb u i = fb s i \<and> content u (fb s i bn) = d"
proof -
  let ?a = "fb s i bn"
  have e: "same s u" "content u = (content s)(?a := d)" "tx {} u cs" using t(1) by (simp_all add: tstep_def)
  have ga: "good s ?a" "?a \<noteq> ind s i" using f bn by (simp_all add: file_ok_def)
  have ab: "?a \<notin> bmaps s" using ga(1) bmaps_meta by (auto simp: good_def)
  have m: "meta u = meta s" "nblk u = nblk s" "bmaps u = bmaps s" "ino i u = ino i s" "ind u i = ind s i" "sb u = sb s" "fs_geo u = fs_geo s"
    using e(1) same_meta [OF e(1)] by (simp_all add: same_def nblk_def bmaps_def ino_def ind_def)
  have us: "used (content u) (sb s) b = used (content s) (sb s) b" if "b < nblk s" for b
  proof -
    have "BBLOCK (of_nat b) (sb s) \<in> bmaps s" using that by (auto simp: bmaps_def)
    then have "BBLOCK (of_nat b) (sb s) \<noteq> ?a" using ab by metis
    then show ?thesis by (simp add: used_def e(2))
  qed
  have gu: "good u = good s" using us m by (intro ext) (auto simp: good_def)
  have fu: "fb u i = fb s i" using ga(2) m e(2) by (intro ext) (simp add: fb_def)
  have fr: "frame s i u" using e(1) by (simp add: frame_def same_def) (simp add: ino_def)
  have fk: "file_ok u i" using f fu gu m e(1) by (simp add: file_ok_def same_def)
  have nf: "nfree u = nfree s" using us m by (simp add: nfree_def) (metis (no_types, lifting))
  have "meta_used u" using fs us m by (simp add: fs_ok_def meta_used_def nblk_def)
  then have "fs_ok u cs" using fs e(3) m by (simp add: fs_ok_def)
  moreover have "content u x = content s x" if "x \<in> meta s" for x using that ga(1) e(2) by (auto simp: good_def)
  ultimately have "file_step s i bs {bn} 0 u cs"
    using fk fr fu m nf gu t(2) e(2) by (auto simp: file_step_def)
  then show ?thesis using fu e(2) by simp
qed

lemma write_chunk:
  assumes fs: "fs_ok s bs" and f: "file_ok s i" and bn: "bn < MAXFILE" and l: "2 \<le> nfree s" "cap s i bs < 28" and o: "p + length xs \<le> 512"
  shows "\<exists>a s1 q s2 t1 t2 u cs. (\<forall>sch. bmap i bn s sch = Ret a s1 sch) \<and> i_dev (ino i s) = 1 \<and> (\<forall>sch. bread 1 a s1 sch = Ret q s2 sch) \<and>
    (\<forall>sch. set_data q (splice_at p xs) s2 sch = Ret () t1 sch) \<and> (\<forall>sch. log_write q t1 sch = Ret () t2 sch) \<and> (\<forall>sch. brelse q t2 sch = Ret () u sch) \<and>
    file_step s i bs {bn} 2 u cs \<and> fb u i bn \<noteq> 0 \<and>
    content u (fb u i bn) = splice_at p xs (if fb s i bn = 0 then replicate BSIZE 0 else content s (fb s i bn))"
proof -
  obtain a s1 cs where r: "\<forall>sch. bmap i bn s sch = Ret a s1 sch" "a \<noteq> 0" "fb s1 i bn = a"
      "content s1 a = (if fb s i bn = 0 then replicate BSIZE 0 else content s a)" and st: "file_step s i bs {bn} 2 s1 cs"
    using bmap_spec [OF fs f bn l] by blast
  have fs1: "fs_ok s1 cs" "file_ok s1 i" "tx {} s1 cs" "fs_geo s1" using st by (simp_all add: file_step_def fs_ok_def)
  have ga: "good s1 a" using fs1(2) bn r(2,3) by (auto simp: file_ok_def)
  have "cap s1 i cs \<le> Suc (cap s i bs)" using cap_step [OF st] by simp
  then have lc: "length cs < 29" "length cs + card ({} :: nat set) < NBUF" using file_blocks_cap [OF fs1(1), of i] l(2) by (simp_all add: NBUF_def)
  have len: "length (splice_at p xs (content s1 a)) = BSIZE" using o tx_len [OF fs1(3)] by (simp add: BSIZE_def)
  have "\<forall>j\<in>{}. b_blockno (bufs s1 ! j) \<noteq> a" by simp
  from rewrite_block [where f = "splice_at p xs", OF fs1(3) good_disk [OF fs1(4) ga] this lc good_not_log [OF ga] len]
  obtain q s2 t1 t2 u where w: "\<forall>sch. bread 1 a s1 sch = Ret q s2 sch" "\<forall>sch. set_data q (splice_at p xs) s2 sch = Ret () t1 sch"
      "\<forall>sch. log_write q t1 sch = Ret () t2 sch" "\<forall>sch. brelse q t2 sch = Ret () u sch"
      "tstep {} s1 ((content s1)(a := splice_at p xs (content s1 a))) (log_add a cs) u"
    by (elim exE conjE) (rule that)
  have dw: "file_step s1 i cs {bn} 0 u (log_add a cs)" "fb u i = fb s1 i" "content u a = splice_at p xs (content s1 a)"
    using data_write [OF fs1(1,2) bn, unfolded r(3), OF r(2) w(5) refl] by blast+
  have "file_step s i bs ({bn} \<union> {bn}) (2 + 0) u (log_add a cs)" by (rule file_step_trans [OF st dw(1)]) (use bn r(2,3) in simp)
  then have e1: "file_step s i bs {bn} 2 u (log_add a cs)" by simp
  have e2: "fb u i bn = a" using dw(2) r(3) by simp
  have "fb s i bn \<noteq> 0 \<longrightarrow> a = fb s i bn" using st bn r(3) unfolding file_step_def by metis
  then have e3: "content u (fb u i bn) = splice_at p xs (if fb s i bn = 0 then replicate BSIZE 0 else content s (fb s i bn))"
    using dw(3) r(4) e2 by (cases "fb s i bn = 0") simp_all
  have e4: "fb u i bn \<noteq> 0" "i_dev (ino i s) = 1" using e2 r(2) f by (simp_all add: file_ok_def)
  show ?thesis using r(1) w(1-4) e1 e3 e4 by blast
qed

section \<open>The bytes of a file\<close>

definition fbyte :: "fsys \<Rightarrow> nat \<Rightarrow> nat \<Rightarrow> uchar" where
  "fbyte s i k = content s (fb s i (k div 512)) ! (k mod 512)"

text \<open>Blocks that a step has not touched keep their bytes.\<close>

lemma fbyte_step:
  assumes st: "file_step s i bs T c u cs" and f: "file_ok s i" and k: "k div 512 < MAXFILE" "fb s i (k div 512) \<noteq> 0" "k div 512 \<notin> T" "\<forall>bn\<in>T. bn < MAXFILE"
  shows "fbyte u i k = fbyte s i k"
proof -
  let ?a = "fb s i (k div 512)"
  have e: "fb u i (k div 512) = ?a" using st k by (simp add: file_step_def)
  have "file_ok u i" using st by (simp add: file_step_def)
  then have "fb u i bn \<noteq> ?a" if "bn \<in> T" for bn using that k e unfolding file_ok_def by metis
  then have "?a \<notin> fb u i ` T" by (metis imageE)
  moreover have "good s ?a" "?a \<noteq> ind s i" using f k by (auto simp: file_ok_def)
  ultimately show ?thesis using st e by (simp add: fbyte_def file_step_def)
qed


lemma nth_splice:
  assumes "p + length xs \<le> length d" "k < length d"
  shows "splice_at p xs d ! k = (if p \<le> k \<and> k < p + length xs then xs ! (k - p) else d ! k)"
  by (rule nth_splice_at [OF assms])

text \<open>The bytes after one block has been written: the positions \<open>off\<close> to \<open>off + length xs\<close>, all in
  block \<open>bn\<close>.\<close>

lemma chunk_bytes:
  assumes st: "file_step s i bs {bn} c u cs" and fs: "fs_ok s bs" and f: "file_ok s i" and bn: "bn < MAXFILE" "bn = off div 512" "fb u i bn \<noteq> 0"
    and len: "off mod 512 + length xs \<le> 512"
    and c: "content u (fb u i bn) = splice_at (off mod 512) xs (if fb s i bn = 0 then replicate BSIZE 0 else content s (fb s i bn))"
  shows "off \<le> k \<Longrightarrow> k < off + length xs \<Longrightarrow> k div 512 = bn \<and> fbyte u i k = xs ! (k - off)"
    "k div 512 < MAXFILE \<Longrightarrow> fb s i (k div 512) \<noteq> 0 \<Longrightarrow> \<not> (off \<le> k \<and> k < off + length xs) \<Longrightarrow> fbyte u i k = fbyte s i k"
proof -
  let ?d = "if fb s i bn = 0 then replicate BSIZE 0 else content s (fb s i bn)" and ?p = "off mod 512"
  have ld: "length ?d = 512" using fs tx_len [of "{}" s bs] by (simp add: fs_ok_def BSIZE_def)
  have off: "off = 512 * bn + ?p" using bn(2) by simp
  have at: "fbyte u i k = (if ?p \<le> k mod 512 \<and> k mod 512 < ?p + length xs then xs ! (k mod 512 - ?p) else ?d ! (k mod 512))" if "k div 512 = bn" for k
    using nth_splice [of ?p xs ?d "k mod 512"] len ld c that by (simp add: fbyte_def)
  have k: "k = 512 * bn + k mod 512" if "k div 512 = bn" for k using that by (metis div_mult_mod_eq mult.commute)
  show "k div 512 = bn \<and> fbyte u i k = xs ! (k - off)" if "off \<le> k" "k < off + length xs"
  proof -
    have "k div 512 = bn"
    proof (rule div_nat_eqI)
      show "512 * bn \<le> k" using that(1) off by linarith
      show "k < 512 * Suc bn" using that(2) off len unfolding mult_Suc_right by linarith
    qed
    moreover from this have "?p \<le> k mod 512" "k mod 512 < ?p + length xs" "k mod 512 - ?p = k - off"
      using k [of k] that off by linarith+
    ultimately show ?thesis using at [of k] by simp
  qed
  show "fbyte u i k = fbyte s i k" if "k div 512 < MAXFILE" "fb s i (k div 512) \<noteq> 0" "\<not> (off \<le> k \<and> k < off + length xs)"
  proof (cases "k div 512 = bn")
    case True
    then have "\<not> (?p \<le> k mod 512 \<and> k mod 512 < ?p + length xs)" using k [of k] that(3) off by linarith
    then have "fbyte u i k = ?d ! (k mod 512)" by (simp only: at [OF True] if_False)
    then show ?thesis using that(2) True by (simp add: fbyte_def)
  next
    case False
    then show ?thesis using fbyte_step [OF st f that(1,2)] bn(1) by simp
  qed
qed

section \<open>Writing\<close>

definition touched :: "nat \<Rightarrow> nat \<Rightarrow> nat set" where
  "touched off n = (\<lambda>c. fst c div 512) ` set (chunks off n)"

definition written :: "fsys \<Rightarrow> nat \<Rightarrow> uint32 list \<Rightarrow> nat \<Rightarrow> nat \<Rightarrow> bytes \<Rightarrow> fsys \<Rightarrow> uint32 list \<Rightarrow> bool" where
  "written s i bs off n src u cs \<longleftrightarrow> file_step s i bs (touched off n) (2 * length (chunks off n)) u cs \<and>
     (\<forall>k. off \<le> k \<longrightarrow> k < off + n \<longrightarrow> fb u i (k div 512) \<noteq> 0 \<and> fbyte u i k = src ! (k - off)) \<and>
     (\<forall>k. k div 512 < MAXFILE \<longrightarrow> fb s i (k div 512) \<noteq> 0 \<longrightarrow> \<not> (off \<le> k \<and> k < off + n) \<longrightarrow> fbyte u i k = fbyte s i k)"

lemma chunks_Cons:
  assumes "n \<noteq> 0" "m = min n (512 - off mod 512)"
  shows "chunks off n = (off, m) # chunks (off + m) (n - m)" "0 < m" "m \<le> n" "off mod 512 + m \<le> 512"
proof -
  have "off mod 512 < 512" by simp
  then show "0 < m" "m \<le> n" "off mod 512 + m \<le> 512" using assms by auto
  show "chunks off n = (off, m) # chunks (off + m) (n - m)" using assms by (subst chunks.simps) (simp add: Let_def)
qed

lemma chunks_0 [simp]: "chunks off 0 = []"
  by (subst chunks.simps) simp

lemma touched_bound: "off + n \<le> 512 * MAXFILE \<Longrightarrow> \<forall>bn\<in>touched off n. bn < MAXFILE"
proof (induction off n rule: chunks.induct)
  case (1 off n)
  show ?case
  proof (cases "n = 0")
    case False
    define m where "m = min n (512 - off mod 512)"
    note c = chunks_Cons [OF False m_def]
    have "\<forall>bn\<in>touched (off + m) (n - m). bn < MAXFILE" using 1 False m_def c(3) by simp
    moreover have "off div 512 < MAXFILE" using 1 c(2,3) by (simp add: less_mult_imp_div_less)
    ultimately show ?thesis by (simp add: touched_def c(1))
  qed (simp add: touched_def)
qed

lemma writei_loop_spec:
  assumes "fs_ok s bs" "file_ok s i" "off + n \<le> 512 * MAXFILE" "n \<le> length src" "2 * length (chunks off n) \<le> nfree s"
    "cap s i bs + length (chunks off n) \<le> 28"
  shows "\<exists>u cs. (\<forall>sch. writei_loop i (chunks off n) src s sch = Ret () u sch) \<and> written s i bs off n src u cs"
  using assms
proof (induction off n arbitrary: s bs src rule: chunks.induct)
  case (1 off n)
  show ?case
  proof (cases "n = 0")
    case True
    have "file_step s i bs {} 0 s bs" using same_file_step [OF 1(2,3) tstep_refl] 1(2) by (simp add: fs_ok_def)
    then show ?thesis using True by (intro exI [of _ s] exI [of _ bs]) (simp add: written_def touched_def)
  next
    case False
    define m where "m = min n (512 - off mod 512)"
    note c = chunks_Cons [OF False m_def]
    let ?bn = "off div 512" and ?xs = "take m src"
    have lx: "length ?xs = m" using c(3) 1(5) by simp
    have bn: "?bn < MAXFILE" using 1(4) c(2,3) by (simp add: less_mult_imp_div_less)
    have cc: "2 \<le> nfree s" "cap s i bs < 28" using 1(6,7) c(1) by simp_all
    obtain a s1 q s2 t1 t2 t cs where w: "\<forall>sch. bmap i ?bn s sch = Ret a s1 sch" "i_dev (ino i s) = 1" "\<forall>sch. bread 1 a s1 sch = Ret q s2 sch"
        "\<forall>sch. set_data q (splice_at (off mod 512) ?xs) s2 sch = Ret () t1 sch" "\<forall>sch. log_write q t1 sch = Ret () t2 sch" "\<forall>sch. brelse q t2 sch = Ret () t sch"
      and st: "file_step s i bs {?bn} 2 t cs" and nz: "fb t i ?bn \<noteq> 0"
      and ct: "content t (fb t i ?bn) = splice_at (off mod 512) ?xs (if fb s i ?bn = 0 then replicate BSIZE 0 else content s (fb s i ?bn))"
      using write_chunk [OF 1(2,3) bn cc, of "off mod 512" ?xs] c(4) lx by metis
    have lm: "off mod 512 + length ?xs \<le> 512" using lx c(4) by simp
    note cb = chunk_bytes [OF st 1(2,3) bn refl nz lm ct, unfolded lx]
    have fs1: "fs_ok t cs" "file_ok t i" "nfree s \<le> nfree t + 2" using st by (simp_all add: file_step_def)
    have p: "off + m + (n - m) \<le> 512 * MAXFILE" "n - m \<le> length (drop m src)" "2 * length (chunks (off + m) (n - m)) \<le> nfree t"
        "cap t i cs + length (chunks (off + m) (n - m)) \<le> 28"
      using 1(4-7) c fs1(3) cap_step [OF st] by simp_all
    obtain u ds where r: "\<forall>sch. writei_loop i (chunks (off + m) (n - m)) (drop m src) t sch = Ret () u sch"
        and wr: "written t i cs (off + m) (n - m) (drop m src) u ds"
      using 1(1) [OF False m_def fs1(1,2) p] by blast
    have st2: "file_step t i cs (touched (off + m) (n - m)) (2 * length (chunks (off + m) (n - m))) u ds" using wr by (simp add: written_def)
    have run: "writei_loop i (chunks off n) src s sch = Ret () u sch" for sch using w r c(1) by simp
    have "file_step s i bs ({?bn} \<union> touched (off + m) (n - m)) (2 + 2 * length (chunks (off + m) (n - m))) u ds"
      by (rule file_step_trans [OF st st2]) (use bn nz in simp)
    then have "file_step s i bs (touched off n) (2 * length (chunks off n)) u ds" by (simp add: touched_def c(1))
    moreover have "fb u i (k div 512) \<noteq> 0 \<and> fbyte u i k = src ! (k - off)" if k: "off \<le> k" "k < off + n" for k
    proof (cases "k < off + m")
      case True
      have kb: "k div 512 = ?bn" "fbyte t i k = src ! (k - off)" using cb(1) [OF k(1) True] True k(1) by auto
      have "fbyte u i k = fbyte t i k" using wr kb(1) bn nz True by (simp add: written_def)
      moreover have "fb u i ?bn \<noteq> 0" using st2 bn nz by (simp add: file_step_def)
      ultimately show ?thesis using kb by simp
    next
      case ge: False
      then have "fb u i (k div 512) \<noteq> 0 \<and> fbyte u i k = drop m src ! (k - (off + m))" using wr k c(3) by (simp add: written_def)
      moreover have "drop m src ! (k - (off + m)) = src ! (k - off)" using ge lx k 1(5) c(3) by (simp add: nth_drop)
      ultimately show ?thesis by simp
    qed
    moreover have "fbyte u i k = fbyte s i k" if k: "k div 512 < MAXFILE" "fb s i (k div 512) \<noteq> 0" "\<not> (off \<le> k \<and> k < off + n)" for k
    proof -
      have "fbyte t i k = fbyte s i k" using cb(2) [OF k(1,2)] k(3) c(3) by auto
      moreover have "fb t i (k div 512) \<noteq> 0" using st k by (simp add: file_step_def)
      ultimately show ?thesis using wr k c(3) by (simp add: written_def)
    qed
    ultimately have "written s i bs off n src u ds" by (simp add: written_def)
    then show ?thesis using run by blast
  qed
qed

section \<open>Reading\<close>

lemma read_block:
  assumes fs: "fs_ok s bs" and g: "good s b" and l: "length bs < NBUF"
  shows "\<exists>p s1 s2. (\<forall>sch. bread 1 b s sch = Ret p s1 sch) \<and> (\<forall>sch. get_data p s1 sch = Ret (content s b) s1 sch) \<and>
    (\<forall>sch. brelse p s1 sch = Ret () s2 sch) \<and> tstep {} s (content s) bs s2"
proof -
  have tx: "tx {} s bs" "fs_geo s" using fs by (simp_all add: fs_ok_def)
  have "b \<in> set bs \<or> length bs + card ({} :: nat set) < NBUF" using l by simp
  then obtain p s1 where r: "\<forall>sch. bread 1 b s sch = Ret p s1 sch" and ac: "access {} s bs b p s1"
    using bread_access [OF tx(1) good_disk [OF tx(2) g]] by auto
  then show ?thesis using access_data [OF ac] access_release [OF ac] by blast
qed

lemma bmap_mapped:
  assumes fs: "fs_ok s bs" and f: "file_ok s i" and bn: "bn < MAXFILE" "fb s i bn \<noteq> 0" and l: "length bs < NBUF"
  shows "\<exists>s'. (\<forall>sch. bmap i bn s sch = Ret (fb s i bn) s' sch) \<and> tstep {} s (content s) bs s'"
proof (cases "bn < NDIRECT")
  case True
  then have "bmap i bn s sch = Ret (fb s i bn) s sch" for sch using bn by (simp add: bmap_def get_addr_def fb_def)
  moreover have "tstep {} s (content s) bs s" using fs by (intro tstep_refl) (simp add: fs_ok_def)
  ultimately show ?thesis by blast
next
  case ge: False
  have I: "ind s i \<noteq> 0" using fb_indirect [of bn s i] ge bn by simp
  then have gI: "good s (ind s i)" and d: "i_dev (ino i s) = 1" using f by (simp_all add: file_ok_def)
  have e: "rd32 (content s (ind s i)) (4 * (bn - NDIRECT)) = fb s i bn" using I ge by (simp add: fb_def)
  obtain p s1 s2 where r: "\<forall>sch. bread 1 (ind s i) s sch = Ret p s1 sch" "\<forall>sch. get_data p s1 sch = Ret (content s (ind s i)) s1 sch"
    "\<forall>sch. brelse p s1 sch = Ret () s2 sch" and t: "tstep {} s (content s) bs s2"
    using read_block [OF fs gI l] by blast
  have "bn - NDIRECT < NINDIRECT" using ge bn by simp
  then have "bmap i bn s sch = Ret (fb s i bn) s2 sch" for sch
    using ge d I e bn(2) r by (simp add: bmap_def get_addr_def ind_def Let_def)
  then show ?thesis using t by blast
qed

lemma readi_loop_spec:
  assumes "fs_ok s bs" "file_ok s i" "off + n \<le> 512 * MAXFILE" "\<forall>k. off \<le> k \<longrightarrow> k < off + n \<longrightarrow> fb s i (k div 512) \<noteq> 0" "length bs < NBUF"
  shows "\<exists>u. (\<forall>sch. readi_loop i (chunks off n) s sch = Ret (map (fbyte s i) [off..<off + n]) u sch) \<and> tstep {} s (content s) bs u"
  using assms
proof (induction off n arbitrary: s rule: chunks.induct)
  case (1 off n)
  show ?case
  proof (cases "n = 0")
    case True
    then show ?thesis using tstep_refl [of "{}" s bs] 1(2) by (intro exI [of _ s]) (simp add: fs_ok_def)
  next
    case False
    define m where "m = min n (512 - off mod 512)"
    note c = chunks_Cons [OF False m_def]
    let ?bn = "off div 512"
    have bn: "?bn < MAXFILE" "fb s i ?bn \<noteq> 0" using 1(4,5) c(2,3) by (auto simp: less_mult_imp_div_less)
    obtain s1 where r1: "\<forall>sch. bmap i ?bn s sch = Ret (fb s i ?bn) s1 sch" and t1: "tstep {} s (content s) bs s1"
      using bmap_mapped [OF 1(2,3) bn 1(6)] by blast
    have e1: "content s1 = content s" "same s s1" using t1 by (simp_all add: tstep_def)
    note f1 = same_file [OF e1(2,1)]
    have st1: "fs_ok s1 bs" "file_ok s1 i" using same_file_step [OF 1(2,3) t1] by (simp_all add: file_step_def)
    have g: "good s1 (fb s i ?bn)" "i_dev (ino i s) = 1" using 1(3) bn f1(3) by (auto simp: file_ok_def)
    obtain p s2 s3 where r2: "\<forall>sch. bread 1 (fb s i ?bn) s1 sch = Ret p s2 sch" "\<forall>sch. get_data p s2 sch = Ret (content s (fb s i ?bn)) s2 sch"
      "\<forall>sch. brelse p s2 sch = Ret () s3 sch" and t3: "tstep {} s1 (content s) bs s3"
      using read_block [OF st1(1) g(1) 1(6)] e1(1) by auto
    have t13: "tstep {} s (content s) bs s3" by (rule tstep_trans [OF t1 t3])
    then have e3: "content s3 = content s" "same s s3" by (simp_all add: tstep_def)
    note f3 = same_file [OF e3(2,1)]
    have st3: "fs_ok s3 bs" "file_ok s3 i" using same_file_step [OF 1(2,3) t13] by (simp_all add: file_step_def)
    have fby: "fbyte s3 i = fbyte s i" using f3(1) e3(1) by (simp add: fun_eq_iff fbyte_def)
    obtain u where r4: "\<forall>sch. readi_loop i (chunks (off + m) (n - m)) s3 sch = Ret (map (fbyte s i) [off + m..<off + n]) u sch"
      and t4: "tstep {} s3 (content s) bs u"
      using 1(1) [OF False m_def st3] 1(4-6) c(3) f3(1) e3(1) fby by auto
    have "take m (drop (off mod 512) (content s (fb s i ?bn))) = map (fbyte s i) [off..<off + m]"
    proof (intro nth_equalityI)
      have len: "length (content s (fb s i ?bn)) = 512" using 1(2) tx_len by (auto simp: fs_ok_def BSIZE_def)
      then show "length (take m (drop (off mod 512) (content s (fb s i ?bn)))) = length (map (fbyte s i) [off..<off + m])" using c(4) by simp
      fix j assume "j < length (take m (drop (off mod 512) (content s (fb s i ?bn))))"
      then have j: "j < m" by simp
      have "(off + j) div 512 = ?bn" "(off + j) mod 512 = off mod 512 + j"
      proof -
        have "off + j = ?bn * 512 + (off mod 512 + j)" by simp
        moreover have "off mod 512 + j < 512" using j c(4) by simp
        ultimately show "(off + j) div 512 = ?bn" "(off + j) mod 512 = off mod 512 + j"
          by (metis div_mult_self3 div_less add_0_right zero_neq_numeral, metis mod_mult_self3 mod_less)
      qed
      then show "take m (drop (off mod 512) (content s (fb s i ?bn))) ! j = map (fbyte s i) [off..<off + m] ! j" using j c(4) len by (simp add: fbyte_def)
    qed
    moreover have "[off..<off + n] = [off..<off + m] @ [off + m..<off + n]" using c(3) upt_add_eq_append [of off "off + m" "n - m"] by simp
    ultimately have "readi_loop i (chunks off n) s sch = Ret (map (fbyte s i) [off..<off + n]) u sch" for sch
      using c(1) r1 r2 r4 g(2) by simp
    then show ?thesis using tstep_trans [OF t13 t4] by blast
  qed
qed


section \<open>The size, and the inode on the disk\<close>

lemma size_upd:
  fixes z :: uint32
  assumes f: "file_ok s i"
  defines "u \<equiv> ino_upd i (\<lambda>ip. ip\<lparr>i_d := (i_d ip)\<lparr>di_size := z\<rparr>\<rparr>) s"
  shows "fs_ok u bs = fs_ok s bs" "file_ok u i" "fb u i = fb s i" "fbyte u i = fbyte s i" "ind u i = ind s i"
    "i_d (ino i u) = (i_d (ino i s))\<lparr>di_size := z\<rparr>" "i_inum (ino i u) = i_inum (ino i s)" "content u = content s" "sb u = sb s"
proof -
  have i: "i < length (inodes s)" using f by (simp add: file_ok_def)
  then show I: "ind u i = ind s i" "i_d (ino i u) = (i_d (ino i s))\<lparr>di_size := z\<rparr>" "i_inum (ino i u) = i_inum (ino i s)"
    by (simp_all add: u_def ind_def)
  show c: "content u = content s" "sb u = sb s" "fs_ok u bs = fs_ok s bs" by (simp_all add: u_def fs_ok_def)
  show F: "fb u i = fb s i" using I(1,2) c(1) by (simp add: fun_eq_iff fb_def)
  then show "fbyte u i = fbyte s i" using c by (simp add: fun_eq_iff fbyte_def)
  show "file_ok u i" using f i I F by (simp add: file_ok_def) (simp add: u_def)
qed

text \<open>A write to a block of inodes leaves the map and every file alone.\<close>

lemma meta_write:
  assumes fs: "fs_ok s bs" and f: "file_ok s i" and b: "b \<in> meta s" "b \<notin> bmaps s" and t: "tstep {} s ((content s)(b := d)) cs u"
  shows "fs_ok u cs" "file_ok u i" "fb u i = fb s i" "\<forall>k. k div 512 < MAXFILE \<longrightarrow> fb s i (k div 512) \<noteq> 0 \<longrightarrow> fbyte u i k = fbyte s i k"
    "ino i u = ino i s"
proof -
  have e: "same s u" "content u = (content s)(b := d)" "tx {} u cs" using t by (simp_all add: tstep_def)
  have m: "meta u = meta s" "nblk u = nblk s" "ino i u = ino i s" "ind u i = ind s i" "sb u = sb s" "fs_geo u = fs_geo s" "inodes u = inodes s"
    using e(1) same_meta [OF e(1)] by (simp_all add: same_def nblk_def ino_def ind_def)
  have us: "used (content u) (sb s) c = used (content s) (sb s) c" if "c < nblk s" for c
  proof -
    have "BBLOCK (of_nat c) (sb s) \<in> bmaps s" using that by (auto simp: bmaps_def)
    then have "BBLOCK (of_nat c) (sb s) \<noteq> b" using b(2) by metis
    then show ?thesis by (simp add: used_def e(2))
  qed
  have gu: "good u = good s" using us m by (intro ext) (auto simp: good_def)
  have nb: "\<not> good s b" using b(1) by (simp add: good_def)
  have "ind s i \<noteq> 0 \<Longrightarrow> ind s i \<noteq> b" using f nb by (auto simp: file_ok_def)
  then show fu: "fb u i = fb s i" using m e(2) by (intro ext) (simp add: fb_def)
  show "file_ok u i" using f fu gu m by (simp add: file_ok_def)
  show "ino i u = ino i s" by (rule m(3))
  have "meta_used u" using fs us m by (simp add: fs_ok_def meta_used_def nblk_def)
  then show "fs_ok u cs" using fs e(3) m by (simp add: fs_ok_def)
  show "\<forall>k. k div 512 < MAXFILE \<longrightarrow> fb s i (k div 512) \<noteq> 0 \<longrightarrow> fbyte u i k = fbyte s i k"
  proof (intro allI impI)
    fix k assume k: "k div 512 < MAXFILE" "fb s i (k div 512) \<noteq> 0"
    then have "fb s i (k div 512) \<noteq> b" using f nb by (auto simp: file_ok_def)
    then show "fbyte u i k = fbyte s i k" using fu e(2) by (simp add: fbyte_def)
  qed
qed

lemma length_le32s: "length (concat (map le32 as)) = 4 * length as"
  by (induction as) (simp_all add: le32_def)

lemma inode_block:
  assumes "fs_geo s" "n < sb_ninodes (sb s)"
  shows "IBLOCK n (sb s) \<in> meta s" "IBLOCK n (sb s) \<notin> bmaps s" "IBLOCK n (sb s) < disksize s" "\<forall>k\<le>29. IBLOCK n (sb s) \<noteq> log_block s k"
proof -
  have "\<forall>b<nblk s. BBLOCK (of_nat b) (sb s) \<noteq> IBLOCK n (sb s)" using assms by (simp add: fs_geo_def nblk_def)
  then have "IBLOCK n (sb s) \<noteq> BBLOCK (of_nat b) (sb s)" if "b < nblk s" for b using that by metis
  then show "IBLOCK n (sb s) \<notin> bmaps s" by (simp add: bmaps_def image_iff)
  show m: "IBLOCK n (sb s) \<in> meta s" using assms(2) by (simp add: meta_def)
  then show "IBLOCK n (sb s) < disksize s" "\<forall>k\<le>29. IBLOCK n (sb s) \<noteq> log_block s k" using assms by (simp_all add: fs_geo_def)
qed

lemma iupdate_spec:
  assumes fs: "fs_ok s bs" and f: "file_ok s i" and n: "i_inum (ino i s) < sb_ninodes (sb s)" and l: "length bs < 29"
  shows "\<exists>u. (\<forall>sch. iupdate i s sch = Ret () u sch) \<and> fs_ok u (log_add (IBLOCK (i_inum (ino i s)) (sb s)) bs) \<and> file_ok u i \<and> fb u i = fb s i \<and>
    ino i u = ino i s \<and> (\<forall>k. k div 512 < MAXFILE \<longrightarrow> fb s i (k div 512) \<noteq> 0 \<longrightarrow> fbyte u i k = fbyte s i k)"
proof -
  let ?b = "IBLOCK (i_inum (ino i s)) (sb s)" and ?f = "splice_at (dinode_at (i_inum (ino i s))) (dinode_bytes (i_d (ino i s)))"
  have tx: "tx {} s bs" "fs_geo s" using fs by (simp_all add: fs_ok_def)
  note ib = inode_block [OF tx(2) n]
  have "length (di_addrs (i_d (ino i s))) = 13" "i_dev (ino i s) = 1" using f by (simp_all add: file_ok_def)
  then have d: "length (dinode_bytes (i_d (ino i s))) = 64" "i_dev (ino i s) = 1" by (simp_all add: dinode_bytes_def length_le32s)
  have "unat (i_inum (ino i s) mod IPB) < 8" by (simp add: unat_mod)
  then have len: "length (?f (content s ?b)) = BSIZE" using d(1) tx_len [OF tx(1), of ?b] by (simp add: dinode_at_def BSIZE_def)
  have l': "length bs < 29" "length bs + card ({} :: nat set) < NBUF" using l by (simp_all add: NBUF_def)
  have "\<forall>j\<in>{}. b_blockno (bufs s ! j) \<noteq> ?b" by simp
  from rewrite_block [where f = ?f, OF tx(1) ib(3) this l' ib(4) len]
  obtain q s1 t1 t2 u where w: "\<forall>sch. bread 1 ?b s sch = Ret q s1 sch" "same s s1" "\<forall>sch. set_data q ?f s1 sch = Ret () t1 sch"
      "\<forall>sch. log_write q t1 sch = Ret () t2 sch" "\<forall>sch. brelse q t2 sch = Ret () u sch"
      "tstep {} s ((content s)(?b := ?f (content s ?b))) (log_add ?b bs) u"
    by (elim exE conjE) (rule that)
  have "ino i s1 = ino i s" using w(2) by (simp add: same_def ino_def)
  then have "iupdate i s sch = Ret () u sch" for sch using w d(2) by (simp add: iupdate_def Let_def)
  then show ?thesis using meta_write [OF fs f ib(1,2) w(6)] by blast
qed

lemma touched_card: "finite (touched off n)" "card (touched off n) \<le> length (chunks off n)"
proof -
  show "finite (touched off n)" by (simp add: touched_def)
  have "card (touched off n) \<le> card (set (chunks off n))" unfolding touched_def by (rule card_image_le) simp
  then show "card (touched off n) \<le> length (chunks off n)" using card_length le_trans by blast
qed

lemma frame_fields:
  assumes "frame s i t"
  shows "di_size (i_d (ino i t)) = di_size (i_d (ino i s))" "di_type (i_d (ino i t)) = di_type (i_d (ino i s))" "i_inum (ino i t) = i_inum (ino i s)"
proof -
  have n: "di_size (i_d (no_addrs ip)) = di_size (i_d ip)" "di_type (i_d (no_addrs ip)) = di_type (i_d ip)" "i_inum (no_addrs ip) = i_inum ip" for ip
    by (simp_all add: no_addrs_def)
  have "no_addrs (ino i t) = no_addrs (ino i s)" using assms by (simp add: frame_def)
  then show "di_size (i_d (ino i t)) = di_size (i_d (ino i s))" "di_type (i_d (ino i t)) = di_type (i_d (ino i s))" "i_inum (ino i t) = i_inum (ino i s)"
    using n by metis+
qed

text \<open>The state after \<open>writei\<close> of \<open>n\<close> bytes of \<open>src\<close> at \<open>off\<close>: the bytes are in the file, the others are what they were,
  the size covers them, and the log has grown by at most the map, the indirect block, the data
  blocks and the block of the inode.\<close>

definition file_written :: "fsys \<Rightarrow> nat \<Rightarrow> uint32 list \<Rightarrow> nat \<Rightarrow> nat \<Rightarrow> bytes \<Rightarrow> fsys \<Rightarrow> uint32 list \<Rightarrow> bool" where
  "file_written s i bs off n src u cs \<longleftrightarrow> fs_ok u cs \<and> file_ok u i \<and> length cs \<le> cap s i bs + length (chunks off n) + 1 \<and>
     unat (di_size (i_d (ino i u))) = max (unat (di_size (i_d (ino i s)))) (off + n) \<and> di_type (i_d (ino i u)) = di_type (i_d (ino i s)) \<and>
     (\<forall>k. off \<le> k \<longrightarrow> k < off + n \<longrightarrow> fb u i (k div 512) \<noteq> 0 \<and> fbyte u i k = src ! (k - off)) \<and>
     (\<forall>k. k div 512 < MAXFILE \<longrightarrow> fb s i (k div 512) \<noteq> 0 \<longrightarrow> \<not> (off \<le> k \<and> k < off + n) \<longrightarrow> fb u i (k div 512) \<noteq> 0 \<and> fbyte u i k = fbyte s i k)"

lemma unat_file_range:
  fixes off n :: uint32
  assumes "unat off + unat n \<le> 512 * MAXFILE"
  shows "unat (off + n) = unat off + unat n" "\<not> off + n < off" "\<not> 140 * 512 < off + n" "sint n = int (unat n)"
proof -
  have "unat off + unat n < 2 ^ LENGTH(32)" using assms by simp
  then show u: "unat (off + n) = unat off + unat n" by (simp add: unat_plus_if')
  show "\<not> off + n < off" using u by (simp add: word_less_nat_alt)
  show "\<not> 140 * 512 < off + n" using u assms by (simp add: word_less_nat_alt)
  have "unat n < 2 ^ 31" using assms by simp
  then show "sint n = int (unat n)" by (rule sint_small)
qed

lemma writei_spec:
  assumes fs: "fs_ok s bs" and f: "file_ok s i" and n: "i_inum (ino i s) < sb_ninodes (sb s)" and ty: "di_type (i_d (ino i s)) \<noteq> T_DEV"
    and rng: "off \<le> di_size (i_d (ino i s))" "unat off + unat n \<le> 512 * MAXFILE" "unat n \<le> length src"
    and room: "2 * length (chunks (unat off) (unat n)) \<le> nfree s" "cap s i bs + length (chunks (unat off) (unat n)) \<le> 28"
  shows "\<exists>u cs. (\<forall>sch. writei dw i src off n s sch = Ret (int (unat n)) u sch) \<and> file_written s i bs (unat off) (unat n) src u cs"
proof -
  note w = unat_file_range [OF rng(2)]
  let ?off = "unat off" and ?n = "unat n"
  obtain t cs where r: "\<forall>sch. writei_loop i (chunks ?off ?n) src s sch = Ret () t sch" and wr: "written s i bs ?off ?n src t cs"
    using writei_loop_spec [OF fs f rng(2,3) room] by blast
  have st: "file_step s i bs (touched ?off ?n) (2 * length (chunks ?off ?n)) t cs" using wr by (simp add: written_def)
  have t: "fs_ok t cs" "file_ok t i" "frame s i t" "sb t = sb s" using st by (simp_all add: file_step_def frame_def)
  have sz: "di_size (i_d (ino i t)) = di_size (i_d (ino i s)) \<and> di_type (i_d (ino i t)) = di_type (i_d (ino i s)) \<and> i_inum (ino i t) = i_inum (ino i s)"
    using frame_fields [OF t(3)] by simp
  have nz: "fb t i (k div 512) \<noteq> 0" if "k div 512 < MAXFILE" "fb s i (k div 512) \<noteq> 0" for k using st that by (simp add: file_step_def)
  have lc: "length cs \<le> cap s i bs + length (chunks ?off ?n)"
    using cap_step [OF st touched_card(1)] touched_card(2) [of ?off ?n] file_blocks_cap [OF t(1), of i] by simp
  have kr: "k div 512 < MAXFILE" if "k < ?off + ?n" for k using that rng(2) by (simp add: less_mult_imp_div_less)
  let ?grow = "0 < n \<and> di_size (i_d (ino i t)) < off + n"
  show ?thesis
  proof (cases ?grow)
    case False
    then have "writei dw i src off n s sch = Ret (int ?n) t sch" for sch using r ty rng w sz by (auto simp: writei_def leD)
    moreover have "max (unat (di_size (i_d (ino i s)))) (?off + ?n) = unat (di_size (i_d (ino i t)))"
      using False sz rng(1) w(1) by (cases "n = 0") (simp_all add: word_less_nat_alt word_le_nat_alt max_def unat_gt_0)
    ultimately show ?thesis using t wr sz lc nz by (intro exI [of _ t] exI [of _ cs]) (simp add: file_written_def written_def)
  next
    case True
    let ?t = "ino_upd i (\<lambda>ip. ip\<lparr>i_d := (i_d ip)\<lparr>di_size := off + n\<rparr>\<rparr>) t"
    note su = size_upd [OF t(2), of "off + n"]
    have "length cs < 29" using lc room(2) by simp
    then obtain u where ru: "\<forall>sch. iupdate i ?t sch = Ret () u sch" and u: "fs_ok u (log_add (IBLOCK (i_inum (ino i ?t)) (sb ?t)) cs)" "file_ok u i" "fb u i = fb t i"
        "ino i u = ino i ?t" "\<forall>k. k div 512 < MAXFILE \<longrightarrow> fb t i (k div 512) \<noteq> 0 \<longrightarrow> fbyte u i k = fbyte t i k"
      using iupdate_spec [of ?t cs i] su t(1) n sz t(4) by auto
    have "writei dw i src off n s sch = Ret (int ?n) u sch" for sch using r ty rng w sz True ru by (simp add: writei_def leD)
    moreover have "max (unat (di_size (i_d (ino i s)))) (?off + ?n) = unat (di_size (i_d (ino i u)))"
      using True sz w(1) u(4) su(6) by (simp add: word_less_nat_alt)
    moreover have "length (log_add (IBLOCK (i_inum (ino i ?t)) (sb ?t)) cs) \<le> cap s i bs + length (chunks ?off ?n) + 1"
      using lc length_log_add [of "IBLOCK (i_inum (ino i ?t)) (sb ?t)" cs] by linarith
    ultimately show ?thesis using u wr sz nz su(6) kr
      by (intro exI [of _ u] exI [of _ "log_add (IBLOCK (i_inum (ino i ?t)) (sb ?t)) cs"]) (simp add: file_written_def written_def)
  qed
qed

text \<open>C4: Inside a transaction with enough free blocks and room in the log, \<^verbatim>\<open>writei\<close> of \<open>n\<close> bytes at an offset not
  beyond the end of a sound file returns \<open>n\<close>, and \<^verbatim>\<open>readi\<close> of the same range returns the bytes written,
  whether the blocks are direct, indirect, new or old. All other bytes of the file are unchanged, the
  size becomes the end of the range if that is larger, the file stays sound, and the log grows by at
  most one block per piece, the bit map, the indirect block and the block of the inode.\<close>

theorem writei_readi:
  assumes "fs_ok s bs" "file_ok s i" "i_inum (ino i s) < sb_ninodes (sb s)" "di_type (i_d (ino i s)) \<noteq> T_DEV"
    "off \<le> di_size (i_d (ino i s))" "unat off + unat n \<le> 512 * MAXFILE" "unat n \<le> length src"
    "2 * length (chunks (unat off) (unat n)) \<le> nfree s" "cap s i bs + length (chunks (unat off) (unat n)) \<le> 28"
  shows "\<exists>u cs v. (\<forall>sch. writei dw i src off n s sch = Ret (int (unat n)) u sch) \<and> file_written s i bs (unat off) (unat n) src u cs \<and>
    (\<forall>sch. readi dr i off n u sch = Ret (int (unat n), take (unat n) src) v sch) \<and> content v = content u"
proof -
  let ?off = "unat off" and ?n = "unat n"
  obtain u cs where w: "\<forall>sch. writei dw i src off n s sch = Ret (int ?n) u sch" and fw: "file_written s i bs ?off ?n src u cs"
    using writei_spec [OF assms] by blast
  note r = unat_file_range [OF assms(6)]
  have u: "fs_ok u cs" "file_ok u i" "length cs < NBUF" "di_type (i_d (ino i u)) \<noteq> T_DEV" "?off + ?n \<le> unat (di_size (i_d (ino i u)))"
    "\<forall>k. ?off \<le> k \<longrightarrow> k < ?off + ?n \<longrightarrow> fb u i (k div 512) \<noteq> 0" "\<forall>k. ?off \<le> k \<longrightarrow> k < ?off + ?n \<longrightarrow> fbyte u i k = src ! (k - ?off)"
    using fw assms(4,9) by (simp_all add: file_written_def NBUF_def)
  obtain v where v: "\<forall>sch. readi_loop i (chunks ?off ?n) u sch = Ret (map (fbyte u i) [?off..<?off + ?n]) v sch" "tstep {} u (content u) cs v"
    using readi_loop_spec [OF u(1,2) assms(6) u(6,3)] by blast
  have sz: "\<not> di_size (i_d (ino i u)) < off" "\<not> di_size (i_d (ino i u)) < off + n" using u(5) r(1) by (simp_all add: word_less_nat_alt)
  have "map (fbyte u i) [?off..<?off + ?n] = take ?n src" using u(7) assms(7) by (intro nth_equalityI) simp_all
  then have "readi dr i off n u sch = Ret (int ?n, take ?n src) v sch" for sch using v(1) u(4) sz r by (simp add: readi_def Let_def)
  then show ?thesis using w fw v(2) by (auto simp: tstep_def)
qed


definition demo_file :: inode where
  "demo_file = \<lparr>i_dev = 1, i_inum = 1, i_ref = 1, i_lock = initsleeplock, i_valid = True,
     i_d = \<lparr>di_type = T_FILE, di_major = 0, di_minor = 0, di_nlink = 1, di_size = 0, di_addrs = replicate 13 0\<rparr>\<rparr>"

lemma demo_free:
  assumes "sb s = demo_sb" "content s 58 = demo_fsdisk 58"
  shows "2 \<le> nfree s" "bmaps s \<subseteq> {58}"
proof -
  have B: "BBLOCK (of_nat b) (sb s) = 58" if "b < 1000" for b using that BBLOCK_group [of b "sb s"] assms(1) by (simp add: demo_sb_def)
  have n: "nblk s = 1000" using assms(1) by (simp add: nblk_def demo_sb_def)
  then show "bmaps s \<subseteq> {58}" using B by (auto simp: bmaps_def)
  have "list_all (bit_clear (replicate 7 255 @ [7] @ replicate 504 0)) [59, 60]" by code_simp
  then have "\<not> used (content s) (sb s) b" if "b \<in> {59, 60}" for b using that B [of b] assms(2) by (auto simp: used_def demo_fsdisk_def)
  then have "{59, 60} \<subseteq> {b. b < nblk s \<and> \<not> used (content s) (sb s) b}" using n by auto
  then have "card {59, 60 :: nat} \<le> nfree s" unfolding nfree_def by (intro card_mono) auto
  then show "2 \<le> nfree s" by simp
qed

theorem writei_readi_witness:
  "\<exists>s u cs v. fs_ok s [] \<and> file_ok s 0 \<and> writei (\<lambda>_. None) 0 [104, 105, 33, 0] 0 3 s [] = Ret 3 u [] \<and> file_written s 0 [] 0 3 [104, 105, 33, 0] u cs \<and>
    readi (\<lambda>_. None) 0 0 3 u [] = Ret (3, [104, 105, 33]) v []"
proof -
  obtain s where s: "tx {} s []" "sb s = demo_sb" "disksize s = 1000" "\<forall>k. log_block s k = 2 + of_nat k" "content s 58 = demo_fsdisk 58" "inodes s = [demo_file]"
    using demo_tx [of "[demo_file]"] by (auto dest: spec [of _ 58])
  note g = demo_geo [OF s(2-5)] and fr = demo_free [OF s(2,5)]
  have i: "ino 0 s = demo_file" using s(6) by (simp add: ino_def)
  have I: "ind s 0 = 0" using i by (simp add: ind_def demo_file_def)
  have "fb s 0 bn = 0" if "bn < MAXFILE" for bn using i I by (auto simp: fb_def demo_file_def)
  then have f: "file_ok s 0" using s(6) i I by (simp add: file_ok_def demo_file_def)
  have k: "fs_ok s []" using s(1) g by (simp add: fs_ok_def)
  have c: "chunks 0 3 = [(0, 3)]" using chunks_Cons(1) [of 3 3 0] by simp
  have "card (set ([] :: uint32 list) \<union> bmaps s \<union> ({ind s 0} - {0})) \<le> card {58 :: uint32}" using fr(2) I by (intro card_mono) auto
  then have cap: "cap s 0 [] + length (chunks 0 3) \<le> 28" using I c by (simp add: cap_def)
  obtain u cs v where "\<forall>sch. writei (\<lambda>_. None) 0 [104, 105, 33, 0] 0 3 s sch = Ret (int (unat (3 :: uint32))) u sch"
    "file_written s 0 [] (unat (0 :: uint32)) (unat (3 :: uint32)) [104, 105, 33, 0] u cs"
    "\<forall>sch. readi (\<lambda>_. None) 0 0 3 u sch = Ret (int (unat (3 :: uint32)), take (unat (3 :: uint32)) [104, 105, 33, 0]) v sch"
    using writei_readi [OF k f, of 0 3 "[104, 105, 33, 0]" "\<lambda>_. None" "\<lambda>_. None"] i s(2) fr(1) c cap
    by (auto simp: demo_file_def demo_sb_def)
  then show ?thesis using k f by (intro exI [of _ s] exI [of _ u] exI [of _ cs] exI [of _ v]) simp
qed

end
