(* ===== verification/Console.thy ===== *)
theory Console
  imports Pipe Inode
begin

text \<open>
  The console device: \<^verbatim>\<open>cgaputc\<close>, \<^verbatim>\<open>consputc\<close>, \<^verbatim>\<open>consoleintr\<close>, \<^verbatim>\<open>consoleread\<close> and \<^verbatim>\<open>consolewrite\<close> of
  \<^verbatim>\<open>src/console.c\<close> and \<^verbatim>\<open>uartputc\<close> of \<^verbatim>\<open>src/uart.c\<close>.

  \<open>crt\<close> is the text memory of the screen, 25 rows of 80 cells, and \<open>cursor\<close> what the registers 14 and 15 of
  the controller hold. A store outside the 25 rows is a fault of the model. \<open>uart_out\<close> is what has been sent
  to the serial port, whose transmitter is taken to become ready. \<open>keys\<close> is what \<^verbatim>\<open>getc\<close> returns before it
  returns a negative number; \<^verbatim>\<open>procdump\<close> is called after the lock has been released and is an argument.
  The inode is unlocked while a reader waits, so the state includes the file system.
\<close>

record tty =
  t_lock :: bool
  panicked :: bool
  in_buf :: bytes
  in_r :: uint32
  in_w :: uint32
  in_e :: uint32
  crt :: "ushort list"
  cursor :: nat
  uart :: bool
  uart_out :: bytes
  t_killed :: bool
  t_woken :: "chan list"
  t_fs :: fsys

type_synonym 'a tm = "(tty, 'a) km"

abbreviation BACKSPACE :: int where "BACKSPACE \<equiv> 0x100"
abbreviation INPUT_BUF :: nat where "INPUT_BUF \<equiv> 128"
abbreviation infs_t :: "'a fm \<Rightarrow> 'a tm" where "infs_t m \<equiv> zoom t_fs t_fs_update m"

section \<open>Output\<close>

definition crt_store :: "nat \<Rightarrow> ushort \<Rightarrow> unit tm" where
  "crt_store k v =
     bnd (gets crt) (\<lambda>cs.
     thn (requirek (k < length cs) (OutOfBounds ''crt''))
     (upd (\<lambda>s. s\<lparr>crt := cs[k := v]\<rparr>)))"

text \<open>The \<^verbatim>\<open>memmove\<close> of 23 rows and the \<^verbatim>\<open>memset\<close> from the new position to the end of row 23.\<close>

definition scroll :: "nat \<Rightarrow> ushort list \<Rightarrow> ushort list" where
  "scroll pos cs =
     (let cs = take (23 * 80) (drop 80 cs) @ drop (23 * 80) cs
      in splice_at pos (replicate (24 * 80 - pos) 0) cs)"

definition cgaputc :: "int \<Rightarrow> unit tm" where
  "cgaputc c =
     bnd (gets cursor) (\<lambda>pos.
     bnd (if c = 10 then ret (pos + (80 - pos mod 80))
          else if c = BACKSPACE then ret (if pos > 0 then pos - 1 else pos)
          else thn (crt_store pos ((word_of_int c AND 0xff) OR 0x0700)) (ret (pos + 1))) (\<lambda>pos.
     if pos > 25 * 80 then panic ''pos under/overflow''
     else
       bnd (if pos div 80 \<ge> 24
            then thn (upd (\<lambda>s. s\<lparr>crt := scroll (pos - 80) (crt s)\<rparr>)) (ret (pos - 80))
            else ret pos) (\<lambda>pos.
       thn (upd (\<lambda>s. s\<lparr>cursor := pos\<rparr>))
       (crt_store pos (0x20 OR 0x0700)))))"

definition uartputc :: "uchar \<Rightarrow> unit tm" where
  "uartputc c = upd (\<lambda>s. if uart s then s\<lparr>uart_out := uart_out s @ [c]\<rparr> else s)"

definition consputc :: "int \<Rightarrow> unit tm" where
  "consputc c =
     bnd (gets panicked) (\<lambda>p.
     if p then spin
     else
       thn (if c = BACKSPACE then thn (uartputc 8) (thn (uartputc 0x20) (uartputc 8)) else uartputc (word_of_int c))
       (cgaputc c))"

section \<open>Input\<close>

definition acquire_cons :: "unit tm" where
  "acquire_cons = lock_acquire t_lock t_lock_update"

definition release_cons :: "unit tm" where
  "release_cons = lock_release t_lock t_lock_update"








definition consolewrite :: "nat option \<Rightarrow> bytes \<Rightarrow> int \<Rightarrow> int tm" where
  "consolewrite ip buf n =
     thn (infs_t (iunlock ip))
     (thn (requirek (nat n \<le> length buf) (OutOfBounds ''buf''))
     (thn acquire_cons
     (thn (seqk (map (\<lambda>c. consputc (uint c)) (take (nat n) buf)))
     (thn release_cons
     (thn (infs_t (ilock ip))
     (ret n))))))"

section \<open>The screen\<close>

definition scr :: "tty \<Rightarrow> bool" where
  "scr s \<longleftrightarrow> length (crt s) = 25 * 80 \<and> cursor s < 24 * 80 \<and> \<not> panicked s"

definition shown :: "tty \<Rightarrow> bytes \<Rightarrow> tty \<Rightarrow> bool" where
  "shown s out s' \<longleftrightarrow> scr s' \<and> drop (24 * 80) (crt s') = drop (24 * 80) (crt s) \<and> uart_out s' = uart_out s @ out \<and>
     s' = s\<lparr>crt := crt s', cursor := cursor s', uart_out := uart_out s'\<rparr>"

definition echo :: "tty \<Rightarrow> int \<Rightarrow> bytes" where
  "echo s c = (if uart s then (if c = BACKSPACE then [8, 0x20, 8] else [word_of_int c]) else [])"

lemma crt_store_ok:
  assumes "length (crt s) = 2000" "k < 1920"
  shows "crt_store k v s sch = Ret () (s\<lparr>crt := (crt s)[k := v]\<rparr>) sch" "drop 1920 ((crt s)[k := v]) = drop 1920 (crt s)"
  using assms by (simp_all add: crt_store_def)

lemma scroll_ok:
  assumes "length cs = 2000" "p \<le> 1920"
  shows "length (scroll p cs) = 2000" "drop 1920 (scroll p cs) = drop 1920 cs"
proof -
  let ?m = "take 1840 (drop 80 cs) @ drop 1840 cs"
  have m: "length ?m = 2000" "drop 1920 ?m = drop 1920 cs" using assms by simp_all
  show "length (scroll p cs) = 2000" using m assms by (simp add: scroll_def)
  show "drop 1920 (scroll p cs) = drop 1920 cs" using m assms by (simp add: scroll_def splice_at_def)
qed

lemma cgaputc_ok:
  assumes "scr s"
  shows "\<exists>cs p. (\<forall>sch. cgaputc c s sch = Ret () (s\<lparr>crt := cs, cursor := p\<rparr>) sch) \<and> length cs = 2000 \<and> p < 1920 \<and> drop 1920 cs = drop 1920 (crt s)"
proof -
  have s: "length (crt s) = 2000" "cursor s < 1920" using assms by (simp_all add: scr_def)
  let ?first = "if c = 10 then ret (cursor s + (80 - cursor s mod 80)) else if c = BACKSPACE then ret (if cursor s > 0 then cursor s - 1 else cursor s)
     else thn (crt_store (cursor s) ((word_of_int c AND 0xff) OR 0x0700)) (ret (cursor s + 1))"
  have nl: "cursor s + (80 - cursor s mod 80) \<le> 1920"
  proof -
    have "cursor s div 80 < 24" using s(2) by (simp add: less_mult_imp_div_less)
    moreover have "cursor s + (80 - cursor s mod 80) = 80 * (cursor s div 80) + 80"
      using mod_less_divisor [of 80 "cursor s"] div_mult_mod_eq [of "cursor s" 80] by linarith
    ultimately show ?thesis by linarith
  qed
  obtain p cs where f: "\<And>sch. ?first s sch = Ret p (s\<lparr>crt := cs\<rparr>) sch" "p \<le> 1920" "length cs = 2000" "drop 1920 cs = drop 1920 (crt s)"
  proof (cases "c = 10 \<or> c = BACKSPACE")
    case True
    then show thesis using that [of "if c = 10 then cursor s + (80 - cursor s mod 80) else cursor s - 1" "crt s"] s nl by auto
  next
    case False
    then show thesis using that [of "cursor s + 1" "(crt s)[cursor s := (word_of_int c AND 0xff) OR 0x0700]"] s crt_store_ok by auto
  qed
  show ?thesis
  proof (cases "p div 80 \<ge> 24")
    case True
    then have "80 * 24 \<le> 80 * (p div 80)" by (rule mult_le_mono2)
    then have p: "p = 1920" using f(2) div_mult_mod_eq [of p 80] by linarith
    let ?cs = "(scroll 1840 cs)[1840 := 0x20 OR 0x0700]"
    have sc: "length (scroll 1840 cs) = 2000" "drop 1920 (scroll 1840 cs) = drop 1920 cs" using scroll_ok [OF f(3), of 1840] by simp_all
    have "cgaputc c s sch = Ret () (s\<lparr>crt := ?cs, cursor := 1840\<rparr>) sch" for sch
      using f(1) p sc(1) by (simp add: cgaputc_def crt_store_def)
    then show ?thesis using sc f(4) by (intro exI [of _ ?cs] exI [of _ 1840]) simp
  next
    case False
    then have p: "p < 1920" using f(2) by (cases "p = 1920") auto
    let ?cs = "cs[p := 0x20 OR 0x0700]"
    have "cgaputc c s sch = Ret () (s\<lparr>crt := ?cs, cursor := p\<rparr>) sch" for sch
      using f(1,3) p False by (simp add: cgaputc_def crt_store_def)
    then show ?thesis using p f(3,4) by (intro exI [of _ ?cs] exI [of _ p]) simp
  qed
qed

lemma consputc_ok:
  assumes "scr s"
  shows "\<exists>s'. (\<forall>sch. consputc c s sch = Ret () s' sch) \<and> shown s (echo s c) s'"
proof -
  let ?t = "s\<lparr>uart_out := uart_out s @ echo s c\<rparr>"
  have "scr ?t" using assms by (simp add: scr_def)
  then obtain cs p where c: "\<And>sch. cgaputc c ?t sch = Ret () (?t\<lparr>crt := cs, cursor := p\<rparr>) sch" "length cs = 2000" "p < 1920" "drop 1920 cs = drop 1920 (crt s)"
    using cgaputc_ok [of ?t c] by auto
  have u: "s\<lparr>uart_out := uart_out s\<rparr> = s" by simp
  have "consputc c s sch = Ret () (?t\<lparr>crt := cs, cursor := p\<rparr>) sch" for sch
    using c(1) assms u by (cases "uart s") (auto simp: consputc_def scr_def uartputc_def echo_def)
  then show ?thesis using c(2-4) assms by (intro exI [of _ "?t\<lparr>crt := cs, cursor := p\<rparr>"]) (simp add: shown_def scr_def)
qed

section \<open>The line being edited\<close>

text \<open>\<open>holds s xs d\<close>: the characters between the read and the edit index are \<open>xs\<close>, and the first \<open>d\<close> of them
  are before the write index, that is, complete.\<close>

definition holds :: "tty \<Rightarrow> bytes \<Rightarrow> nat \<Rightarrow> bool" where
  "holds s xs d \<longleftrightarrow> length (in_buf s) = INPUT_BUF \<and> length xs \<le> INPUT_BUF \<and> d \<le> length xs \<and>
     in_w s = in_r s + of_nat d \<and> in_e s = in_r s + of_nat (length xs) \<and>
     (\<forall>k<length xs. in_buf s ! ((unat (in_r s) + k) mod INPUT_BUF) = xs ! k)"



definition same_io :: "tty \<Rightarrow> tty \<Rightarrow> bool" where
  "same_io s s' \<longleftrightarrow> t_lock s' = t_lock s \<and> t_fs s' = t_fs s \<and> t_killed s' = t_killed s \<and> in_r s' = in_r s"

lemma shown_fields:
  assumes "shown s out s'"
  shows "holds s' xs d = holds s xs d" "same_io s s'" "scr s'" "in_e s' = in_e s" "in_w s' = in_w s" "in_buf s' = in_buf s" "t_woken s' = t_woken s" "uart s' = uart s"
proof -
  obtain cs p out where s': "s' = s\<lparr>crt := cs, cursor := p, uart_out := out\<rparr>" and "scr s'" using assms unfolding shown_def by metis
  then show "holds s' xs d = holds s xs d" "same_io s s'" "scr s'" "in_e s' = in_e s" "in_w s' = in_w s" "in_buf s' = in_buf s" "t_woken s' = t_woken s" "uart s' = uart s"
    by (simp_all add: holds_def same_io_def)
qed

lemma shown_trans:
  assumes "shown s a t" "shown t b u"
  shows "shown s (a @ b) u"
proof -
  obtain cs p out where t: "t = s\<lparr>crt := cs, cursor := p, uart_out := out\<rparr>" using assms(1) unfolding shown_def by metis
  obtain ds q uo where "u = t\<lparr>crt := ds, cursor := q, uart_out := uo\<rparr>" using assms(2) unfolding shown_def by metis
  then have "u = s\<lparr>crt := crt u, cursor := cursor u, uart_out := uart_out u\<rparr>" using t by simp
  then show ?thesis using assms by (simp add: shown_def)
qed

text \<open>C19: Whatever is written to the console, characters, newlines and backspaces in any order, the output
  never panics and never stores outside the first 24 rows of the screen, the cursor stays there,
  and the serial port gets the same characters, with backspace, blank, backspace for an erasure.\<close>

theorem screen_in_bounds:
  assumes "scr s"
  shows "\<exists>s'. (\<forall>sch. seqk (map consputc cs) s sch = Ret () s' sch) \<and> shown s (concat (map (echo s) cs)) s'"
  using assms
proof (induction cs arbitrary: s)
  case Nil
  then show ?case by (intro exI [of _ s]) (simp add: shown_def)
next
  case (Cons c cs)
  obtain t where t: "\<And>sch. consputc c s sch = Ret () t sch" "shown s (echo s c) t" using consputc_ok [OF Cons(2)] by blast
  note f = shown_fields [OF t(2)]
  have e: "echo t = echo s" using f(8) by (simp add: fun_eq_iff echo_def)
  obtain s' where "\<And>sch. seqk (map consputc cs) t sch = Ret () s' sch" "shown t (concat (map (echo t) cs)) s'" using Cons(1) [OF f(3)] by blast
  then show ?case using t e shown_trans by (intro exI [of _ s']) fastforce
qed














section \<open>From the keys to the reader\<close>













lemma f_wake_inodes [simp]: "inodes (f_wake c s) = inodes s" "ino i (f_wake c s) = ino i s" "my_pid (f_wake c s) = my_pid s"
  by (simp_all add: f_wake_def ino_def)



definition demo_tty :: tty where
  "demo_tty = \<lparr>t_lock = False, panicked = False, in_buf = replicate 128 0, in_r = 0xfffffffe, in_w = 0xfffffffe, in_e = 0xfffffffe,
     crt = replicate 2000 0, cursor = 1919, uart = True, uart_out = [], t_killed = False, t_woken = [],
     t_fs = zero_fs\<lparr>inodes := [\<lparr>i_dev = 1, i_inum = 2, i_ref = 1, i_lock = lock_of 7, i_valid = True,
       i_d = \<lparr>di_type = T_DEV, di_major = 1, di_minor = 1, di_nlink = 1, di_size = 0, di_addrs = replicate 13 0\<rparr>\<rparr>], my_pid := 7\<rparr>\<rparr>"

lemma demo_tty_ok: "holds demo_tty [] 0" "scr demo_tty"
  by (simp_all add: demo_tty_def holds_def scr_def)

theorem screen_in_bounds_witness:
  "\<exists>s'. scr demo_tty \<and> seqk (map consputc [0x68, 10, BACKSPACE]) demo_tty [] = Ret () s' [] \<and> uart_out s' = [0x68, 10, 8, 0x20, 8] \<and> cursor s' < 1920"
proof -
  obtain s' where "\<forall>sch. seqk (map consputc [0x68, 10, BACKSPACE]) demo_tty sch = Ret () s' sch"
    "shown demo_tty (concat (map (echo demo_tty) [0x68, 10, BACKSPACE])) s'"
    using screen_in_bounds [OF demo_tty_ok(2), of "[0x68, 10, BACKSPACE]"] by blast
  then show ?thesis using demo_tty_ok(2) by (intro exI [of _ s']) (simp add: shown_def scr_def echo_def, simp add: demo_tty_def)
qed


end
