(* ===== verification/Shell.thy ===== *)
theory Shell
  imports Prelude
begin

text \<open>
  The command parser of the shell, \<^verbatim>\<open>src/sh.c\<close>.

  The line is a string \<open>b\<close> without its terminating NUL; a pointer into it is an index, and the index
  \<open>length b\<close> is the end \<^verbatim>\<open>es\<close>, where the NUL is. A parsed command is a tree \<open>shcmd\<close> over the spans
  \<^verbatim>\<open>(q, eq)\<close> of the words, which the constructors of the source put into \<^verbatim>\<open>argv\<close>/\<^verbatim>\<open>eargv\<close> and
  \<^verbatim>\<open>file\<close>/\<^verbatim>\<open>efile\<close>; \<^verbatim>\<open>malloc\<close> is taken to succeed. The four functions that call each other take
  fuel; \<open>parsecmd_total\<close> shows that the fuel \<^verbatim>\<open>parsecmd\<close> starts with is always enough. The loops of the
  parser terminate by their position in the line.
\<close>

datatype 'a shcmd =
    EXEC "'a list"
  | REDIR "'a shcmd" 'a int int
  | PIPE "'a shcmd" "'a shcmd"
  | LIST "'a shcmd" "'a shcmd"
  | BACK "'a shcmd"

type_synonym span = "nat \<times> nat"

datatype 'a parsed = Parsed 'a nat | Syntax string | NoFuel

abbreviation NUL :: char where "NUL \<equiv> CHR 0x00"
abbreviation MAXARGS :: nat where "MAXARGS \<equiv> 10"
abbreviation RD_ONLY :: int where "RD_ONLY \<equiv> 0"
abbreviation WR_CREATE :: int where "WR_CREATE \<equiv> 0x201"

definition whitespace :: string where
  "whitespace = [CHR '' '', CHR 0x09, CHR 0x0D, CHR 0x0A, CHR 0x0B]"

definition symbols :: string where
  "symbols = ''<|>&;()''"

section \<open>Tokens\<close>

definition char_at :: "string \<Rightarrow> nat \<Rightarrow> char" where
  "char_at b p = (if p < length b then b ! p else NUL)"

function skip_while :: "(char \<Rightarrow> bool) \<Rightarrow> string \<Rightarrow> nat \<Rightarrow> nat" where
  "skip_while P b p = (if p < length b \<and> P (b ! p) then skip_while P b (Suc p) else p)"
  by pat_completeness auto
termination by (relation "measure (\<lambda>(P, b, p). length b - p)") auto

declare skip_while.simps [simp del]

abbreviation is_space :: "char \<Rightarrow> bool" where "is_space c \<equiv> c \<in> set whitespace"
abbreviation in_word :: "char \<Rightarrow> bool" where "in_word c \<equiv> c \<notin> set whitespace \<and> c \<notin> set symbols"

definition gettoken :: "string \<Rightarrow> nat \<Rightarrow> char \<times> nat \<times> nat \<times> nat" where
  "gettoken b ps =
     (let q = skip_while is_space b ps;
          c = char_at b q;
          (tok, eq) =
            (if c = NUL then (c, q)
             else if c \<in> set ''|();&<'' then (c, Suc q)
             else if c = CHR ''>'' then (if char_at b (Suc q) = CHR ''>'' then (CHR ''+'', q + 2) else (c, Suc q))
             else (CHR ''a'', skip_while in_word b q))
      in (tok, q, eq, skip_while is_space b eq))"

definition peek :: "string \<Rightarrow> nat \<Rightarrow> string \<Rightarrow> bool \<times> nat" where
  "peek b ps toks = (let s = skip_while is_space b ps in (char_at b s \<noteq> NUL \<and> char_at b s \<in> set toks, s))"

abbreviation after :: "string \<Rightarrow> nat \<Rightarrow> nat" where
  "after b p \<equiv> snd (snd (snd (gettoken b p)))"

abbreviation tok_at :: "string \<Rightarrow> nat \<Rightarrow> char" where
  "tok_at b p \<equiv> fst (gettoken b p)"

abbreviation word_at :: "string \<Rightarrow> nat \<Rightarrow> span" where
  "word_at b p \<equiv> (fst (snd (gettoken b p)), fst (snd (snd (gettoken b p))))"

lemma skip_while_ge: "p \<le> skip_while P b p"
  by (induction P b p rule: skip_while.induct) (subst skip_while.simps, auto)

lemma skip_while_le: "p \<le> length b \<Longrightarrow> skip_while P b p \<le> length b"
  by (induction P b p rule: skip_while.induct) (subst skip_while.simps, auto)

lemma skip_while_all: "p \<le> k \<Longrightarrow> k < skip_while P b p \<Longrightarrow> k < length b \<and> P (b ! k)"
proof (induction P b p rule: skip_while.induct)
  case (1 P b p)
  show ?case
  proof (cases "p < length b \<and> P (b ! p)")
    case True
    then show ?thesis using 1 by (cases "k = p") (auto simp: skip_while.simps [of P b p])
  next
    case False
    then show ?thesis using 1(2,3) by (auto simp: skip_while.simps [of P b p])
  qed
qed

lemma skip_while_stop: "skip_while P b p < length b \<Longrightarrow> \<not> P (b ! skip_while P b p)"
proof (induction P b p rule: skip_while.induct)
  case (1 P b p)
  then show ?case by (cases "p < length b \<and> P (b ! p)") (auto simp: skip_while.simps [of P b p])
qed

lemma peek_ge: "p \<le> snd (peek b p ts)"
  by (simp add: peek_def Let_def skip_while_ge)

lemma peek_in: "fst (peek b p ts) \<Longrightarrow> snd (peek b p ts) < length b"
  by (auto simp: peek_def Let_def char_at_def split: if_splits)

lemma gettoken_ge: "p \<le> after b p"
proof -
  let ?q = "skip_while is_space b p"
  have q: "p \<le> ?q" by (rule skip_while_ge)
  have "?q \<le> skip_while is_space b ?q" "?q \<le> skip_while is_space b (Suc ?q)" "?q \<le> skip_while is_space b (?q + 2)"
    "?q \<le> skip_while is_space b (skip_while in_word b ?q)"
    using skip_while_ge [of ?q is_space b] skip_while_ge [of "Suc ?q" is_space b] skip_while_ge [of "?q + 2" is_space b]
      skip_while_ge [of ?q in_word b] skip_while_ge [of "skip_while in_word b ?q" is_space b] by linarith+
  then show ?thesis using q by (simp add: gettoken_def Let_def)
qed

text \<open>A token is consumed where \<^verbatim>\<open>peek\<close> has seen one.\<close>

lemma after_peek:
  assumes p: "fst (peek b p ts)" and ts: "set ts \<subseteq> set symbols"
  shows "p < after b (snd (peek b p ts))"
proof -
  let ?q = "skip_while is_space b p"
  have q: "p \<le> ?q" by (rule skip_while_ge)
  have c: "char_at b ?q \<noteq> NUL" "char_at b ?q \<in> set symbols" using p ts by (auto simp: peek_def Let_def)
  then have l: "?q < length b" by (auto simp: char_at_def split: if_splits)
  have s: "\<not> is_space (b ! ?q)" by (rule skip_while_stop [OF l])
  then have f: "skip_while is_space b ?q = ?q" by (simp add: skip_while.simps [of _ b ?q])
  have 1: "?q < skip_while is_space b (Suc ?q)" "?q < skip_while is_space b (?q + 2)"
    using skip_while_ge [of "Suc ?q" is_space b] skip_while_ge [of "?q + 2" is_space b] by linarith+
  have "char_at b ?q \<in> set ''|();&<'' \<or> char_at b ?q = CHR ''>''" using c(2) by (simp add: symbols_def) blast
  then have "?q < after b ?q" using c(1) 1 f by (auto simp: gettoken_def Let_def)
  then show ?thesis using q by (simp add: peek_def Let_def)
qed

section \<open>The parser\<close>

definition redir_tok :: "char \<Rightarrow> 'a shcmd \<Rightarrow> 'a \<Rightarrow> 'a shcmd" where
  "redir_tok tok cmd f =
     (if tok = CHR ''<'' then REDIR cmd f RD_ONLY 0
      else if tok = CHR ''>'' then REDIR cmd f WR_CREATE 1
      else if tok = CHR ''+'' then REDIR cmd f WR_CREATE 1
      else cmd)"

lemma redirs_smaller:
  assumes p: "fst (peek b ps ''<>'')"
  shows "length b - after b (after b (snd (peek b ps ''<>''))) < length b - ps"
proof -
  let ?p1 = "snd (peek b ps ''<>'')"
  have "ps < after b ?p1" by (rule after_peek [OF p]) (simp add: symbols_def)
  moreover have "ps < length b" using peek_in [OF p] peek_ge [of ps b "''<>''"] by linarith
  ultimately show ?thesis using gettoken_ge [of "after b ?p1" b] by linarith
qed

function parseredirs :: "string \<Rightarrow> span shcmd \<Rightarrow> nat \<Rightarrow> span shcmd parsed" where
  "parseredirs b cmd ps =
     (let p1 = snd (peek b ps ''<>'');
          p2 = after b p1 in
      if \<not> fst (peek b ps ''<>'') then Parsed cmd p1
      else if tok_at b p2 \<noteq> CHR ''a'' then Syntax ''missing file for redirection''
      else parseredirs b (redir_tok (tok_at b p1) cmd (word_at b p2)) (after b p2))"
  by pat_completeness auto
termination by (relation "measure (\<lambda>(b, cmd, ps). length b - ps)") (auto simp: redirs_smaller)

declare parseredirs.simps [simp del]

function backs :: "string \<Rightarrow> span shcmd \<Rightarrow> nat \<Rightarrow> span shcmd \<times> nat" where
  "backs b cmd ps =
     (let p1 = snd (peek b ps ''&'') in
      if fst (peek b ps ''&'') then backs b (BACK cmd) (after b p1) else (cmd, p1))"
  by pat_completeness auto
termination
proof (relation "measure (\<lambda>(b, cmd, ps). length b - ps)")
  fix b :: string and cmd :: "span shcmd" and ps p1
  assume p: "p1 = snd (peek b ps ''&'')" "fst (peek b ps ''&'')"
  have "ps < after b p1" unfolding p(1) by (rule after_peek [OF p(2)]) (simp add: symbols_def)
  moreover have "ps < length b" using peek_in [OF p(2)] peek_ge [of ps b "''&''"] by linarith
  ultimately show "((b, BACK cmd, after b p1), b, cmd, ps) \<in> measure (\<lambda>(b, cmd, ps). length b - ps)" by simp
qed simp

declare backs.simps [simp del]

text \<open>\<^verbatim>\<open>ret\<close> and \<^verbatim>\<open>cmd\<close> of \<^verbatim>\<open>parseexec\<close> share the \<^verbatim>\<open>execcmd\<close>: redirections are wrapped around it while arguments
  are still added to it.\<close>

fun add_arg :: "'a shcmd \<Rightarrow> 'a \<Rightarrow> 'a shcmd" where
  "add_arg (EXEC as) a = EXEC (as @ [a])"
| "add_arg (REDIR c f m d) a = REDIR (add_arg c a) f m d"
| "add_arg c a = c"

function exec_loop :: "string \<Rightarrow> nat \<Rightarrow> span shcmd \<Rightarrow> nat \<Rightarrow> span shcmd parsed" where
  "exec_loop b argc cmd ps =
     (let p1 = snd (peek b ps ''|)&;'') in
      if fst (peek b ps ''|)&;'') then Parsed cmd p1
      else if tok_at b p1 = NUL then Parsed cmd (after b p1)
      else if tok_at b p1 \<noteq> CHR ''a'' then Syntax ''syntax''
      else if argc + 1 \<ge> MAXARGS then Syntax ''too many args''
      else case parseredirs b (add_arg cmd (word_at b p1)) (after b p1) of
             Parsed cmd p2 \<Rightarrow> exec_loop b (argc + 1) cmd p2
           | e \<Rightarrow> e)"
  by pat_completeness auto
termination by (relation "measure (\<lambda>(b, argc, cmd, ps). MAXARGS - argc)") auto

declare exec_loop.simps [simp del]

fun parseline :: "nat \<Rightarrow> string \<Rightarrow> nat \<Rightarrow> span shcmd parsed"
  and parsepipe :: "nat \<Rightarrow> string \<Rightarrow> nat \<Rightarrow> span shcmd parsed"
  and parseblock :: "nat \<Rightarrow> string \<Rightarrow> nat \<Rightarrow> span shcmd parsed"
  and parseexec :: "nat \<Rightarrow> string \<Rightarrow> nat \<Rightarrow> span shcmd parsed" where
  "parseline 0 b ps = NoFuel"
| "parseline (Suc n) b ps =
     (case parsepipe n b ps of
        Parsed cmd p1 \<Rightarrow>
          (let (cmd, p2) = backs b cmd p1;
               (more, p3) = peek b p2 '';'' in
           if more then
             (case parseline n b (after b p3) of
                Parsed right p4 \<Rightarrow> Parsed (LIST cmd right) p4
              | e \<Rightarrow> e)
           else Parsed cmd p3)
      | e \<Rightarrow> e)"
| "parsepipe 0 b ps = NoFuel"
| "parsepipe (Suc n) b ps =
     (case parseexec n b ps of
        Parsed cmd p1 \<Rightarrow>
          (let (more, p2) = peek b p1 ''|'' in
           if more then
             (case parsepipe n b (after b p2) of
                Parsed right p3 \<Rightarrow> Parsed (PIPE cmd right) p3
              | e \<Rightarrow> e)
           else Parsed cmd p2)
      | e \<Rightarrow> e)"
| "parseblock 0 b ps = NoFuel"
| "parseblock (Suc n) b ps =
     (let (open, p1) = peek b ps ''('' in
      if \<not> open then Syntax ''parseblock''
      else case parseline n b (after b p1) of
             Parsed cmd p2 \<Rightarrow>
               (let (close, p3) = peek b p2 '')'' in
                if \<not> close then Syntax ''syntax - missing )''
                else parseredirs b cmd (after b p3))
           | e \<Rightarrow> e)"
| "parseexec 0 b ps = NoFuel"
| "parseexec (Suc n) b ps =
     (let (block, p1) = peek b ps ''('' in
      if block then parseblock n b p1
      else case parseredirs b (EXEC []) p1 of
             Parsed cmd p2 \<Rightarrow> exec_loop b 0 cmd p2
           | e \<Rightarrow> e)"

text \<open>The end of a word is overwritten by NUL; at the index \<open>length b\<close> there is one already.\<close>

fun nulterminate :: "span shcmd \<Rightarrow> string \<Rightarrow> string" where
  "nulterminate (EXEC as) b = fold (\<lambda>a b. b[snd a := NUL]) as b"
| "nulterminate (REDIR c f m d) b = (nulterminate c b)[snd f := NUL]"
| "nulterminate (PIPE l r) b = nulterminate r (nulterminate l b)"
| "nulterminate (LIST l r) b = nulterminate r (nulterminate l b)"
| "nulterminate (BACK c) b = nulterminate c b"

definition parse_fuel :: "string \<Rightarrow> nat" where
  "parse_fuel b = 4 * length b + 4"

datatype shparse = Command "span shcmd" string | Panics string string | Spins

definition parsecmd :: "string \<Rightarrow> shparse" where
  "parsecmd b =
     (case parseline (parse_fuel b) b 0 of
        NoFuel \<Rightarrow> Spins
      | Syntax msg \<Rightarrow> Panics '''' msg
      | Parsed cmd p \<Rightarrow>
          (let (_, s) = peek b p '''' in
           if s \<noteq> length b then Panics (''leftovers: '' @ drop s b @ [CHR 0x0A]) ''syntax''
           else Command cmd (nulterminate cmd b)))"


section \<open>The parser always comes to an end\<close>

lemmas parse_unfold = Let_def case_prod_unfold

lemma parseredirs_end: "parseredirs b cmd ps \<noteq> NoFuel \<and> (parseredirs b cmd ps = Parsed c p \<longrightarrow> ps \<le> p)"
proof (induction b cmd ps rule: parseredirs.induct)
  case (1 b cmd ps)
  let ?p1 = "snd (peek b ps ''<>'')"
  have g: "ps \<le> ?p1" "?p1 \<le> after b ?p1" "after b ?p1 \<le> after b (after b ?p1)" by (simp_all add: peek_ge gettoken_ge)
  show ?case
  proof (cases "fst (peek b ps ''<>'') \<and> tok_at b (after b ?p1) = CHR ''a''")
    case True
    then show ?thesis using 1 [OF refl refl] g by (auto simp: parseredirs.simps [of b cmd ps] Let_def)
  qed (use g in \<open>auto simp: parseredirs.simps [of b cmd ps] Let_def\<close>)
qed

lemma backs_ge: "ps \<le> snd (backs b cmd ps)"
proof (induction b cmd ps rule: backs.induct)
  case (1 b cmd ps)
  have "ps \<le> snd (peek b ps ''&'')" "ps \<le> after b (snd (peek b ps ''&''))" using peek_ge gettoken_ge le_trans by blast+
  then show ?case using 1 [OF refl] by (auto simp: backs.simps [of b cmd ps] Let_def)
qed

lemma exec_loop_end: "exec_loop b argc cmd ps \<noteq> NoFuel \<and> (exec_loop b argc cmd ps = Parsed c p \<longrightarrow> ps \<le> p)"
proof (induction b argc cmd ps rule: exec_loop.induct)
  case (1 b argc cmd ps)
  let ?p1 = "snd (peek b ps ''|)&;'')" and ?r = "parseredirs b (add_arg cmd (word_at b (snd (peek b ps ''|)&;'')))) (after b (snd (peek b ps ''|)&;'')))"
  have g: "ps \<le> ?p1" "ps \<le> after b ?p1" using peek_ge gettoken_ge le_trans by blast+
  show ?case
  proof (cases "\<not> fst (peek b ps ''|)&;'') \<and> tok_at b ?p1 = CHR ''a'' \<and> argc + 1 < MAXARGS")
    case True
    show ?thesis
    proof (cases ?r)
      case (Parsed c' p')
      have "after b ?p1 \<le> p'" using parseredirs_end Parsed by blast
      moreover have "exec_loop b argc cmd ps = exec_loop b (argc + 1) c' p'" using True Parsed by (simp add: exec_loop.simps [of b argc cmd ps] Let_def)
      moreover have "exec_loop b (argc + 1) c' p' \<noteq> NoFuel \<and> (exec_loop b (argc + 1) c' p' = Parsed c p \<longrightarrow> p' \<le> p)"
        using 1 [OF refl _ _ _ _ Parsed] True by simp
      ultimately show ?thesis using g(2) by auto
    qed (use True parseredirs_end in \<open>auto simp: exec_loop.simps [of b argc cmd ps] Let_def\<close>)
  qed (use g in \<open>auto simp: exec_loop.simps [of b argc cmd ps] Let_def\<close>)
qed

lemma parse_ge:
  "parseline n b ps = Parsed c p \<Longrightarrow> ps \<le> p"
  "parsepipe n b ps = Parsed c p \<Longrightarrow> ps \<le> p"
  "parseblock n b ps = Parsed c p \<Longrightarrow> ps \<le> p"
  "parseexec n b ps = Parsed c p \<Longrightarrow> ps \<le> p"
proof (induction n b ps and n b ps and n b ps and n b ps arbitrary: c p and c p and c p and c p
    rule: parseline_parsepipe_parseblock_parseexec.induct)
  case (2 n b ps)
  obtain d p1 where d: "parsepipe n b ps = Parsed d p1" using 2(3) by (cases "parsepipe n b ps") simp_all
  let ?p2 = "snd (backs b d p1)" and ?p3 = "snd (peek b (snd (backs b d p1)) '';'')"
  have g: "ps \<le> p1" "p1 \<le> ?p2" "?p2 \<le> ?p3" "?p3 \<le> after b ?p3" using 2(1) d by (simp_all add: backs_ge peek_ge gettoken_ge)
  show ?case
  proof (cases "fst (peek b ?p2 '';'')")
    case True
    then obtain e where "parseline n b (after b ?p3) = Parsed e p" using 2(3) d by (auto simp: parse_unfold split: parsed.splits)
    then have "after b ?p3 \<le> p" using 2(2) [OF d] True by (simp add: prod_eq_iff)
    then show ?thesis using g by linarith
  next
    case False
    then show ?thesis using 2(3) d g by (simp add: parse_unfold)
  qed
next
  case (4 n b ps)
  obtain d p1 where d: "parseexec n b ps = Parsed d p1" using 4(3) by (cases "parseexec n b ps") simp_all
  let ?p2 = "snd (peek b p1 ''|'')"
  have g: "ps \<le> p1" "p1 \<le> ?p2" "?p2 \<le> after b ?p2" using 4(1) d by (simp_all add: peek_ge gettoken_ge)
  show ?case
  proof (cases "fst (peek b p1 ''|'')")
    case True
    then obtain e where "parsepipe n b (after b ?p2) = Parsed e p" using 4(3) d by (auto simp: parse_unfold split: parsed.splits)
    then have "after b ?p2 \<le> p" using 4(2) [OF d] True by (simp add: prod_eq_iff)
    then show ?thesis using g by linarith
  next
    case False
    then show ?thesis using 4(3) d g by (simp add: parse_unfold)
  qed
next
  case (6 n b ps)
  let ?p1 = "snd (peek b ps ''('')"
  have t: "fst (peek b ps ''('')" using 6(2) by (auto simp: parse_unfold split: if_splits)
  then obtain d p2 where d: "parseline n b (after b ?p1) = Parsed d p2" "parseredirs b d (after b (snd (peek b p2 '')''))) = Parsed c p"
    using 6(2) by (auto simp: parse_unfold split: parsed.splits if_splits)
  have "after b ?p1 \<le> p2" using 6(1) d(1) t by (simp add: prod_eq_iff)
  moreover have "ps \<le> ?p1" "?p1 \<le> after b ?p1" "p2 \<le> snd (peek b p2 '')'')" "snd (peek b p2 '')'') \<le> after b (snd (peek b p2 '')''))"
    by (simp_all add: peek_ge gettoken_ge)
  moreover have "after b (snd (peek b p2 '')'')) \<le> p" using parseredirs_end d(2) by blast
  ultimately show ?case by linarith
next
  case (8 n b ps)
  let ?p1 = "snd (peek b ps ''('')"
  have g: "ps \<le> ?p1" by (rule peek_ge)
  show ?case
  proof (cases "fst (peek b ps ''('')")
    case True
    then have "?p1 \<le> p" using 8 by (simp add: parse_unfold prod_eq_iff)
    then show ?thesis using g by linarith
  next
    case False
    then obtain d p2 where d: "parseredirs b (EXEC []) ?p1 = Parsed d p2" "exec_loop b 0 d p2 = Parsed c p"
      using 8(2) by (auto simp: parse_unfold split: parsed.splits)
    then have "?p1 \<le> p2" "p2 \<le> p" using parseredirs_end exec_loop_end by blast+
    then show ?thesis using g by linarith
  qed
qed simp_all

lemma token_smaller:
  assumes "fst (peek b ps ts)" "set ts \<subseteq> set symbols"
  shows "length b - after b (snd (peek b ps ts)) < length b - ps"
  using after_peek [OF assms] peek_in [OF assms(1)] peek_ge [of ps b ts] by linarith

lemma parse_fuel_enough:
  "4 * (length b - ps) + 4 \<le> n \<Longrightarrow> parseline n b ps \<noteq> NoFuel"
  "4 * (length b - ps) + 3 \<le> n \<Longrightarrow> parsepipe n b ps \<noteq> NoFuel"
  "4 * (length b - ps) + 1 \<le> n \<Longrightarrow> parseblock n b ps \<noteq> NoFuel"
  "4 * (length b - ps) + 2 \<le> n \<Longrightarrow> parseexec n b ps \<noteq> NoFuel"
proof (induction n b ps and n b ps and n b ps and n b ps rule: parseline_parsepipe_parseblock_parseexec.induct)
  case (2 n b ps)
  show ?case
  proof (cases "parsepipe n b ps")
    case (Parsed d p1)
    let ?p2 = "snd (backs b d p1)"
    have "ps \<le> ?p2" using parse_ge(2) [OF Parsed] backs_ge [of p1 b d] by linarith
    moreover have "length b - after b (snd (peek b ?p2 '';'')) < length b - ?p2" if "fst (peek b ?p2 '';'')"
      by (rule token_smaller [OF that]) (simp add: symbols_def)
    ultimately have "parseline n b (after b (snd (peek b ?p2 '';''))) \<noteq> NoFuel" if "fst (peek b ?p2 '';'')"
      using 2(2) [OF Parsed] 2(3) that by (simp add: prod_eq_iff)
    then show ?thesis using Parsed by (auto simp: parse_unfold split: parsed.splits)
  qed (use 2 in auto)
next
  case (4 n b ps)
  show ?case
  proof (cases "parseexec n b ps")
    case (Parsed d p1)
    have "ps \<le> p1" by (rule parse_ge(4) [OF Parsed])
    moreover have "length b - after b (snd (peek b p1 ''|'')) < length b - p1" if "fst (peek b p1 ''|'')"
      by (rule token_smaller [OF that]) (simp add: symbols_def)
    ultimately have "parsepipe n b (after b (snd (peek b p1 ''|''))) \<noteq> NoFuel" if "fst (peek b p1 ''|'')"
      using 4(2) [OF Parsed] 4(3) that by (simp add: prod_eq_iff)
    then show ?thesis using Parsed by (auto simp: parse_unfold split: parsed.splits)
  qed (use 4 in auto)
next
  case (6 n b ps)
  have "length b - after b (snd (peek b ps ''('')) < length b - ps" if "fst (peek b ps ''('')"
    by (rule token_smaller [OF that]) (simp add: symbols_def)
  then have "parseline n b (after b (snd (peek b ps ''(''))) \<noteq> NoFuel" if "fst (peek b ps ''('')"
    using 6 that by (simp add: prod_eq_iff)
  then show ?case using parseredirs_end by (auto simp: parse_unfold split: parsed.splits)
next
  case (8 n b ps)
  have "length b - snd (peek b ps ''('') \<le> length b - ps" using peek_ge [of ps b "''(''"] by linarith
  then have "parseblock n b (snd (peek b ps ''('')) \<noteq> NoFuel" if "fst (peek b ps ''('')" using 8 that by (simp add: prod_eq_iff)
  then show ?case using parseredirs_end exec_loop_end by (auto simp: parse_unfold split: parsed.splits)
qed simp_all

text \<open>C18: The parser of the shell returns for every line: it produces a command or stops with one of its
  messages, however the line is nested. The recursion never needs more than four calls for each
  character of the line and four to begin with.\<close>

theorem parsecmd_total: "parsecmd b \<noteq> Spins"
  using parse_fuel_enough(1) [of b 0 "parse_fuel b"] by (auto simp: parsecmd_def parse_fuel_def parse_unfold split: parsed.splits)

section \<open>The words of a command\<close>

text \<open>The span of a word, and the C string that starts at an index.\<close>

definition good_span :: "string \<Rightarrow> span \<Rightarrow> bool" where
  "good_span b w \<longleftrightarrow> fst w < snd w \<and> snd w \<le> length b \<and> (\<forall>k. fst w \<le> k \<longrightarrow> k < snd w \<longrightarrow> in_word (b ! k)) \<and>
     (snd w < length b \<longrightarrow> \<not> in_word (b ! snd w))"

definition span_text :: "string \<Rightarrow> span \<Rightarrow> string" where
  "span_text b w = take (snd w - fst w) (drop (fst w) b)"

definition cstr :: "string \<Rightarrow> span \<Rightarrow> string" where
  "cstr b w = takeWhile (\<lambda>c. c \<noteq> NUL) (drop (fst w) b)"

lemma gettoken_word:
  assumes "tok_at b p = CHR ''a''"
  shows "good_span b (word_at b p)"
proof -
  let ?q = "skip_while is_space b p" and ?e = "skip_while in_word b (skip_while is_space b p)"
  let ?c = "char_at b ?q"
  have c: "?c \<noteq> NUL" "?c \<notin> set ''|();&<''" "?c \<noteq> CHR ''>''"
    using assms by (auto simp: gettoken_def Let_def split: if_splits)
  then have w: "word_at b p = (?q, ?e)" by (simp add: gettoken_def Let_def)
  have q: "?q < length b" "b ! ?q = ?c" using c(1) by (auto simp: char_at_def split: if_splits)
  have "\<not> is_space (b ! ?q)" by (rule skip_while_stop [OF q(1)])
  then have iw: "in_word (b ! ?q)" using c q(2) by (auto simp: symbols_def)
  then have "?e = skip_while in_word b (Suc ?q)" using q(1) by (simp add: skip_while.simps [of _ b ?q])
  then have "?q < ?e" using skip_while_ge [of "Suc ?q" in_word b] by linarith
  moreover have "?e \<le> length b" by (rule skip_while_le) (use q(1) in simp)
  moreover have "in_word (b ! k)" if "?q \<le> k" "k < ?e" for k using skip_while_all [OF that] by simp
  moreover have "?e < length b \<Longrightarrow> \<not> in_word (b ! ?e)" using skip_while_stop by blast
  ultimately show ?thesis unfolding w good_span_def by simp
qed

lemma set_add_arg: "set_shcmd (add_arg c a) \<subseteq> insert a (set_shcmd c)"
  by (induction c a rule: add_arg.induct) auto

lemma set_redir_tok: "set_shcmd (redir_tok t c f) \<subseteq> insert f (set_shcmd c)"
  by (auto simp: redir_tok_def)

lemma parseredirs_words:
  "parseredirs b cmd ps = Parsed c p \<Longrightarrow> set_shcmd cmd \<subseteq> Collect (good_span b) \<Longrightarrow> set_shcmd c \<subseteq> Collect (good_span b)"
proof (induction b cmd ps rule: parseredirs.induct)
  case (1 b cmd ps)
  let ?p1 = "snd (peek b ps ''<>'')"
  show ?case
  proof (cases "fst (peek b ps ''<>'') \<and> tok_at b (after b ?p1) = CHR ''a''")
    case True
    then have "good_span b (word_at b (after b ?p1))" by (simp add: gettoken_word)
    then have "set_shcmd (redir_tok (tok_at b ?p1) cmd (word_at b (after b ?p1))) \<subseteq> Collect (good_span b)"
      using 1(3) set_redir_tok [of "tok_at b ?p1" cmd "word_at b (after b ?p1)"] by blast
    then show ?thesis using 1(1) [OF refl refl] 1(2) True by (simp add: parseredirs.simps [of b cmd ps] Let_def)
  qed (use 1 in \<open>auto simp: parseredirs.simps [of b cmd ps] Let_def split: if_splits\<close>)
qed

lemma backs_words: "set_shcmd (fst (backs b cmd ps)) = set_shcmd cmd"
proof (induction b cmd ps rule: backs.induct)
  case (1 b cmd ps)
  then show ?case by (auto simp: backs.simps [of b cmd ps] Let_def)
qed

lemma exec_loop_words:
  "exec_loop b argc cmd ps = Parsed c p \<Longrightarrow> set_shcmd cmd \<subseteq> Collect (good_span b) \<Longrightarrow> set_shcmd c \<subseteq> Collect (good_span b)"
proof (induction b argc cmd ps rule: exec_loop.induct)
  case (1 b argc cmd ps)
  let ?p1 = "snd (peek b ps ''|)&;'')"
  show ?case
  proof (cases "\<not> fst (peek b ps ''|)&;'') \<and> tok_at b ?p1 = CHR ''a'' \<and> argc + 1 < MAXARGS")
    case True
    then obtain d p2 where d: "parseredirs b (add_arg cmd (word_at b ?p1)) (after b ?p1) = Parsed d p2" "exec_loop b (argc + 1) d p2 = Parsed c p"
      using 1(2) by (auto simp: exec_loop.simps [of b argc cmd ps] Let_def split: parsed.splits)
    have "good_span b (word_at b ?p1)" using True by (simp add: gettoken_word)
    then have "set_shcmd (add_arg cmd (word_at b ?p1)) \<subseteq> Collect (good_span b)" using 1(3) set_add_arg [of cmd "word_at b ?p1"] by blast
    then have "set_shcmd d \<subseteq> Collect (good_span b)" by (rule parseredirs_words [OF d(1)])
    then show ?thesis using 1(1) [OF refl _ _ _ _ d(1) d(2)] True by simp
  qed (use 1 in \<open>auto simp: exec_loop.simps [of b argc cmd ps] Let_def split: if_splits\<close>)
qed

lemma parse_words:
  "parseline n b ps = Parsed c p \<Longrightarrow> set_shcmd c \<subseteq> Collect (good_span b)"
  "parsepipe n b ps = Parsed c p \<Longrightarrow> set_shcmd c \<subseteq> Collect (good_span b)"
  "parseblock n b ps = Parsed c p \<Longrightarrow> set_shcmd c \<subseteq> Collect (good_span b)"
  "parseexec n b ps = Parsed c p \<Longrightarrow> set_shcmd c \<subseteq> Collect (good_span b)"
proof (induction n b ps and n b ps and n b ps and n b ps arbitrary: c p and c p and c p and c p
    rule: parseline_parsepipe_parseblock_parseexec.induct)
  case (2 n b ps)
  obtain d p1 where d: "parsepipe n b ps = Parsed d p1" using 2(3) by (cases "parsepipe n b ps") simp_all
  let ?p2 = "snd (backs b d p1)"
  have s: "set_shcmd (fst (backs b d p1)) \<subseteq> Collect (good_span b)" using 2(1) [OF d] by (simp add: backs_words)
  have r: "set_shcmd e \<subseteq> Collect (good_span b)" if "fst (peek b ?p2 '';'')" "parseline n b (after b (snd (peek b ?p2 '';''))) = Parsed e p4" for e p4
    using 2(2) [OF d] that by (simp add: prod_eq_iff)
  show ?case using 2(3) d s r by (auto simp: parse_unfold split: parsed.splits if_splits)
next
  case (4 n b ps)
  obtain d p1 where d: "parseexec n b ps = Parsed d p1" using 4(3) by (cases "parseexec n b ps") simp_all
  have r: "set_shcmd e \<subseteq> Collect (good_span b)" if "fst (peek b p1 ''|'')" "parsepipe n b (after b (snd (peek b p1 ''|''))) = Parsed e p4" for e p4
    using 4(2) [OF d] that by (simp add: prod_eq_iff)
  show ?case using 4(3) d 4(1) [OF d] r by (auto simp: parse_unfold split: parsed.splits if_splits)
next
  case (6 n b ps)
  let ?p1 = "snd (peek b ps ''('')"
  have t: "fst (peek b ps ''('')" using 6(2) by (auto simp: parse_unfold split: if_splits)
  then obtain d p2 where d: "parseline n b (after b ?p1) = Parsed d p2" "parseredirs b d (after b (snd (peek b p2 '')''))) = Parsed c p"
    using 6(2) by (auto simp: parse_unfold split: parsed.splits if_splits)
  have "set_shcmd d \<subseteq> Collect (good_span b)" using 6(1) d(1) t by (simp add: prod_eq_iff)
  then show ?case by (rule parseredirs_words [OF d(2)])
next
  case (8 n b ps)
  let ?p1 = "snd (peek b ps ''('')"
  show ?case
  proof (cases "fst (peek b ps ''('')")
    case True
    then show ?thesis using 8 by (simp add: parse_unfold prod_eq_iff)
  next
    case False
    then obtain d p2 where d: "parseredirs b (EXEC []) ?p1 = Parsed d p2" "exec_loop b 0 d p2 = Parsed c p"
      using 8(2) by (auto simp: parse_unfold split: parsed.splits)
    have "set_shcmd d \<subseteq> Collect (good_span b)" by (rule parseredirs_words [OF d(1)]) simp
    then show ?thesis by (rule exec_loop_words [OF d(2)])
  qed
qed simp_all

lemma nulterminate_nth:
  "length (nulterminate c b) = length b \<and> (\<forall>k<length b. nulterminate c b ! k = (if k \<in> snd ` set_shcmd c then NUL else b ! k))"
proof (induction c b rule: nulterminate.induct)
  case (1 as b)
  have "length (fold (\<lambda>a b. b[snd a := NUL]) as b) = length b \<and>
      (\<forall>k<length b. fold (\<lambda>a b. b[snd a := NUL]) as b ! k = (if k \<in> snd ` set as then NUL else b ! k))" for b
    by (induction as arbitrary: b) (auto simp: nth_list_update)
  then show ?case by simp
next
  case (2 c f m d b)
  then show ?case by (cases "snd f < length b") (auto simp: nth_list_update)
qed (auto simp: image_Un)

lemma cstr_slice:
  assumes g: "good_span b w" "\<forall>x\<in>S. good_span b x" "w \<in> S" and n: "NUL \<notin> set b" and l: "length b' = length b"
    and b': "\<forall>k<length b. b' ! k = (if k \<in> snd ` S then NUL else b ! k)"
  shows "cstr b' w = span_text b w"
proof -
  have w: "fst w < snd w" "snd w \<le> length b" "\<And>k. fst w \<le> k \<Longrightarrow> k < snd w \<Longrightarrow> in_word (b ! k)" using g(1) by (auto simp: good_span_def)
  have same: "b' ! k = b ! k \<and> b ! k \<noteq> NUL" if "fst w \<le> k" "k < snd w" for k
  proof -
    have "k \<notin> snd ` S" using g(2) w(2) w(3) [OF that] that(2) by (fastforce simp: good_span_def)
    moreover have "b ! k \<noteq> NUL" using n w(2) that(2) by (metis nth_mem order_less_le_trans)
    ultimately show ?thesis using b' that w(2) by simp
  qed
  have d: "drop (fst w) b' = take (snd w - fst w) (drop (fst w) b) @ drop (snd w) b'"
  proof -
    have "take (snd w - fst w) (drop (fst w) b') = take (snd w - fst w) (drop (fst w) b)"
      using same w(1,2) l by (intro nth_equalityI) auto
    then show ?thesis using w(1) append_take_drop_id [of "snd w - fst w" "drop (fst w) b'"] by simp
  qed
  have "\<forall>c\<in>set (take (snd w - fst w) (drop (fst w) b)). c \<noteq> NUL"
    using n in_set_takeD in_set_dropD by metis
  moreover have "takeWhile (\<lambda>c. c \<noteq> NUL) (drop (snd w) b') = []"
  proof (cases "snd w < length b")
    case True
    then have "drop (snd w) b' = NUL # drop (Suc (snd w)) b'" using b' g(3) l by (simp add: Cons_nth_drop_Suc [symmetric])
    then show ?thesis by simp
  qed (simp add: l)
  ultimately show ?thesis unfolding cstr_def span_text_def d by (simp add: takeWhile_append)
qed

lemma words_cstr:
  assumes "set_shcmd c \<subseteq> Collect (good_span b)" "NUL \<notin> set b"
  shows "map_shcmd (cstr (nulterminate c b)) c = map_shcmd (span_text b) c"
proof (rule shcmd.map_cong0)
  fix w assume "w \<in> set_shcmd c"
  then show "cstr (nulterminate c b) w = span_text b w"
    using assms nulterminate_nth [of c b] by (intro cstr_slice [of b w "set_shcmd c"]) auto
qed

text \<open>C17: When a line has been parsed, every argument and file name of the command is a non-empty word of
  the line, and the NULs that \<^verbatim>\<open>nulterminate\<close> writes into the line make the C string at the start
  of each word exactly that word: the end of one word never falls into another.\<close>

theorem parsecmd_words:
  assumes p: "parsecmd b = Command c b'" and n: "NUL \<notin> set b"
  shows "map_shcmd (cstr b') c = map_shcmd (span_text b) c \<and> (\<forall>w\<in>set_shcmd c. cstr b' w \<noteq> [] \<and> (\<forall>x\<in>set (cstr b' w). in_word x))"
proof -
  obtain q where q: "parseline (parse_fuel b) b 0 = Parsed c q" "b' = nulterminate c b"
    using p by (auto simp: parsecmd_def parse_unfold split: parsed.splits if_splits)
  have g: "\<forall>w\<in>set_shcmd c. good_span b w" using parse_words(1) [OF q(1)] by blast
  have e: "cstr b' w = span_text b w" if "w \<in> set_shcmd c" for w
    using that g n nulterminate_nth [of c b] q(2) by (intro cstr_slice [of b w "set_shcmd c"]) auto
  have "span_text b w \<noteq> [] \<and> (\<forall>x\<in>set (span_text b w). in_word x)" if "good_span b w" for w
  proof (intro conjI ballI)
    show "span_text b w \<noteq> []" using that by (auto simp: good_span_def span_text_def)
    fix x assume "x \<in> set (span_text b w)"
    then obtain i where "i < snd w - fst w" "x = b ! (fst w + i)" using that by (auto simp: span_text_def in_set_conv_nth [of x] good_span_def)
    then show "x \<notin> set whitespace" "x \<notin> set symbols" using that by (simp_all add: good_span_def)
  qed
  moreover have "map_shcmd (cstr b') c = map_shcmd (span_text b) c" unfolding q(2) by (rule words_cstr [OF parse_words(1) [OF q(1)] n])
  ultimately show ?thesis using g e by auto
qed

theorem parsecmd_words_witness:
  "\<exists>c b'. parsecmd ''ls>f|wc x'' = Command c b' \<and> map_shcmd (cstr b') c = PIPE (REDIR (EXEC [''ls'']) ''f'' WR_CREATE 1) (EXEC [''wc'', ''x''])"
proof -
  have p: "parsecmd ''ls>f|wc x'' = Command (PIPE (REDIR (EXEC [(0, 2)]) (3, 4) WR_CREATE 1) (EXEC [(5, 7), (8, 9)]))
      (''ls'' @ [NUL] @ ''f'' @ [NUL] @ ''wc'' @ [NUL] @ ''x'')"
    by code_simp
  show ?thesis using parsecmd_words [OF p] p by (simp add: span_text_def)
qed

section \<open>Printing and parsing\<close>

text \<open>A command as a list of tokens, with parentheses where the grammar needs them (levels: 0 for
  \<^verbatim>\<open>parseline\<close>, 1 for what precedes a semicolon, 2 for \<^verbatim>\<open>parsepipe\<close>, 3 for \<^verbatim>\<open>parseexec\<close>), and as text.\<close>

datatype tk = Sym char | Word string

fun tk_str :: "tk \<Rightarrow> string" where
  "tk_str (Sym c) = [c]"
| "tk_str (Word w) = w"

definition render :: "tk list \<Rightarrow> string" where
  "render ts = concat (map (\<lambda>t. tk_str t @ '' '') ts)"

definition paren :: "bool \<Rightarrow> tk list \<Rightarrow> tk list" where
  "paren p ts = (if p then Sym (CHR ''('') # ts @ [Sym (CHR '')'')] else ts)"

definition redir_tks :: "string \<times> int \<times> int \<Rightarrow> tk list" where
  "redir_tks r = [Sym (if fst (snd r) = RD_ONLY then CHR ''<'' else CHR ''>''), Word (fst r)]"

fun toks :: "nat \<Rightarrow> string shcmd \<Rightarrow> tk list" where
  "toks l (EXEC ws) = map Word ws"
| "toks l (REDIR c f m d) = toks 3 c @ redir_tks (f, m, d)"
| "toks l (PIPE a c) = paren (2 < l) (toks 3 a @ [Sym (CHR ''|'')] @ toks 2 c)"
| "toks l (BACK c) = paren (1 < l) (toks 1 c @ [Sym (CHR ''&'')])"
| "toks l (LIST a c) = paren (0 < l) (toks 1 a @ [Sym (CHR '';'')] @ toks 0 c)"

definition print_cmd :: "string shcmd \<Rightarrow> string" where
  "print_cmd c = render (toks 0 c)"

definition wf_word :: "string \<Rightarrow> bool" where
  "wf_word w \<longleftrightarrow> w \<noteq> [] \<and> list_all (\<lambda>c. in_word c \<and> c \<noteq> NUL) w"

fun wf_cmd :: "string shcmd \<Rightarrow> bool" where
  "wf_cmd (EXEC ws) \<longleftrightarrow> length ws < MAXARGS \<and> list_all wf_word ws"
| "wf_cmd (REDIR c f m d) \<longleftrightarrow> wf_cmd c \<and> wf_word f \<and> (m, d) \<in> {(RD_ONLY, 0), (WR_CREATE, 1)}"
| "wf_cmd (PIPE a c) \<longleftrightarrow> wf_cmd a \<and> wf_cmd c"
| "wf_cmd (LIST a c) \<longleftrightarrow> wf_cmd a \<and> wf_cmd c"
| "wf_cmd (BACK c) \<longleftrightarrow> wf_cmd c"

fun wf_tk :: "tk \<Rightarrow> bool" where
  "wf_tk (Sym c) \<longleftrightarrow> c \<in> set symbols"
| "wf_tk (Word w) \<longleftrightarrow> wf_word w"

definition at_toks :: "string \<Rightarrow> nat \<Rightarrow> tk list \<Rightarrow> bool" where
  "at_toks b p ts \<longleftrightarrow> p \<le> length b \<and> drop p b = render ts \<and> list_all wf_tk ts"

fun first_in :: "tk list \<Rightarrow> string \<Rightarrow> bool" where
  "first_in (Sym c # ts) cs \<longleftrightarrow> c \<in> set cs"
| "first_in ts cs \<longleftrightarrow> False"

lemma skip_while_drop:
  "p \<le> length b \<Longrightarrow> skip_while P b p = p + length (takeWhile P (drop p b)) \<and> drop (skip_while P b p) b = dropWhile P (drop p b)"
proof (induction P b p rule: skip_while.induct)
  case (1 P b p)
  show ?case
  proof (cases "p < length b")
    case True
    then have "drop p b = b ! p # drop (Suc p) b" by (simp add: Cons_nth_drop_Suc)
    then show ?thesis using 1 True by (auto simp: skip_while.simps [of P b p])
  next
    case False
    then have "skip_while P b p = p" by (subst skip_while.simps) simp
    moreover have "drop p b = []" using False by simp
    ultimately show ?thesis by simp
  qed
qed

lemma char_at_drop: "drop p b = c # r \<Longrightarrow> char_at b p = c" "drop p b = c # r \<Longrightarrow> p < length b" "drop p b = c # r \<Longrightarrow> drop (Suc p) b = r"
proof -
  show l: "drop p b = c # r \<Longrightarrow> p < length b" for c r by (metis drop_all list.distinct(1) not_le)
  show "drop p b = c # r \<Longrightarrow> char_at b p = c" using l by (metis Cons_nth_drop_Suc char_at_def list.inject)
  show "drop p b = c # r \<Longrightarrow> drop (Suc p) b = r" by (metis drop_Suc list.sel(3) tl_drop)
qed

lemma render_simps [simp]: "render [] = []" "render (t # ts) = tk_str t @ CHR '' '' # render ts"
  by (simp_all add: render_def)

lemma space_is_space [simp]: "is_space (CHR '' '')"
  by (simp add: whitespace_def)

lemma symbols_nospace: "c \<in> set symbols \<Longrightarrow> \<not> is_space c \<and> c \<noteq> NUL"
  by (auto simp: symbols_def whitespace_def)

lemma tk_start: "wf_tk t \<Longrightarrow> \<exists>c r. tk_str t = c # r \<and> \<not> is_space c \<and> c \<noteq> NUL"
  by (cases t) (auto simp: wf_word_def neq_Nil_conv symbols_nospace)

lemma render_start: "list_all wf_tk ts \<Longrightarrow> dropWhile is_space (render ts) = render ts"
  using tk_start by (cases ts) fastforce+

lemma at_skip:
  assumes "at_toks b p ts"
  shows "skip_while is_space b p = p"
proof -
  have "dropWhile is_space (drop p b) = drop p b" using assms by (simp add: at_toks_def render_start)
  then have "takeWhile is_space (drop p b) = []" by (metis append_self_conv2 takeWhile_dropWhile_id)
  then show ?thesis using assms skip_while_drop [of p b is_space] by (simp add: at_toks_def)
qed

lemma at_space:
  assumes "e \<le> length b" "drop e b = CHR '' '' # render ts" "list_all wf_tk ts"
  shows "at_toks b (skip_while is_space b e) ts"
proof -
  have "drop (skip_while is_space b e) b = dropWhile is_space (CHR '' '' # render ts)"
    using conjunct2 [OF skip_while_drop [OF assms(1), of is_space]] unfolding assms(2) .
  also have "\<dots> = render ts" using assms(3) by (simp add: render_start)
  finally show ?thesis using assms(1,3) skip_while_le by (simp add: at_toks_def)
qed

lemma peek_at:
  assumes a: "at_toks b p ts" and cs: "set cs \<subseteq> set symbols"
  shows "peek b p cs = (first_in ts cs, p)"
proof (cases ts)
  case Nil
  then have "char_at b p = NUL" using a by (simp add: at_toks_def char_at_def)
  then show ?thesis using at_skip [OF a] Nil by (simp add: peek_def)
next
  case (Cons t ts')
  then obtain c r where c: "tk_str t = c # r" "c \<noteq> NUL" using a tk_start [of t] by (auto simp: at_toks_def)
  then have "char_at b p = c" using a Cons char_at_drop(1) [of p b c] by (simp add: at_toks_def)
  moreover have "(c \<in> set cs) = first_in ts cs"
    using a Cons c cs by (cases t) (auto simp: at_toks_def wf_word_def)
  ultimately show ?thesis using at_skip [OF a] c(2) by (simp add: peek_def)
qed

lemma token_sym:
  assumes a: "at_toks b p (Sym c # ts)"
  shows "tok_at b p = c \<and> at_toks b (after b p) ts"
proof -
  have s: "skip_while is_space b p = p" by (rule at_skip [OF a])
  have d: "drop p b = c # CHR '' '' # render ts" and w: "c \<in> set symbols" "list_all wf_tk ts" using a by (simp_all add: at_toks_def)
  note c = char_at_drop [OF d]
  have "char_at b (Suc p) = CHR '' ''" using c(3) char_at_drop(1) by simp
  then have "gettoken b p = (c, p, Suc p, skip_while is_space b (Suc p))"
    using s c(1) w(1) by (auto simp: gettoken_def Let_def symbols_def)
  then show ?thesis using at_space [of "Suc p" b ts] c(2,3) w(2) by simp
qed

lemma token_word:
  assumes a: "at_toks b p (Word w # ts)"
  shows "tok_at b p = CHR ''a'' \<and> span_text b (word_at b p) = w \<and> at_toks b (after b p) ts"
proof -
  have s: "skip_while is_space b p = p" by (rule at_skip [OF a])
  have d: "drop p b = w @ CHR '' '' # render ts" and w: "wf_word w" "list_all wf_tk ts" and p: "p \<le> length b" using a by (simp_all add: at_toks_def)
  obtain x r where x: "w = x # r" "in_word x" "x \<noteq> NUL" using w(1) by (cases w) (auto simp: wf_word_def)
  have c: "char_at b p = x" using d x char_at_drop(1) by simp
  have tw: "takeWhile in_word (drop p b) = w" "dropWhile in_word (drop p b) = CHR '' '' # render ts"
    using d w(1) by (simp_all add: wf_word_def list_all_iff takeWhile_append dropWhile_append)
  have e: "skip_while in_word b p = p + length w" "drop (p + length w) b = CHR '' '' # render ts"
    using skip_while_drop [OF p, of in_word] unfolding tw by auto
  have "x \<notin> set ''|();&<''" "x \<noteq> CHR ''>''" using x(2) by (auto simp: symbols_def)
  then have "gettoken b p = (CHR ''a'', p, p + length w, skip_while is_space b (p + length w))"
    using s c x(3) e(1) by (simp add: gettoken_def Let_def)
  moreover have "p + length w \<le> length b" using skip_while_le [OF p, of in_word] e(1) by simp
  moreover have "span_text b (p, p + length w) = w" using d by (simp add: span_text_def)
  ultimately show ?thesis using at_space [of "p + length w" b ts] e(2) w(2) by simp
qed

abbreviation text_of :: "string \<Rightarrow> span shcmd \<Rightarrow> string shcmd" where
  "text_of b \<equiv> map_shcmd (span_text b)"

definition redirs :: "string shcmd \<Rightarrow> (string \<times> int \<times> int) list \<Rightarrow> string shcmd" where
  "redirs c rs = foldl (\<lambda>c (f, m, d). REDIR c f m d) c rs"

definition wf_redir :: "string \<times> int \<times> int \<Rightarrow> bool" where
  "wf_redir r \<longleftrightarrow> snd r \<in> {(RD_ONLY, 0), (WR_CREATE, 1)}"

abbreviation rtoks :: "(string \<times> int \<times> int) list \<Rightarrow> tk list" where
  "rtoks rs \<equiv> concat (map redir_tks rs)"

definition stops :: "string \<Rightarrow> tk list \<Rightarrow> bool" where
  "stops cs ts \<longleftrightarrow> ts = [] \<or> first_in ts cs"

lemma stops_mono: "stops cs ts \<Longrightarrow> set cs \<subseteq> set ds \<Longrightarrow> stops ds ts"
  by (cases "(ts, cs)" rule: first_in.cases) (auto simp: stops_def)

lemma stops_not: "stops cs ts \<Longrightarrow> set cs \<inter> set ds = {} \<Longrightarrow> \<not> first_in ts ds"
  by (cases "(ts, cs)" rule: first_in.cases) (auto simp: stops_def)

lemma at_length: "at_toks b p ts \<Longrightarrow> length b - p = length (render ts)"
  unfolding at_toks_def by (metis length_drop)

lemma render_append [simp]: "render (xs @ ys) = render xs @ render ys"
  by (simp add: render_def)

lemma parseredirs_at:
  assumes "at_toks b p (rtoks rs @ ts)" "list_all wf_redir rs" "\<not> first_in ts ''<>''"
  shows "\<exists>c' p'. parseredirs b c p = Parsed c' p' \<and> at_toks b p' ts \<and> text_of b c' = redirs (text_of b c) rs"
  using assms
proof (induction rs arbitrary: c p)
  case Nil
  then have "peek b p ''<>'' = (False, p)" using peek_at [of b p ts "''<>''"] by (simp add: symbols_def)
  then show ?case using Nil by (simp add: parseredirs.simps [of b c p] redirs_def)
next
  case (Cons r rs)
  obtain f m d where r: "r = (f, m, d)" by (cases r) auto
  let ?s = "if m = RD_ONLY then CHR ''<'' else CHR ''>''"
  have "redir_tks r = [Sym ?s, Word f]" by (simp add: redir_tks_def r)
  then have a: "at_toks b p (Sym ?s # Word f # rtoks rs @ ts)" using Cons(2) by simp
  have pk: "peek b p ''<>'' = (True, p)" using peek_at [OF a, of "''<>''"] by (simp add: symbols_def)
  note t1 = token_sym [OF a]
  note t2 = token_word [OF conjunct2 [OF t1]]
  have "text_of b (redir_tok ?s c (word_at b (after b p))) = REDIR (text_of b c) f m d"
    using Cons(3) r t2 by (auto simp: redir_tok_def wf_redir_def)
  moreover obtain c' p' where "parseredirs b (redir_tok ?s c (word_at b (after b p))) (after b (after b p)) = Parsed c' p'" "at_toks b p' ts"
    "text_of b c' = redirs (text_of b (redir_tok ?s c (word_at b (after b p)))) rs"
    using Cons(1) [of "after b (after b p)" "redir_tok ?s c (word_at b (after b p))"] Cons(3,4) t2 by auto
  ultimately show ?case using pk t1 t2 r by (auto simp: parseredirs.simps [of b c p] redirs_def)
qed

lemma text_add_arg: "text_of b (add_arg c w) = add_arg (text_of b c) (span_text b w)"
  by (induction c w rule: add_arg.induct) simp_all

lemma exec_at:
  assumes "at_toks b p (map Word ws @ rtoks rs @ ts)" "list_all wf_redir rs" "stops ''|)&;'' ts" "argc + length ws < MAXARGS"
  shows "\<exists>c1 p1 c' p'. parseredirs b c p = Parsed c1 p1 \<and> exec_loop b argc c1 p1 = Parsed c' p' \<and> at_toks b p' ts \<and>
    text_of b c' = redirs (foldl add_arg (text_of b c) ws) rs"
  using assms
proof (induction ws arbitrary: c p argc)
  case Nil
  have nr: "\<not> first_in ts ''<>''" by (rule stops_not [OF Nil(3)]) simp
  obtain c1 p1 where r: "parseredirs b c p = Parsed c1 p1" "at_toks b p1 ts" "text_of b c1 = redirs (text_of b c) rs"
    using parseredirs_at [OF _ Nil(2) nr, of b p c] Nil(1) by auto
  have pk: "peek b p1 ''|)&;'' = (first_in ts ''|)&;'', p1)" by (rule peek_at [OF r(2)]) (simp add: symbols_def)
  show ?case
  proof (cases "ts = []")
    case True
    then have e: "p1 = length b" using r(2) by (simp add: at_toks_def)
    have "skip_while is_space b p1 = p1" by (rule at_skip [OF r(2)])
    then have "gettoken b p1 = (NUL, p1, p1, p1)" using e by (simp add: gettoken_def char_at_def Let_def)
    then show ?thesis using r pk True by (simp add: exec_loop.simps [of b argc c1 p1])
  next
    case False
    then have "first_in ts ''|)&;''" using Nil(3) by (simp add: stops_def)
    then show ?thesis using r pk by (simp add: exec_loop.simps [of b argc c1 p1])
  qed
next
  case (Cons w ws)
  have a: "at_toks b p (rtoks [] @ Word w # map Word ws @ rtoks rs @ ts)" using Cons(2) by simp
  obtain c1 p1 where r: "parseredirs b c p = Parsed c1 p1" "at_toks b p1 (Word w # map Word ws @ rtoks rs @ ts)" "text_of b c1 = text_of b c"
    using parseredirs_at [OF a, of c] by (auto simp: redirs_def)
  have pk: "peek b p1 ''|)&;'' = (False, p1)" using peek_at [OF r(2), of "''|)&;''"] by (simp add: symbols_def)
  note t = token_word [OF r(2)]
  obtain c2 p2 c' p' where l: "parseredirs b (add_arg c1 (word_at b p1)) (after b p1) = Parsed c2 p2" "exec_loop b (argc + 1) c2 p2 = Parsed c' p'"
      "at_toks b p' ts" "text_of b c' = redirs (foldl add_arg (text_of b (add_arg c1 (word_at b p1))) ws) rs"
    using Cons(1) [of "after b p1" "argc + 1" "add_arg c1 (word_at b p1)"] Cons(3-5) t by auto
  have "exec_loop b argc c1 p1 = Parsed c' p'" using pk t l(1,2) Cons(5) by (simp add: exec_loop.simps [of b argc c1 p1])
  then show ?case using r l(3,4) t by (auto simp: text_add_arg)
qed

text \<open>What the functions of the parser do on the tokens of a command, at each level.\<close>

definition parses :: "(nat \<Rightarrow> string \<Rightarrow> nat \<Rightarrow> span shcmd parsed) \<Rightarrow> nat \<Rightarrow> string \<Rightarrow> tk list \<Rightarrow> string shcmd \<Rightarrow> bool" where
  "parses P k cs us c \<longleftrightarrow> (\<forall>n b p ts. at_toks b p (us @ ts) \<longrightarrow> stops cs ts \<longrightarrow> 4 * (length b - p) + k \<le> n \<longrightarrow>
     (\<exists>c' p'. P n b p = Parsed c' p' \<and> at_toks b p' ts \<and> text_of b c' = c))"

lemma parsesD:
  assumes "parses P k cs us c" "at_toks b p (us @ ts)" "stops cs ts" "4 * (length b - p) + k \<le> n"
  obtains c' p' where "P n b p = Parsed c' p'" "at_toks b p' ts" "text_of b c' = c"
  using assms unfolding parses_def by blast

abbreviation EXEC_STOP :: string where "EXEC_STOP \<equiv> ''|)&;''"
abbreviation PIPE_STOP :: string where "PIPE_STOP \<equiv> '')&;''"
abbreviation LINE_STOP :: string where "LINE_STOP \<equiv> '')''"

definition parses_exec :: "string shcmd \<Rightarrow> bool" where
  "parses_exec c \<longleftrightarrow> (\<forall>rs. list_all wf_redir rs \<longrightarrow> parses parseexec 2 EXEC_STOP (toks 3 c @ rtoks rs) (redirs c rs))"

definition parses_pipe :: "string shcmd \<Rightarrow> bool" where
  "parses_pipe c \<longleftrightarrow> parses parsepipe 3 PIPE_STOP (toks 2 c) c"

definition parse_back :: "nat \<Rightarrow> string \<Rightarrow> nat \<Rightarrow> span shcmd parsed" where
  "parse_back n b p = (case parsepipe n b p of Parsed c p1 \<Rightarrow> Parsed (fst (backs b c p1)) (snd (backs b c p1)) | e \<Rightarrow> e)"

definition parses_back :: "string shcmd \<Rightarrow> bool" where
  "parses_back c \<longleftrightarrow> (\<forall>k. parses parse_back 3 '');'' (toks 1 c @ replicate k (Sym (CHR ''&''))) ((BACK ^^ k) c))"

definition parses_line :: "string shcmd \<Rightarrow> bool" where
  "parses_line c \<longleftrightarrow> parses parseline 4 LINE_STOP (toks 0 c) c"

lemma backs_at:
  assumes "at_toks b p (replicate k (Sym (CHR ''&'')) @ ts)" "\<not> first_in ts ''&''"
  shows "at_toks b (snd (backs b c p)) ts \<and> text_of b (fst (backs b c p)) = (BACK ^^ k) (text_of b c)"
  using assms
proof (induction k arbitrary: c p)
  case 0
  then have "peek b p ''&'' = (False, p)" using peek_at [of b p ts "''&''"] by (simp add: symbols_def)
  then show ?case using 0 by (simp add: backs.simps [of b c p])
next
  case (Suc k)
  have a: "at_toks b p (Sym (CHR ''&'') # replicate k (Sym (CHR ''&'')) @ ts)" using Suc(2) by simp
  have "peek b p ''&'' = (True, p)" using peek_at [OF a, of "''&''"] by (simp add: symbols_def)
  then show ?case using Suc(1) [OF conjunct2 [OF token_sym [OF a]] Suc(3), of "BACK c"]
    by (simp add: backs.simps [of b c p] funpow_swap1)
qed

lemma exec_pipe:
  assumes e: "parses_exec c" and t: "toks 2 c = toks 3 c"
  shows "parses_pipe c"
  unfolding parses_pipe_def parses_def
proof (intro allI impI)
  fix n b p ts
  assume a: "at_toks b p (toks 2 c @ ts)" and s: "stops PIPE_STOP ts" and n: "4 * (length b - p) + 3 \<le> n"
  obtain m where m: "n = Suc m" using n by (cases n) simp_all
  have "parses parseexec 2 EXEC_STOP (toks 3 c) c" using e unfolding parses_exec_def by (auto dest: spec [of _ "[]"] simp: redirs_def)
  from parsesD [OF this, of b p ts m] a t stops_mono [OF s, of EXEC_STOP] n m
  obtain c' p' where r: "parseexec m b p = Parsed c' p'" "at_toks b p' ts" "text_of b c' = c" by auto
  have "peek b p' ''|'' = (False, p')" using peek_at [OF r(2), of "''|''"] stops_not [OF s, of "''|''"] by (simp add: symbols_def)
  then show "\<exists>c' p'. parsepipe n b p = Parsed c' p' \<and> at_toks b p' ts \<and> text_of b c' = c" using r m by simp
qed

lemma pipe_back:
  assumes e: "parses_pipe c" and t: "toks 1 c = toks 2 c"
  shows "parses_back c"
  unfolding parses_back_def parses_def
proof (intro allI impI)
  fix k n b p ts
  let ?r = "replicate k (Sym (CHR ''&''))"
  assume a: "at_toks b p ((toks 1 c @ ?r) @ ts)" and s: "stops '');'' ts" and n: "4 * (length b - p) + 3 \<le> n"
  have "stops PIPE_STOP (?r @ ts)" using stops_mono [OF s, of PIPE_STOP] by (cases k) (auto simp: stops_def)
  then obtain c' p' where r: "parsepipe n b p = Parsed c' p'" "at_toks b p' (?r @ ts)" "text_of b c' = c"
    using parsesD [OF e [unfolded parses_pipe_def], of b p "?r @ ts" n] a t n by auto
  have "\<not> first_in ts ''&''" by (rule stops_not [OF s]) simp
  note bk = backs_at [OF r(2) this, of c']
  then show "\<exists>c' p'. parse_back n b p = Parsed c' p' \<and> at_toks b p' ts \<and> text_of b c' = (BACK ^^ k) c" using r by (simp add: parse_back_def)
qed

lemma parseline_back:
  "parseline (Suc n) b p = (case parse_back n b p of
     Parsed c p2 \<Rightarrow> (if fst (peek b p2 '';'') then (case parseline n b (after b (snd (peek b p2 '';''))) of Parsed d p4 \<Rightarrow> Parsed (LIST c d) p4 | e \<Rightarrow> e)
       else Parsed c (snd (peek b p2 '';''))) | e \<Rightarrow> e)"
  by (simp add: parse_back_def parse_unfold split: parsed.split)

lemma back_line:
  assumes e: "parses_back c" and t: "toks 0 c = toks 1 c"
  shows "parses_line c"
  unfolding parses_line_def parses_def
proof (intro allI impI)
  fix n b p ts
  assume a: "at_toks b p (toks 0 c @ ts)" and s: "stops LINE_STOP ts" and n: "4 * (length b - p) + 4 \<le> n"
  obtain m where m: "n = Suc m" using n by (cases n) simp_all
  have "parses parse_back 3 '');'' (toks 1 c) c" using e unfolding parses_back_def by (auto dest: spec [of _ 0])
  from parsesD [OF this, of b p ts m] a t stops_mono [OF s, of "'');''"] n m
  obtain c' p' where r: "parse_back m b p = Parsed c' p'" "at_toks b p' ts" "text_of b c' = c" by auto
  have "peek b p' '';'' = (False, p')" using peek_at [OF r(2), of "'';''"] stops_not [OF s, of "'';''"] by (simp add: symbols_def)
  then show "\<exists>c' p'. parseline n b p = Parsed c' p' \<and> at_toks b p' ts \<and> text_of b c' = c" using r m by (simp add: parseline_back del: parseline.simps)
qed

lemma line_exec:
  assumes e: "parses_line c" and t: "toks 3 c = paren True (toks 0 c)"
  shows "parses_exec c"
  unfolding parses_exec_def parses_def
proof (intro allI impI)
  fix rs n b p ts
  assume wr: "list_all wf_redir rs" and a: "at_toks b p ((toks 3 c @ rtoks rs) @ ts)" and s: "stops EXEC_STOP ts" and n: "4 * (length b - p) + 2 \<le> n"
  obtain m where m: "n = Suc (Suc m)" using n by (cases n; cases "n - 1") simp_all
  have a1: "at_toks b p (Sym (CHR ''('') # toks 0 c @ Sym (CHR '')'') # rtoks rs @ ts)" using a t by (simp add: paren_def)
  have p1: "peek b p ''('' = (True, p)" using peek_at [OF a1, of "''(''"] by (simp add: symbols_def)
  note t1 = conjunct2 [OF token_sym [OF a1]]
  have "4 * (length b - after b p) + 4 \<le> m"
    using at_length [OF a1] at_length [OF t1] n m by simp
  then obtain c' p' where r: "parseline m b (after b p) = Parsed c' p'" "at_toks b p' (Sym (CHR '')'') # rtoks rs @ ts)" "text_of b c' = c"
    using parsesD [OF e [unfolded parses_line_def] t1] by (auto simp: stops_def)
  have p2: "peek b p' '')'' = (True, p')" using peek_at [OF r(2), of "'')''"] by (simp add: symbols_def)
  have "\<not> first_in ts ''<>''" by (rule stops_not [OF s]) simp
  from parseredirs_at [OF conjunct2 [OF token_sym [OF r(2)]] wr this, of c']
  show "\<exists>c' p'. parseexec n b p = Parsed c' p' \<and> at_toks b p' ts \<and> text_of b c' = redirs c rs" using m p1 p2 r by simp
qed

lemma exec_words:
  assumes "length ws < MAXARGS" "list_all wf_word ws"
  shows "parses_exec (EXEC ws)"
  unfolding parses_exec_def parses_def
proof (intro allI impI)
  fix rs n b p ts
  assume wr: "list_all wf_redir rs" and a: "at_toks b p ((toks 3 (EXEC ws) @ rtoks rs) @ ts)" and s: "stops EXEC_STOP ts" and n: "4 * (length b - p) + 2 \<le> n"
  obtain m where m: "n = Suc m" using n by (cases n) simp_all
  have a1: "at_toks b p (map Word ws @ rtoks rs @ ts)" using a by simp
  have "\<not> first_in (map Word ws @ rtoks rs @ ts) ''(''"
  proof (cases ws)
    case Nil
    then show ?thesis using stops_not [OF s, of "''(''"] by (cases rs) (auto simp: redir_tks_def)
  qed simp
  then have pk: "peek b p ''('' = (False, p)" using peek_at [OF a1, of "''(''"] by (simp add: symbols_def)
  have f: "foldl add_arg (EXEC us) ws = EXEC (us @ ws)" for us :: "string list" by (induction ws arbitrary: us) simp_all
  obtain c1 p1 c' p' where "parseredirs b (EXEC []) p = Parsed c1 p1" "exec_loop b 0 c1 p1 = Parsed c' p'" "at_toks b p' ts"
    "text_of b c' = redirs (foldl add_arg (text_of b (EXEC [])) ws) rs"
    using exec_at [OF a1 wr s, of 0 "EXEC []"] assms(1) by auto
  then show "\<exists>c' p'. parseexec n b p = Parsed c' p' \<and> at_toks b p' ts \<and> text_of b c' = redirs (EXEC ws) rs" using m pk f [of "[]"] by simp
qed

lemma exec_redir:
  assumes e: "parses_exec c" and r: "wf_redir (f, m, d)"
  shows "parses_exec (REDIR c f m d)"
  unfolding parses_exec_def
proof (intro allI impI)
  fix rs assume "list_all wf_redir rs"
  then have "list_all wf_redir ((f, m, d) # rs)" using r by simp
  then have "parses parseexec 2 EXEC_STOP (toks 3 c @ rtoks ((f, m, d) # rs)) (redirs c ((f, m, d) # rs))"
    using e unfolding parses_exec_def by blast
  then show "parses parseexec 2 EXEC_STOP (toks 3 (REDIR c f m d) @ rtoks rs) (redirs (REDIR c f m d) rs)" by (simp add: redirs_def)
qed

lemma pipe_pipe:
  assumes l: "parses_exec c" and r: "parses_pipe d"
  shows "parses_pipe (PIPE c d)"
  unfolding parses_pipe_def parses_def
proof (intro allI impI)
  fix n b p ts
  assume a: "at_toks b p (toks 2 (PIPE c d) @ ts)" and s: "stops PIPE_STOP ts" and n: "4 * (length b - p) + 3 \<le> n"
  obtain m where m: "n = Suc m" using n by (cases n) simp_all
  have a1: "at_toks b p (toks 3 c @ Sym (CHR ''|'') # toks 2 d @ ts)" using a by (simp add: paren_def)
  have "parses parseexec 2 EXEC_STOP (toks 3 c) c" using l unfolding parses_exec_def by (auto dest: spec [of _ "[]"] simp: redirs_def)
  from parsesD [OF this a1, of m] n m
  obtain c' p1 where r1: "parseexec m b p = Parsed c' p1" "at_toks b p1 (Sym (CHR ''|'') # toks 2 d @ ts)" "text_of b c' = c" by (auto simp: stops_def)
  have pk: "peek b p1 ''|'' = (True, p1)" using peek_at [OF r1(2), of "''|''"] by (simp add: symbols_def)
  note t1 = conjunct2 [OF token_sym [OF r1(2)]]
  have "4 * (length b - after b p1) + 3 \<le> m" using at_length [OF a1] at_length [OF t1] n m by simp
  then obtain d' p' where "parsepipe m b (after b p1) = Parsed d' p'" "at_toks b p' ts" "text_of b d' = d"
    using parsesD [OF r [unfolded parses_pipe_def] t1 s] by blast
  then show "\<exists>c' p'. parsepipe n b p = Parsed c' p' \<and> at_toks b p' ts \<and> text_of b c' = PIPE c d" using m r1 pk by simp
qed

lemma back_back:
  assumes "parses_back c"
  shows "parses_back (BACK c)"
  unfolding parses_back_def
proof
  fix k
  have "parses parse_back 3 '');'' (toks 1 c @ replicate (Suc k) (Sym (CHR ''&''))) ((BACK ^^ Suc k) c)" using assms unfolding parses_back_def by blast
  then show "parses parse_back 3 '');'' (toks 1 (BACK c) @ replicate k (Sym (CHR ''&''))) ((BACK ^^ k) (BACK c))"
    by (simp add: paren_def funpow_swap1)
qed

lemma line_list:
  assumes l: "parses_back c" and r: "parses_line d"
  shows "parses_line (LIST c d)"
  unfolding parses_line_def parses_def
proof (intro allI impI)
  fix n b p ts
  assume a: "at_toks b p (toks 0 (LIST c d) @ ts)" and s: "stops LINE_STOP ts" and n: "4 * (length b - p) + 4 \<le> n"
  obtain m where m: "n = Suc m" using n by (cases n) simp_all
  have a1: "at_toks b p (toks 1 c @ Sym (CHR '';'') # toks 0 d @ ts)" using a by (simp add: paren_def)
  have "parses parse_back 3 '');'' (toks 1 c) c" using l unfolding parses_back_def by (auto dest: spec [of _ 0])
  from parsesD [OF this a1, of m] n m
  obtain c' p1 where r1: "parse_back m b p = Parsed c' p1" "at_toks b p1 (Sym (CHR '';'') # toks 0 d @ ts)" "text_of b c' = c" by (auto simp: stops_def)
  have pk: "peek b p1 '';'' = (True, p1)" using peek_at [OF r1(2), of "'';''"] by (simp add: symbols_def)
  note t1 = conjunct2 [OF token_sym [OF r1(2)]]
  have "4 * (length b - after b p1) + 4 \<le> m" using at_length [OF a1] at_length [OF t1] n m by simp
  then obtain d' p' where "parseline m b (after b p1) = Parsed d' p'" "at_toks b p' ts" "text_of b d' = d"
    using parsesD [OF r [unfolded parses_line_def] t1 s] by blast
  then show "\<exists>c' p'. parseline n b p = Parsed c' p' \<and> at_toks b p' ts \<and> text_of b c' = LIST c d"
    using m r1 pk by (simp add: parseline_back del: parseline.simps)
qed

lemma levels_ok: "wf_cmd c \<Longrightarrow> parses_exec c \<and> parses_pipe c \<and> parses_back c \<and> parses_line c"
proof (induction c)
  case (EXEC ws)
  then show ?case using exec_words [of ws] exec_pipe [of "EXEC ws"] pipe_back [of "EXEC ws"] back_line [of "EXEC ws"] by simp
next
  case (REDIR c f m d)
  then have "parses_exec (REDIR c f m d)" by (intro exec_redir) (simp_all add: wf_redir_def)
  then show ?case using exec_pipe [of "REDIR c f m d"] pipe_back [of "REDIR c f m d"] back_line [of "REDIR c f m d"] by simp
next
  case (PIPE c d)
  then have "parses_pipe (PIPE c d)" by (intro pipe_pipe) simp_all
  then show ?case using pipe_back [of "PIPE c d"] back_line [of "PIPE c d"] line_exec [of "PIPE c d"] by (simp add: paren_def)
next
  case (LIST c d)
  then have "parses_line (LIST c d)" by (intro line_list) simp_all
  then show ?case using line_exec [of "LIST c d"] exec_pipe [of "LIST c d"] pipe_back [of "LIST c d"] by (simp add: paren_def)
next
  case (BACK c)
  then have "parses_back (BACK c)" by (intro back_back) simp_all
  then show ?case using back_line [of "BACK c"] line_exec [of "BACK c"] exec_pipe [of "BACK c"] by (simp add: paren_def)
qed

lemma wf_redir_tks: "wf_word f \<Longrightarrow> list_all wf_tk (redir_tks (f, m, d))"
  by (simp add: redir_tks_def symbols_def)

lemma wf_toks: "wf_cmd c \<Longrightarrow> list_all wf_tk (toks l c)"
proof (induction c arbitrary: l)
  case (EXEC ws)
  then show ?case by (simp add: list_all_iff)
qed (simp_all add: paren_def symbols_def wf_redir_tks)

lemma print_nul: "list_all wf_tk ts \<Longrightarrow> NUL \<notin> set (render ts)"
proof (induction ts)
  case (Cons t ts)
  then show ?case by (cases t) (auto simp: wf_word_def list_all_iff symbols_def)
qed simp

text \<open>C13: Printing a command and parsing the text gives the command back: sequences, background commands,
  pipelines, redirections and parentheses to any depth, with up to nine words per command. The
  strings are those that \<^verbatim>\<open>runcmd\<close> gets, read as C strings in the line after \<^verbatim>\<open>nulterminate\<close>.\<close>

theorem parse_print:
  assumes w: "wf_cmd c"
  shows "\<exists>c' b'. parsecmd (print_cmd c) = Command c' b' \<and> map_shcmd (cstr b') c' = c"
proof -
  let ?b = "print_cmd c"
  have a: "at_toks ?b 0 (toks 0 c @ [])" using wf_toks [OF w] by (simp add: at_toks_def print_cmd_def)
  have "parses parseline 4 LINE_STOP (toks 0 c) c" using levels_ok [OF w] by (simp add: parses_line_def)
  from parsesD [OF this a, of "parse_fuel ?b"]
  obtain c' p' where r: "parseline (parse_fuel ?b) ?b 0 = Parsed c' p'" "at_toks ?b p' []" "text_of ?b c' = c"
    by (auto simp: stops_def parse_fuel_def)
  have "snd (peek ?b p' '''') = length ?b" using peek_at [OF r(2), of "''''"] r(2) by (simp add: at_toks_def)
  then have p: "parsecmd ?b = Command c' (nulterminate c' ?b)" using r(1) by (simp add: parsecmd_def parse_unfold)
  have n: "NUL \<notin> set ?b" using print_nul [OF wf_toks [OF w]] by (simp add: print_cmd_def)
  have "map_shcmd (cstr (nulterminate c' ?b)) c' = text_of ?b c'" using parse_words(1) [OF r(1)] n by (rule words_cstr)
  then show ?thesis using p r(3) by auto
qed

theorem parse_print_witness:
  "\<exists>c' b'. parsecmd ''( ls ; cat < in & ) | wc > out '' = Command c' b' \<and>
    map_shcmd (cstr b') c' = PIPE (LIST (EXEC [''ls'']) (BACK (REDIR (EXEC [''cat'']) ''in'' RD_ONLY 0))) (REDIR (EXEC [''wc'']) ''out'' WR_CREATE 1)"
proof -
  let ?c = "PIPE (LIST (EXEC [''ls'']) (BACK (REDIR (EXEC [''cat'']) ''in'' RD_ONLY 0))) (REDIR (EXEC [''wc'']) ''out'' WR_CREATE 1)"
  have w: "wf_cmd ?c" by code_simp
  have "print_cmd ?c = ''( ls ; cat < in & ) | wc > out ''" by code_simp
  then show ?thesis using parse_print [OF w] by simp
qed

end
