(* ===== verification/ShellRun.thy ===== *)
theory ShellRun
  imports Shell
begin

text \<open>
  What the shell does with a command: \<^verbatim>\<open>runcmd\<close>, \<^verbatim>\<open>fork1\<close>, \<^verbatim>\<open>panic\<close> and the loop of \<^verbatim>\<open>main\<close> of \<^verbatim>\<open>src/sh.c\<close>.

  A process is the tree of the system calls it makes, with a branch for each outcome that the code
  tests (\<open>act\<close>). \<open>execs\<close> runs such a tree with a table of open files: descriptors are allocated
  lowest first, as \<^verbatim>\<open>fdalloc\<close> of the kernel does, a child gets a copy of the table, and the result is the list of
  programs that are started with the table each of them gets. \<open>execs\<close> is a specification of these calls, not a
  translation of their handlers: \<^verbatim>\<open>open\<close> fails for the files that its argument says and when no descriptor is free,
  \<^verbatim>\<open>pipe\<close> when there are not two free ones; \<^verbatim>\<open>fork\<close>, \<^verbatim>\<open>exec\<close> and \<^verbatim>\<open>chdir\<close> are taken to succeed.
\<close>

datatype act =
    DoExit
  | DoExec string "string list" act
  | DoClose int act
  | DoOpen string int act act
  | DoFork act act act
  | DoWait act
  | DoPipe "int \<Rightarrow> int \<Rightarrow> act" act
  | DoDup int act
  | DoPrint string act
  | DoChdir string act act

abbreviation newline :: string where "newline \<equiv> [CHR 0x0A]"

definition sh_panic :: "string \<Rightarrow> act" where
  "sh_panic s = DoPrint (s @ newline) DoExit"

definition fork1 :: "act \<Rightarrow> act \<Rightarrow> act" where
  "fork1 child parent = DoFork child parent (sh_panic ''fork'')"

fun runcmd :: "string shcmd \<Rightarrow> act" where
  "runcmd (EXEC argv) =
     (if argv = [] then DoExit
      else DoExec (hd argv) argv (DoPrint (''exec '' @ hd argv @ '' failed'' @ newline) DoExit))"
| "runcmd (REDIR c file mode fd) =
     DoClose fd (DoOpen file mode (runcmd c) (DoPrint (''open '' @ file @ '' failed'' @ newline) DoExit))"
| "runcmd (LIST l r) = fork1 (runcmd l) (DoWait (runcmd r))"
| "runcmd (PIPE l r) =
     DoPipe (\<lambda>p0 p1.
       fork1 (DoClose 1 (DoDup p1 (DoClose p0 (DoClose p1 (runcmd l)))))
      (fork1 (DoClose 0 (DoDup p0 (DoClose p0 (DoClose p1 (runcmd r)))))
      (DoClose p0 (DoClose p1 (DoWait (DoWait DoExit))))))
     (sh_panic ''pipe'')"
| "runcmd (BACK c) = fork1 (runcmd c) DoExit"

definition run_parsed :: "shparse \<Rightarrow> act" where
  "run_parsed r =
     (case r of
        Command c b \<Rightarrow> runcmd (map_shcmd (cstr b) c)
      | Panics pre msg \<Rightarrow> DoPrint pre (sh_panic msg)
      | Spins \<Rightarrow> DoExit)"

text \<open>One round of the loop of \<^verbatim>\<open>main\<close>, for a line that \<^verbatim>\<open>gets\<close> has read.\<close>

definition sh_round :: "string \<Rightarrow> act \<Rightarrow> act" where
  "sh_round buf next_round =
     (if take 3 buf = ''cd '' then
        (let dir = drop 3 (butlast buf) in
         DoChdir dir next_round (DoPrint (''cannot cd '' @ dir @ newline) next_round))
      else fork1 (run_parsed (parsecmd buf)) (DoWait next_round))"

section \<open>Descriptors\<close>

datatype fdesc = Inherited nat | Opened string int | PipeR nat | PipeW nat

type_synonym fdtab = "nat \<Rightarrow> fdesc option"

definition lowest :: "fdtab \<Rightarrow> nat option" where
  "lowest t = find (\<lambda>k. t k = None) [0..<16]"

text \<open>\<open>can_open\<close> says which files can be opened. The last argument names the pipes: a child and its parent go on
  with the two numbers below, as in a binary tree, so that no name is used twice.\<close>

primrec execs :: "(string \<Rightarrow> bool) \<Rightarrow> act \<Rightarrow> fdtab \<Rightarrow> nat \<Rightarrow> (string list \<times> fdtab) list" where
  "execs can_open DoExit t n = []"
| "execs can_open (DoExec path argv fail) t n = [(argv, t)]"
| "execs can_open (DoClose fd k) t n = execs can_open k (t(nat fd := None)) n"
| "execs can_open (DoOpen f mode k fail) t n =
     (case lowest t of
        Some i \<Rightarrow> if can_open f then execs can_open k (t(i \<mapsto> Opened f mode)) n else execs can_open fail t n
      | None \<Rightarrow> execs can_open fail t n)"
| "execs can_open (DoFork child parent fail) t n = execs can_open child t (2 * n) @ execs can_open parent t (2 * n + 1)"
| "execs can_open (DoWait k) t n = execs can_open k t n"
| "execs can_open (DoPipe k fail) t n =
     (case lowest t of
        None \<Rightarrow> execs can_open fail t n
      | Some i \<Rightarrow>
          (case lowest (t(i \<mapsto> PipeR n)) of
             None \<Rightarrow> execs can_open fail t n
           | Some j \<Rightarrow> execs can_open (k (int i) (int j)) (t(i \<mapsto> PipeR n, j \<mapsto> PipeW n)) n))"
| "execs can_open (DoDup fd k) t n =
     (case lowest t of
        Some i \<Rightarrow> execs can_open k (t(i := t (nat fd))) n
      | None \<Rightarrow> execs can_open k t n)"
| "execs can_open (DoPrint s k) t n = execs can_open k t n"
| "execs can_open (DoChdir d k fail) t n = execs can_open k t n"

text \<open>The programs that a command should start, with standard input and output.\<close>

fun starts :: "string shcmd \<Rightarrow> (fdesc \<times> fdesc) \<Rightarrow> nat \<Rightarrow> (string list \<times> fdesc \<times> fdesc) list" where
  "starts (EXEC ws) io n = (if ws = [] then [] else [(ws, io)])"
| "starts (REDIR c f m d) io n = starts c (if d = 0 then (Opened f m, snd io) else (fst io, Opened f m)) n"
| "starts (LIST l r) io n = starts l io (2 * n) @ starts r io (2 * n + 1)"
| "starts (PIPE l r) io n = starts l (fst io, PipeW n) (2 * n) @ starts r (PipeR n, snd io) (2 * (2 * n + 1))"
| "starts (BACK c) io n = starts c io (2 * n)"

definition std :: "fdesc \<times> fdesc \<Rightarrow> fdesc \<Rightarrow> fdtab" where
  "std io e = [0 \<mapsto> fst io, 1 \<mapsto> snd io, 2 \<mapsto> e]"

lemma lowest_std: "lowest (std io e) = Some 3" "lowest ((std io e)(3 \<mapsto> x)) = Some 4"
  by (simp_all add: lowest_def std_def upt_conv_Cons)

lemma std_redir:
  "lowest ((std io e)(0 := None)) = Some 0" "lowest ((std io e)(Suc 0 := None)) = Some 1"
  "(std io e)(0 \<mapsto> x) = std (x, snd io) e" "(std io e)(Suc 0 \<mapsto> x) = std (fst io, x) e"
  by (auto simp: lowest_def std_def upt_conv_Cons fun_eq_iff)

lemma std_left:
  assumes "t = (std io e)(3 \<mapsto> PipeR n, 4 \<mapsto> PipeW n)"
  shows "lowest (t(Suc 0 := None)) = Some 1" "t(Suc 0 := None, 1 := (t(Suc 0 := None)) 4, 3 := None, 4 := None) = std (fst io, PipeW n) e"
    "lowest (t(0 := None)) = Some 0" "t(0 := None, 0 := (t(0 := None)) 3, 3 := None, 4 := None) = std (PipeR n, snd io) e"
  using assms by (auto simp: lowest_def std_def upt_conv_Cons fun_eq_iff)

text \<open>C15: The shell connects the programs of a command as written: every program is started with its
  words, its standard input and output being the redirection closest to it, its end of the pipe it
  is in, or those of the shell (all files named can be opened). It has no other descriptor: no program inherits an end of a pipe it
  does not use, so a reader sees the end of its input when the writer is done.\<close>

theorem runcmd_descriptors:
  assumes "wf_cmd c"
  shows "execs (\<lambda>f. True) (runcmd c) (std io e) n = map (\<lambda>(ws, io). (ws, std io e)) (starts c io n)"
  using assms
proof (induction c arbitrary: io n)
  case (REDIR c f m d)
  then have "d = 0 \<or> d = 1" by auto
  then show ?case using REDIR by (auto simp: std_redir)
next
  case (PIPE l r)
  let ?t = "(std io e)(3 \<mapsto> PipeR n, 4 \<mapsto> PipeW n)"
  note s = std_left [OF refl, of io e n]
  have l: "execs (\<lambda>f. True) (DoClose 1 (DoDup 4 (DoClose 3 (DoClose 4 (runcmd l))))) ?t k = map (\<lambda>(ws, io). (ws, std io e)) (starts l (fst io, PipeW n) k)" for k
    using PIPE(1) [of "(fst io, PipeW n)" k] PIPE(3) s(1,2) by simp
  have r: "execs (\<lambda>f. True) (DoClose 0 (DoDup 3 (DoClose 3 (DoClose 4 (runcmd r))))) ?t k = map (\<lambda>(ws, io). (ws, std io e)) (starts r (PipeR n, snd io) k)" for k
    using PIPE(2) [of "(PipeR n, snd io)" k] PIPE(3) s(3,4) by simp
  show ?case using l r by (simp add: lowest_std fork1_def)
qed (simp_all add: fork1_def)

theorem runcmd_descriptors_witness:
  "execs (\<lambda>f. True) (runcmd (PIPE (EXEC [''ls'']) (REDIR (EXEC [''wc'']) ''out'' WR_CREATE 1))) (std (Inherited 0, Inherited 1) (Inherited 2)) 1 =
    [([''ls''], std (Inherited 0, PipeW 1) (Inherited 2)), ([''wc''], std (PipeR 1, Opened ''out'' WR_CREATE) (Inherited 2))]"
proof -
  have w: "wf_cmd (PIPE (EXEC [''ls'']) (REDIR (EXEC [''wc'']) ''out'' WR_CREATE 1))" by code_simp
  show ?thesis using runcmd_descriptors [OF w] by simp
qed

end
