(* ===== verification/Grep.thy ===== *)
theory Grep
  imports Prelude
begin

text \<open>
  The program \<^verbatim>\<open>src/grep.c\<close>: the matcher for patterns with \<^verbatim>\<open>^ . * $\<close> and the loop that reads its input in
  pieces and writes the matching lines. C strings are lists of characters without the NUL. The
  pieces that successive calls of \<^verbatim>\<open>read\<close> return are an argument; an empty piece is the end of the input. The code asks
  for no more than fits into its buffer; the model does not bound a piece, so it has all behaviours of the code
  and more.
\<close>

section \<open>The matcher\<close>

abbreviation any_char :: char where "any_char \<equiv> CHR ''.''"

function matchhere :: "string \<Rightarrow> string \<Rightarrow> bool"
  and matchstar :: "char \<Rightarrow> string \<Rightarrow> string \<Rightarrow> bool" where
  "matchhere re str =
     (case re of
        [] \<Rightarrow> True
      | c # re1 \<Rightarrow>
          if re1 \<noteq> [] \<and> hd re1 = CHR ''*'' then matchstar c (tl re1) str
          else if c = CHR ''$'' \<and> re1 = [] then str = []
          else (case str of
                  [] \<Rightarrow> False
                | t # ts \<Rightarrow> if c = any_char \<or> c = t then matchhere re1 ts else False))"
| "matchstar c re str =
     (matchhere re str \<or>
      (case str of
         [] \<Rightarrow> False
       | t # ts \<Rightarrow> if t = c \<or> c = any_char then matchstar c re ts else False))"
  by pat_completeness auto
termination
  by (relation "measure (\<lambda>x. case x of Inl (re, str) \<Rightarrow> 2 * length re + length str | Inr (c, re, str) \<Rightarrow> 2 * length re + length str + 1)") auto

declare matchhere.simps [simp del] matchstar.simps [simp del]

fun match_any :: "string \<Rightarrow> string \<Rightarrow> bool" where
  "match_any re [] = matchhere re []"
| "match_any re (t # ts) = (matchhere re (t # ts) \<or> match_any re ts)"

definition match :: "string \<Rightarrow> string \<Rightarrow> bool" where
  "match re str = (if re \<noteq> [] \<and> hd re = CHR ''^'' then matchhere (tl re) str else match_any re str)"

section \<open>The loop over the input\<close>

abbreviation nl :: char where "nl \<equiv> CHR 0x0A"

text \<open>The inner loop: the lines of the buffer that are complete. The result is what is written and what
  is left from \<^verbatim>\<open>p\<close> on. \<^verbatim>\<open>strchr\<close> does not look past a NUL.\<close>

function grep_lines :: "string \<Rightarrow> string \<Rightarrow> string \<times> string" where
  "grep_lines re s =
     (let l = takeWhile (\<lambda>c. c \<noteq> nl \<and> c \<noteq> CHR 0x00) s;
          r = drop (length l) s in
      if r \<noteq> [] \<and> hd r = nl then
        (let (out, left) = grep_lines re (tl r) in ((if match re l then l @ [nl] else []) @ out, left))
      else ([], s))"
  by pat_completeness auto
termination by (relation "measure (\<lambda>(re, s). length s)") (auto simp: Let_def)

declare grep_lines.simps [simp del]

fun grep_loop :: "string \<Rightarrow> string \<Rightarrow> string list \<Rightarrow> string" where
  "grep_loop re buf [] = []"
| "grep_loop re buf (piece # pieces) =
     (if piece = [] then []
      else
        (let s = buf @ piece;
             (out, left) = grep_lines re s;
             buf = (if length left = length s then [] else left)
         in out @ grep_loop re buf pieces))"

definition grep :: "string \<Rightarrow> string list \<Rightarrow> string" where
  "grep re pieces = grep_loop re [] pieces"

section \<open>What a pattern means\<close>

datatype item = One char | Many char

definition fits :: "char \<Rightarrow> char \<Rightarrow> bool" where
  "fits c x \<longleftrightarrow> c = any_char \<or> x = c"

text \<open>A pattern is a list of items, and whether it has to end where the line ends.\<close>

fun items :: "string \<Rightarrow> item list \<times> bool" where
  "items [] = ([], False)"
| "items [c] = (if c = CHR ''$'' then ([], True) else ([One c], False))"
| "items (c # d # re) =
     (if d = CHR ''*'' then (Many c # fst (items re), snd (items re))
      else (One c # fst (items (d # re)), snd (items (d # re))))"

fun lang :: "item list \<Rightarrow> string set" where
  "lang [] = {[]}"
| "lang (One c # its) = {x # w | x w. fits c x \<and> w \<in> lang its}"
| "lang (Many c # its) = {v @ w | v w. (\<forall>x\<in>set v. fits c x) \<and> w \<in> lang its}"

definition matches_at :: "string \<Rightarrow> string \<Rightarrow> bool" where
  "matches_at re str \<longleftrightarrow> (\<exists>u v. str = u @ v \<and> u \<in> lang (fst (items re)) \<and> (snd (items re) \<longrightarrow> v = []))"

definition matches :: "string \<Rightarrow> string \<Rightarrow> bool" where
  "matches re str \<longleftrightarrow> (if re \<noteq> [] \<and> hd re = CHR ''^'' then matches_at (tl re) str else \<exists>u v. str = u @ v \<and> matches_at re v)"

lemma matchstar_split:
  "matchstar c re str \<longleftrightarrow> (\<exists>u v. str = u @ v \<and> (\<forall>x\<in>set u. fits c x) \<and> matchhere re v)"
proof (induction str)
  case Nil
  then show ?case by (simp add: matchstar.simps)
next
  case (Cons t ts)
  have "(\<exists>u v. t # ts = u @ v \<and> (\<forall>x\<in>set u. fits c x) \<and> matchhere re v) \<longleftrightarrow>
      matchhere re (t # ts) \<or> (fits c t \<and> (\<exists>u v. ts = u @ v \<and> (\<forall>x\<in>set u. fits c x) \<and> matchhere re v))" (is "?l \<longleftrightarrow> ?a \<or> ?b")
  proof
    assume ?l
    then obtain u v where u: "t # ts = u @ v" "\<forall>x\<in>set u. fits c x" "matchhere re v" by blast
    then show "?a \<or> ?b" by (cases u) auto
  next
    assume "?a \<or> ?b"
    then show ?l
    proof
      assume ?a
      then show ?l by (intro exI [of _ "[]"] exI [of _ "t # ts"]) simp
    next
      assume ?b
      then obtain u v where "ts = u @ v" "\<forall>x\<in>set u. fits c x" "matchhere re v" "fits c t" by blast
      then show ?l by (intro exI [of _ "t # u"] exI [of _ v]) simp
    qed
  qed
  then show ?case using Cons by (auto simp: matchstar.simps [of c re "t # ts"] fits_def)
qed

lemma matches_atI: "u \<in> lang (fst (items re)) \<Longrightarrow> (snd (items re) \<longrightarrow> v = []) \<Longrightarrow> matches_at re (u @ v)"
  by (auto simp: matches_at_def)

lemma matches_items:
  "items re = ([], False) \<Longrightarrow> matches_at re str"
  "items re = ([], True) \<Longrightarrow> matches_at re str \<longleftrightarrow> str = []"
  "items re = (One c # fst (items r), snd (items r)) \<Longrightarrow> matches_at re str \<longleftrightarrow> (\<exists>t ts. str = t # ts \<and> fits c t \<and> matches_at r ts)"
  "items re = (Many c # fst (items r), snd (items r)) \<Longrightarrow>
     matches_at re str \<longleftrightarrow> (\<exists>u v. str = u @ v \<and> (\<forall>x\<in>set u. fits c x) \<and> matches_at r v)"
proof -
  show "matches_at re str" if "items re = ([], False)" using that by (simp add: matches_at_def)
  show "matches_at re str \<longleftrightarrow> str = []" if "items re = ([], True)" using that by (auto simp: matches_at_def)
  show "matches_at re str \<longleftrightarrow> (\<exists>t ts. str = t # ts \<and> fits c t \<and> matches_at r ts)" if e: "items re = (One c # fst (items r), snd (items r))"
  proof
    assume "\<exists>t ts. str = t # ts \<and> fits c t \<and> matches_at r ts"
    then obtain t u v where "str = (t # u) @ v" "fits c t" "u \<in> lang (fst (items r))" "snd (items r) \<longrightarrow> v = []" by (auto simp: matches_at_def)
    then show "matches_at re str" unfolding matches_at_def e by (intro exI [of _ "t # u"] exI [of _ v]) simp
  next
    assume "matches_at re str"
    then obtain u v where u: "str = u @ v" "u \<in> lang (One c # fst (items r))" "snd (items r) \<longrightarrow> v = []"
      unfolding matches_at_def e fst_conv snd_conv by blast
    then obtain x w where "u = x # w" "fits c x" "w \<in> lang (fst (items r))" by auto
    then show "\<exists>t ts. str = t # ts \<and> fits c t \<and> matches_at r ts" using u(1) matches_atI [of w r v] u(3) by simp
  qed
  show "matches_at re str \<longleftrightarrow> (\<exists>u v. str = u @ v \<and> (\<forall>x\<in>set u. fits c x) \<and> matches_at r v)" if e: "items re = (Many c # fst (items r), snd (items r))"
  proof
    assume "\<exists>u v. str = u @ v \<and> (\<forall>x\<in>set u. fits c x) \<and> matches_at r v"
    then obtain w u v where "str = (w @ u) @ v" "\<forall>x\<in>set w. fits c x" "u \<in> lang (fst (items r))" "snd (items r) \<longrightarrow> v = []" by (auto simp: matches_at_def)
    then show "matches_at re str" unfolding matches_at_def e by (intro exI [of _ "w @ u"] exI [of _ v]) auto
  next
    assume "matches_at re str"
    then obtain u v where u: "str = u @ v" "u \<in> lang (Many c # fst (items r))" "snd (items r) \<longrightarrow> v = []"
      unfolding matches_at_def e fst_conv snd_conv by blast
    then obtain y w where "u = y @ w" "\<forall>x\<in>set y. fits c x" "w \<in> lang (fst (items r))" by auto
    then show "\<exists>u v. str = u @ v \<and> (\<forall>x\<in>set u. fits c x) \<and> matches_at r v"
      using u(1) matches_atI [of w r v] u(3) by (intro exI [of _ y] exI [of _ "w @ v"]) simp
  qed
qed

lemma matchhere_spec: "matchhere re str \<longleftrightarrow> matches_at re str"
proof (induction re arbitrary: str rule: items.induct)
  case 1
  then show ?case by (simp add: matchhere.simps matches_items(1))
next
  case (2 c)
  show ?case
  proof (cases "c = CHR ''$''")
    case True
    then show ?thesis by (simp add: matchhere.simps [of "''$''"] matches_items(2))
  next
    case False
    then have "matches_at [c] str \<longleftrightarrow> (\<exists>t ts. str = t # ts \<and> fits c t \<and> matches_at [] ts)" by (intro matches_items(3)) simp
    then show ?thesis using False by (cases str) (auto simp: matchhere.simps [of "[c]"] matchhere.simps [of "[]"] matches_items(1) fits_def)
  qed
next
  case (3 c d re)
  show ?case
  proof (cases "d = CHR ''*''")
    case True
    then have "matches_at (c # d # re) str \<longleftrightarrow> (\<exists>u v. str = u @ v \<and> (\<forall>x\<in>set u. fits c x) \<and> matches_at re v)"
      by (intro matches_items(4)) simp
    then show ?thesis using True 3(1) by (simp add: matchhere.simps [of "c # CHR ''*'' # re"] matchstar_split)
  next
    case False
    then have "matches_at (c # d # re) str \<longleftrightarrow> (\<exists>t ts. str = t # ts \<and> fits c t \<and> matches_at (d # re) ts)"
      by (intro matches_items(3)) simp
    then show ?thesis using False 3(3) by (cases str) (auto simp: matchhere.simps [of "c # d # re"] fits_def)
  qed
qed

lemma match_spec: "match re str \<longleftrightarrow> matches re str"
proof -
  have "match_any re str \<longleftrightarrow> (\<exists>u v. str = u @ v \<and> matchhere re v)"
  proof (induction str)
    case (Cons t ts)
    then show ?case by (auto simp: Cons_eq_append_conv)
  qed simp
  then show ?thesis by (auto simp: match_def matches_def matchhere_spec)
qed

section \<open>Lines\<close>

text \<open>The complete lines of a text, and what follows the last newline.\<close>

fun split_lines :: "string \<Rightarrow> string list \<times> string" where
  "split_lines [] = ([], [])"
| "split_lines (c # cs) =
     (let (ls, r) = split_lines cs in
      if c = nl then ([] # ls, r) else case ls of [] \<Rightarrow> ([], c # r) | l # ls \<Rightarrow> ((c # l) # ls, r))"

definition selected :: "string \<Rightarrow> string list \<Rightarrow> string" where
  "selected re ls = concat (map (\<lambda>l. l @ [nl]) (filter (matches re) ls))"

lemma split_no_nl: "nl \<notin> set l \<Longrightarrow> split_lines l = ([], l)"
  by (induction l) (auto split: list.split)

lemma split_line: "nl \<notin> set l \<Longrightarrow> split_lines (l @ nl # s) = (l # fst (split_lines s), snd (split_lines s))"
  by (induction l) (auto simp: case_prod_unfold Let_def)

lemma split_append: "split_lines (s @ t) = (fst (split_lines s) @ fst (split_lines (snd (split_lines s) @ t)), snd (split_lines (snd (split_lines s) @ t)))"
proof (induction "length s" arbitrary: s rule: less_induct)
  case less
  show ?case
  proof (cases "nl \<in> set s")
    case True
    then obtain l r where s: "s = l @ nl # r" "nl \<notin> set l" using split_list_first by metis
    then have "length r < length s" by simp
    then show ?thesis using less [of r] s split_line [OF s(2)] by simp
  next
    case False
    then show ?thesis by (simp add: split_no_nl)
  qed
qed

lemma left_no_nl: "nl \<notin> set (snd (split_lines s))"
  by (induction s) (auto simp: case_prod_unfold Let_def split: list.split)

lemma grep_lines_spec:
  "CHR 0x00 \<notin> set s \<Longrightarrow> grep_lines re s = (selected re (fst (split_lines s)), snd (split_lines s))"
proof (induction re s rule: grep_lines.induct)
  case (1 re s)
  let ?l = "takeWhile (\<lambda>c. c \<noteq> nl \<and> c \<noteq> CHR 0x00) s"
  have t: "?l = takeWhile (\<lambda>c. c \<noteq> nl) s" using 1(2) by (intro takeWhile_cong) auto
  have l: "nl \<notin> set ?l" by (auto dest: set_takeWhileD)
  have d: "drop (length ?l) s = dropWhile (\<lambda>c. c \<noteq> nl) s" unfolding t by (metis dropWhile_eq_drop)
  show ?case
  proof (cases "nl \<in> set s")
    case True
    then obtain k r where s: "s = k @ nl # r" "nl \<notin> set k" using split_list_first by metis
    have "takeWhile (\<lambda>c. c \<noteq> nl) s = k" "dropWhile (\<lambda>c. c \<noteq> nl) s = nl # r"
      using s by (simp_all add: takeWhile_append dropWhile_append)
    then have k: "?l = k" and r: "dropWhile (\<lambda>c. c \<noteq> nl) s = nl # r" using t by simp_all
    have "CHR 0x00 \<notin> set r" using 1(2) s by simp
    then have "grep_lines re r = (selected re (fst (split_lines r)), snd (split_lines r))" using 1(1) [OF refl refl] d r by simp
    moreover have "grep_lines re s = (let (out, left) = grep_lines re r in ((if match re ?l then ?l @ [nl] else []) @ out, left))"
      by (simp add: grep_lines.simps [of re s] Let_def d r del: drop_eq_Nil drop_eq_Nil2)
    moreover have "split_lines s = (?l # fst (split_lines r), snd (split_lines r))" unfolding k using split_line [OF s(2), of r] s(1) by simp
    ultimately show ?thesis by (simp add: selected_def match_spec)
  next
    case False
    then have "dropWhile (\<lambda>c. c \<noteq> nl) s = []" by (auto simp: dropWhile_eq_Nil_conv)
    then show ?thesis using False by (simp add: grep_lines.simps [of re s] Let_def d split_no_nl selected_def del: drop_eq_Nil drop_eq_Nil2)
  qed
qed

lemma split_left: "nl \<in> set s \<Longrightarrow> length (snd (split_lines s)) < length s"
proof -
  assume "nl \<in> set s"
  then obtain l r where s: "s = l @ nl # r" "nl \<notin> set l" using split_list_first by metis
  have "length (snd (split_lines r)) \<le> length r"
    by (induction r) (auto simp: case_prod_unfold Let_def split: list.split)
  then show ?thesis using s split_line [OF s(2)] by simp
qed

text \<open>What \<^verbatim>\<open>grep\<close> keeps of its input. A piece with a newline is added to the text before it; a piece without one is
  dropped, together with the unfinished line before it.\<close>

definition finished :: "string \<Rightarrow> string" where
  "finished s = concat (map (\<lambda>l. l @ [nl]) (fst (split_lines s)))"

fun kept :: "string \<Rightarrow> string list \<Rightarrow> string" where
  "kept s [] = s"
| "kept s (x # xs) = kept (if nl \<in> set x then s @ x else finished s) xs"

lemma lines_no_nl: "l \<in> set (fst (split_lines s)) \<Longrightarrow> nl \<notin> set l"
  by (induction s arbitrary: l) (auto simp: case_prod_unfold Let_def split: list.splits if_splits)

lemma split_unlines: "\<forall>l\<in>set ls. nl \<notin> set l \<Longrightarrow> split_lines (concat (map (\<lambda>l. l @ [nl]) ls)) = (ls, [])"
  by (induction ls) (auto simp: split_line)

lemma split_finished: "split_lines (finished s) = (fst (split_lines s), [])"
  unfolding finished_def using lines_no_nl by (intro split_unlines) blast

lemma left_subset: "set (snd (split_lines s)) \<subseteq> set s"
  by (induction s) (auto simp: case_prod_unfold Let_def split: list.split)

lemma selected_append: "selected re (ls @ ls') = selected re ls @ selected re ls'"
  by (simp add: selected_def)

lemma kept_newlines: "\<forall>x\<in>set xs. nl \<in> set x \<Longrightarrow> kept s xs = s @ concat xs"
  by (induction xs arbitrary: s) auto

lemma grep_loop_spec:
  assumes "\<forall>x\<in>set pieces. x \<noteq> [] \<and> CHR 0x00 \<notin> set x" "CHR 0x00 \<notin> set (snd (split_lines s))"
  shows "selected re (fst (split_lines s)) @ grep_loop re (snd (split_lines s)) pieces =
     selected re (fst (split_lines (kept s pieces)))"
  using assms
proof (induction pieces arbitrary: s)
  case Nil
  then show ?case by simp
next
  case (Cons x xs)
  let ?b = "snd (split_lines s)"
  have n: "CHR 0x00 \<notin> set (?b @ x)" "x \<noteq> []" using Cons.prems by auto
  note g = grep_lines_spec [OF n(1), of re]
  show ?case
  proof (cases "nl \<in> set x")
    case True
    note sp = split_append [of s x]
    have "CHR 0x00 \<notin> set (snd (split_lines (s @ x)))" unfolding sp using left_subset [of "?b @ x"] n(1) by auto
    then have "selected re (fst (split_lines (s @ x))) @ grep_loop re (snd (split_lines (s @ x))) xs =
        selected re (fst (split_lines (kept (s @ x) xs)))"
      using Cons.IH Cons.prems(1) by simp
    moreover have "grep_loop re ?b (x # xs) =
        selected re (fst (split_lines (?b @ x))) @ grep_loop re (snd (split_lines (?b @ x))) xs"
      using n(2) g split_left [of "?b @ x"] True by (simp add: Let_def)
    ultimately show ?thesis using True by (simp add: sp selected_append)
  next
    case False
    then have "split_lines (?b @ x) = ([], ?b @ x)" using left_no_nl by (intro split_no_nl) auto
    then have "grep_loop re ?b (x # xs) = grep_loop re [] xs" using n(2) g by (simp add: Let_def selected_def)
    moreover have "selected re (fst (split_lines (finished s))) @ grep_loop re (snd (split_lines (finished s))) xs =
        selected re (fst (split_lines (kept (finished s) xs)))"
      using Cons.prems(1) by (intro Cons.IH) (simp_all add: split_finished)
    ultimately show ?thesis using False by (simp add: split_finished)
  qed
qed

text \<open>C16: For input without NUL characters, however \<^verbatim>\<open>read\<close> cuts it: \<^verbatim>\<open>grep\<close> writes exactly the complete lines of the
  text it keeps that the pattern describes, in order. It keeps the whole input when every piece contains a newline;
  a piece without a newline is dropped together with the unfinished line before it. What a pattern describes
  is the language of its items, at the start of the line after \<^verbatim>\<open>^\<close>, up to its end before a final \<^verbatim>\<open>$\<close>, anywhere
  otherwise.\<close>

theorem grep_selects:
  assumes "\<forall>x\<in>set pieces. x \<noteq> [] \<and> CHR 0x00 \<notin> set x"
  shows "grep re pieces = selected re (fst (split_lines (kept [] pieces))) \<and>
     ((\<forall>x\<in>set pieces. nl \<in> set x) \<longrightarrow> kept [] pieces = concat pieces)"
  using grep_loop_spec [OF assms, of "[]" re] kept_newlines [of pieces "[]"] by (simp add: grep_def selected_def)

theorem grep_selects_witness:
  "grep ''^a.*c$'' [''abbc'' @ [nl] @ ''ab'', ''c'' @ [nl] @ ''xabc'' @ [nl]] =
     selected ''^a.*c$'' [''abbc'', ''abc'', ''xabc''] \<and> matches ''^a.*c$'' ''abc'' \<and>
   grep ''b'' [''x'' @ [nl] @ ''a'', ''b'', ''cb'' @ [nl]] = selected ''b'' [''x'', ''cb'']"
proof -
  let ?p = "[''abbc'' @ [nl] @ ''ab'', ''c'' @ [nl] @ ''xabc'' @ [nl]]" and ?q = "[''x'' @ [nl] @ ''a'', ''b'', ''cb'' @ [nl]]"
  have "split_lines (kept [] ?p) = ([''abbc'', ''abc'', ''xabc''], [])" by code_simp
  then have "grep ''^a.*c$'' ?p = selected ''^a.*c$'' [''abbc'', ''abc'', ''xabc'']"
    using grep_selects [of ?p "''^a.*c$''"] by simp
  moreover have "split_lines (kept [] ?q) = ([''x'', ''cb''], [])" by code_simp
  then have "grep ''b'' ?q = selected ''b'' [''x'', ''cb'']" using grep_selects [of ?q "''b''"] by simp
  moreover have "match ''^a.*c$'' ''abc''" by code_simp
  ultimately show ?thesis by (simp add: match_spec)
qed

text \<open>When a piece ends inside a line and contains no newline, the buffer is emptied and the beginning of
  the line is lost.\<close>

lemma grep_drops_split_line: "matches ''ab'' ''ab'' \<and> grep ''ab'' [''a'', ''b'' @ [nl]] = []"
proof -
  have "match ''ab'' ''ab''" "grep ''ab'' [''a'', ''b'' @ [nl]] = []" by code_simp+
  then show ?thesis by (simp add: match_spec)
qed

end
