(* ===== verification/Vm.thy ===== *)
theory Vm
  imports Kalloc
begin

text \<open>
  Page tables (\<^verbatim>\<open>src/vm.c\<close>, with the address macros of \<^verbatim>\<open>src/mmu.h\<close> and \<^verbatim>\<open>src/memlayout.h\<close>): walking,
  mapping, growing, shrinking, copying and freeing an address space, and copying to user memory.

  The operations work on the physical memory of the page allocator, which the kernel addresses at
  \<open>KERNBASE\<close>; a page table is a page of 1024 words there, as the hardware reads it. The address \<open>data\<close>
  that the linker provides is a parameter. A loop that steps through pages runs over the list of
  their addresses (\<open>page_list_step\<close>: as the counter does, for sizes up to the last page), or takes the number
  of steps as fuel, which is enough for the sizes of processes (\<open>deallocuvm_fuel\<close>). What the routines print
  when memory runs out is not modelled. Following a null pointer is a fault of the model.

  \<open>trans_va\<close> is the translation that the hardware reads from the tables and \<open>umem\<close> the memory that the process
  sees through it. In a sound state (\<open>user_ok\<close>) tables, pages of the process and free pages are apart. Shown:
  \<open>mappages\<close> changes the translation of its range only, \<open>allocuvm\<close> adds pages of zeros, and \<open>copyout\<close> writes
  exactly its range.
\<close>

section \<open>Addresses\<close>

abbreviation PTE_P :: uint32 where "PTE_P \<equiv> 1"
abbreviation PTE_W :: uint32 where "PTE_W \<equiv> 2"
abbreviation PTE_U :: uint32 where "PTE_U \<equiv> 4"
abbreviation EXTMEM :: uint32 where "EXTMEM \<equiv> 0x100000"
abbreviation DEVSPACE :: uint32 where "DEVSPACE \<equiv> 0xFE000000"

definition PDX :: "uint32 \<Rightarrow> uint32" where "PDX va = drop_bit 22 va AND 0x3FF"
definition PTX :: "uint32 \<Rightarrow> uint32" where "PTX va = drop_bit 12 va AND 0x3FF"
definition PGADDR :: "uint32 \<Rightarrow> uint32 \<Rightarrow> uint32 \<Rightarrow> uint32" where "PGADDR d t off = push_bit 22 d OR push_bit 12 t OR off"
definition PTE_ADDR :: "uint32 \<Rightarrow> uint32" where "PTE_ADDR pte = pte AND NOT 0xFFF"
definition PTE_FLAGS :: "uint32 \<Rightarrow> uint32" where "PTE_FLAGS pte = pte AND 0xFFF"

type_synonym 'a vm = "(kmem, 'a) km"

definition load32 :: "uint32 \<Rightarrow> uint32 vm" where
  "load32 a = gets (\<lambda>k. mload32 a (mem k))"

definition store32 :: "uint32 \<Rightarrow> uint32 \<Rightarrow> unit vm" where
  "store32 a v = upd (\<lambda>k. k\<lparr>mem := mstore a (le32 v) (mem k)\<rparr>)"

definition fill_page :: "uint32 \<Rightarrow> bytes \<Rightarrow> unit vm" where
  "fill_page p bs = upd (\<lambda>k. k\<lparr>mem := mstore p bs (mem k)\<rparr>)"

abbreviation zero_page :: "uint32 \<Rightarrow> unit vm" where
  "zero_page p \<equiv> fill_page p (replicate 4096 0)"

section \<open>Mapping\<close>

definition walkpgdir :: "uint32 \<Rightarrow> uint32 \<Rightarrow> bool \<Rightarrow> uint32 vm" where
  "walkpgdir pgdir va alloc =
     (let pde = pgdir + 4 * PDX va in
      bnd (load32 pde) (\<lambda>e.
      if e AND PTE_P \<noteq> 0 then ret (P2V (PTE_ADDR e) + 4 * PTX va)
      else if \<not> alloc then ret 0
      else
        bnd kalloc (\<lambda>pgtab.
        if pgtab = 0 then ret 0
        else
          thn (zero_page pgtab)
          (thn (store32 pde (V2P pgtab OR PTE_P OR PTE_W OR PTE_U))
          (ret (pgtab + 4 * PTX va))))))"

text \<open>The loop of \<^verbatim>\<open>mappages\<close>; the first argument is the number of pages between \<^verbatim>\<open>a\<close> and \<^verbatim>\<open>last\<close>.\<close>

fun map_loop :: "nat \<Rightarrow> uint32 \<Rightarrow> uint32 \<Rightarrow> uint32 \<Rightarrow> uint32 \<Rightarrow> int vm" where
  "map_loop n pgdir a pa perm =
     bnd (walkpgdir pgdir a True) (\<lambda>pte.
     if pte = 0 then ret (-1)
     else
       bnd (load32 pte) (\<lambda>e.
       if e AND PTE_P \<noteq> 0 then panic ''remap''
       else
         thn (store32 pte (pa OR perm OR PTE_P))
         (case n of 0 \<Rightarrow> ret 0 | Suc m \<Rightarrow> map_loop m pgdir (a + PGSIZE) (pa + PGSIZE) perm)))"

definition mappages :: "uint32 \<Rightarrow> uint32 \<Rightarrow> uint32 \<Rightarrow> uint32 \<Rightarrow> uint32 \<Rightarrow> int vm" where
  "mappages pgdir va sz pa perm =
     (let a = PGROUNDDOWN va; last = PGROUNDDOWN (va + sz - 1)
      in map_loop (unat (last - a) div 4096) pgdir a pa perm)"

section \<open>Shrinking and freeing\<close>

fun dealloc_loop :: "nat \<Rightarrow> uint32 \<Rightarrow> uint32 \<Rightarrow> uint32 \<Rightarrow> uint32 \<Rightarrow> unit vm" where
  "dealloc_loop 0 kend pgdir a oldsz = failk (OutOfBounds ''fuel'')"
| "dealloc_loop (Suc n) kend pgdir a oldsz =
     (if \<not> a < oldsz then ret ()
      else
        bnd (walkpgdir pgdir a False) (\<lambda>pte.
        if pte = 0 then dealloc_loop n kend pgdir (PGADDR (PDX a + 1) 0 0 - PGSIZE + PGSIZE) oldsz
        else
          bnd (load32 pte) (\<lambda>e.
          thn (if e AND PTE_P \<noteq> 0 then
                 (let pa = PTE_ADDR e in
                  if pa = 0 then panic ''kfree'' else thn (kfree kend (P2V pa)) (store32 pte 0))
               else ret ())
          (dealloc_loop n kend pgdir (a + PGSIZE) oldsz))))"

definition deallocuvm :: "uint32 \<Rightarrow> uint32 \<Rightarrow> uint32 \<Rightarrow> uint32 \<Rightarrow> uint32 vm" where
  "deallocuvm kend pgdir oldsz newsz =
     (if oldsz \<le> newsz then ret oldsz
      else thn (dealloc_loop (2 ^ 20 + 1) kend pgdir (PGROUNDUP newsz) oldsz) (ret newsz))"

definition free_table :: "uint32 \<Rightarrow> uint32 \<Rightarrow> nat \<Rightarrow> unit vm" where
  "free_table kend pgdir i =
     bnd (load32 (pgdir + of_nat (4 * i))) (\<lambda>e.
     if e AND PTE_P \<noteq> 0 then kfree kend (P2V (PTE_ADDR e)) else ret ())"

definition freevm :: "uint32 \<Rightarrow> uint32 \<Rightarrow> unit vm" where
  "freevm kend pgdir =
     (if pgdir = 0 then panic ''freevm: no pgdir''
      else
        thn (deallocuvm kend pgdir KERNBASE 0)
        (thn (seqk (map (free_table kend pgdir) [0..<1024]))
        (kfree kend pgdir)))"

section \<open>Address spaces\<close>

definition kmap :: "uint32 \<Rightarrow> (uint32 \<times> uint32 \<times> uint32 \<times> uint32) list" where
  "kmap data =
     [(KERNBASE, 0, EXTMEM, PTE_W),
      (KERNBASE + EXTMEM, V2P (KERNBASE + EXTMEM), V2P data, 0),
      (data, V2P data, PHYSTOP, PTE_W),
      (DEVSPACE, DEVSPACE, 0, PTE_W)]"

fun kmap_loop :: "uint32 \<Rightarrow> uint32 \<Rightarrow> (uint32 \<times> uint32 \<times> uint32 \<times> uint32) list \<Rightarrow> uint32 vm" where
  "kmap_loop kend pgdir [] = ret pgdir"
| "kmap_loop kend pgdir ((virt, start, stop, perm) # ms) =
     bnd (mappages pgdir virt (stop - start) start perm) (\<lambda>r.
     if r < 0 then thn (freevm kend pgdir) (ret 0) else kmap_loop kend pgdir ms)"

definition setupkvm :: "uint32 \<Rightarrow> uint32 \<Rightarrow> uint32 vm" where
  "setupkvm kend data =
     bnd kalloc (\<lambda>pgdir.
     if pgdir = 0 then ret 0
     else
       thn (zero_page pgdir)
       (if P2V PHYSTOP > DEVSPACE then panic ''PHYSTOP too high''
        else kmap_loop kend pgdir (kmap data)))"

definition inituvm :: "uint32 \<Rightarrow> bytes \<Rightarrow> unit vm" where
  "inituvm pgdir code =
     (if length code \<ge> 4096 then panic ''inituvm: more than a page''
      else
        bnd kalloc (\<lambda>mm.
        if mm = 0 then oob ''null page''
        else
          thn (zero_page mm)
          (bnd (mappages pgdir 0 PGSIZE (V2P mm) (PTE_W OR PTE_U)) (\<lambda>_.
          fill_page mm code))))"

text \<open>The page addresses from \<open>a\<close> (aligned) to below \<open>sz\<close>.\<close>

definition page_list :: "uint32 \<Rightarrow> uint32 \<Rightarrow> uint32 list" where
  "page_list a sz = map (\<lambda>i. a + of_nat (4096 * i)) [0..<(unat sz - unat a + 4095) div 4096]"

fun alloc_loop :: "uint32 \<Rightarrow> uint32 \<Rightarrow> uint32 \<Rightarrow> uint32 \<Rightarrow> uint32 list \<Rightarrow> uint32 vm" where
  "alloc_loop kend pgdir oldsz newsz [] = ret newsz"
| "alloc_loop kend pgdir oldsz newsz (a # as) =
     bnd kalloc (\<lambda>mm.
     if mm = 0 then thn (deallocuvm kend pgdir newsz oldsz) (ret 0)
     else
       thn (zero_page mm)
       (bnd (mappages pgdir a PGSIZE (V2P mm) (PTE_W OR PTE_U)) (\<lambda>r.
       if r < 0 then thn (deallocuvm kend pgdir newsz oldsz) (thn (kfree kend mm) (ret 0))
       else alloc_loop kend pgdir oldsz newsz as)))"

definition allocuvm :: "uint32 \<Rightarrow> uint32 \<Rightarrow> uint32 \<Rightarrow> uint32 \<Rightarrow> uint32 vm" where
  "allocuvm kend pgdir oldsz newsz =
     (if KERNBASE \<le> newsz then ret 0
      else if newsz < oldsz then ret oldsz
      else alloc_loop kend pgdir oldsz newsz (page_list (PGROUNDUP oldsz) newsz))"

definition clearpteu :: "uint32 \<Rightarrow> uint32 \<Rightarrow> unit vm" where
  "clearpteu pgdir uva =
     bnd (walkpgdir pgdir uva False) (\<lambda>pte.
     if pte = 0 then panic ''clearpteu''
     else bnd (load32 pte) (\<lambda>e. store32 pte (e AND NOT PTE_U)))"

fun copy_loop :: "uint32 \<Rightarrow> uint32 \<Rightarrow> uint32 \<Rightarrow> uint32 list \<Rightarrow> uint32 vm" where
  "copy_loop kend pgdir d [] = ret d"
| "copy_loop kend pgdir d (i # is) =
     bnd (walkpgdir pgdir i False) (\<lambda>pte.
     if pte = 0 then panic ''copyuvm: pte should exist''
     else
       bnd (load32 pte) (\<lambda>e.
       if e AND PTE_P = 0 then panic ''copyuvm: page not present''
       else
         bnd kalloc (\<lambda>mm.
         if mm = 0 then thn (freevm kend d) (ret 0)
         else
           bnd (gets (\<lambda>k. mload (P2V (PTE_ADDR e)) 4096 (mem k))) (\<lambda>bs.
           thn (fill_page mm bs)
           (bnd (mappages d i PGSIZE (V2P mm) (PTE_FLAGS e)) (\<lambda>r.
           if r < 0 then thn (kfree kend mm) (thn (freevm kend d) (ret 0))
           else copy_loop kend pgdir d is))))))"

definition copyuvm :: "uint32 \<Rightarrow> uint32 \<Rightarrow> uint32 \<Rightarrow> uint32 \<Rightarrow> uint32 vm" where
  "copyuvm kend data pgdir sz =
     bnd (setupkvm kend data) (\<lambda>d.
     if d = 0 then ret 0 else copy_loop kend pgdir d (page_list 0 sz))"

section \<open>Access to user memory\<close>

definition uva2ka :: "uint32 \<Rightarrow> uint32 \<Rightarrow> uint32 vm" where
  "uva2ka pgdir uva =
     bnd (walkpgdir pgdir uva False) (\<lambda>pte.
     if pte = 0 then oob ''null page table entry''
     else
       bnd (load32 pte) (\<lambda>e.
       if e AND PTE_P = 0 then ret 0
       else if e AND PTE_U = 0 then ret 0
       else ret (P2V (PTE_ADDR e))))"

text \<open>Each round copies at least one byte: an address is less than a page above its page.\<close>

lemma mask12: "(4095 :: uint32) = mask 12" by (simp add: mask_eq_exp_minus_1)

lemma and_not_low: "(a :: uint32) AND NOT 0xFFF = a - a mod 4096"
proof -
  have "a mod 4096 = a AND 0xFFF" using take_bit_eq_mod [of 12 a] by (simp add: mask12 take_bit_eq_mask)
  moreover have "(a AND NOT 0xFFF) + (a AND 0xFFF) = a"
    by (subst disjunctive_add) (auto simp: bit_simps bit_eq_iff)
  ultimately show ?thesis by (metis add_diff_cancel_right')
qed

lemma unat_offset: "unat ((va :: uint32) mod 4096) = unat va mod 4096"
  by (simp add: unat_mod_distrib)

lemma page_offset: "va - PGROUNDDOWN va = va mod 4096"
  using and_not_low [of va] by (simp add: PGROUNDDOWN_def PGSIZE_def)

definition chunk :: "uint32 \<Rightarrow> nat \<Rightarrow> nat" where
  "chunk va len = min (unat (PGSIZE - (va - PGROUNDDOWN va))) len"

lemma unat_chunk: "unat (PGSIZE - (va - PGROUNDDOWN va)) = 4096 - unat va mod 4096"
  unfolding page_offset PGSIZE_def
  by (subst unat_sub) (auto simp: word_le_nat_alt unat_offset)

lemma chunk_pos: "0 < len \<Longrightarrow> 0 < chunk va len"
  by (simp add: chunk_def unat_chunk)

function copyout :: "uint32 \<Rightarrow> uint32 \<Rightarrow> bytes \<Rightarrow> int vm" where
  "copyout pgdir va buf =
     (if buf = [] then ret 0
      else
        (let va0 = PGROUNDDOWN va; n = chunk va (length buf) in
         bnd (uva2ka pgdir va0) (\<lambda>pa0.
         if pa0 = 0 then ret (-1)
         else
           thn (fill_page (pa0 + (va - va0)) (take n buf))
           (copyout pgdir (va0 + PGSIZE) (drop n buf)))))"
  by pat_completeness auto
termination
  by (relation "measure (\<lambda>(pgdir, va, buf). length buf)") (auto simp: chunk_pos)

declare copyout.simps [simp del]

section \<open>Words, pages and entries\<close>

lemma low_bits:
  assumes "(a :: uint32) mod 4096 = 0" "n < 12"
  shows "\<not> bit a n"
proof -
  have "take_bit 12 a = 0" using assms(1) by (simp add: take_bit_eq_mod)
  then show ?thesis using assms(2) by (metis bit_take_bit_iff bit_0_eq bot_apply bot_bool_def)
qed

lemma high_bits:
  assumes "(f :: uint32) < 4096" "12 \<le> n"
  shows "\<not> bit f n"
proof -
  have "take_bit 12 f = f" using assms(1) 
    by (simp add: take_bit_eq_mod word_arith_nat_mod word_less_nat_alt)
  then show ?thesis using assms(2) by (metis bit_take_bit_iff not_le)
qed

lemma PTE_ADDR_or:
  assumes "a mod 4096 = 0" "f < 4096"
  shows "PTE_ADDR (a OR f) = a"
  unfolding PTE_ADDR_def mask12
  by (rule bit_word_eqI)
    (use low_bits [OF assms(1)] high_bits [OF assms(2)] in \<open>auto simp: bit_simps not_less intro: leI\<close>)

lemma PTE_present: "(a OR f OR PTE_P) AND PTE_P \<noteq> 0"
  by (simp add: bit.conj_disj_distrib2 bit_eq_iff) (auto simp: bit_simps)

lemma index_less: "unat (PDX va) < 1024" "unat (PTX va) < 1024"
proof -
  have "unat (x AND 0x3FF) < 1024" for x :: uint32
  proof -
    have "(0x3FF :: uint32) = mask 10" by (simp add: mask_eq_exp_minus_1)
    then have "x AND 0x3FF = x mod 1024" using take_bit_eq_mod [of 10 x] by (simp add: take_bit_eq_mask)
    then show ?thesis by (simp add: unat_mod_distrib)
  qed
  then show "unat (PDX va) < 1024" "unat (PTX va) < 1024" by (simp_all add: PDX_def PTX_def)
qed

lemma words_apart:
  assumes "unat p mod 4 = 0" "unat v mod 4 = 0" "p \<noteq> (v :: uint32)" "i < 4"
  shows "4 \<le> unat (p + of_nat i - v)"
proof -
  obtain a b where ab: "unat p = 4 * a" "unat v = 4 * b"
    using assms by (metis mod_0_imp_dvd dvdE)
  have lt: "unat p < 2 ^ LENGTH(32)" "unat v < 2 ^ LENGTH(32)" by (rule unsigned_less)+
  have ne: "a \<noteq> b" using ab assms(3) by (metis unsigned_word_eqI)
  have pi: "unat (p + of_nat i) = 4 * a + i"
    using lt ab assms(4) by (simp add: unat_plus_if' unat_of_nat_word)
  have sub: "unat (p + of_nat i - v) = (if 4 * b \<le> 4 * a + i then 4 * a + i - 4 * b else 4 * a + i + 2 ^ 32 - 4 * b)"
    using ab by (simp add: unat_sub_if' pi)
  have b: "4 * b + 4 \<le> 2 ^ 32" using lt(2) ab(2) by simp
  show ?thesis
  proof (cases "b \<le> a")
    case True
    with ne have "b + 1 \<le> a" by simp
    then show ?thesis unfolding sub by simp
  next
    case False
    then have "\<not> 4 * b \<le> 4 * a + i" using assms(4) by linarith
    then show ?thesis unfolding sub using b by simp
  qed
qed

definition entry :: "uint32 \<Rightarrow> uint32 \<Rightarrow> uint32" where
  "entry p i = p + 4 * i"

definition is_aligned :: "uint32 \<Rightarrow> bool" where
  "is_aligned p \<longleftrightarrow> p mod 4096 = 0"

lemma aligned_unat: "is_aligned p \<Longrightarrow> \<exists>a. unat p = 4096 * a \<and> a < 1048576"
proof -
  assume "is_aligned p"
  then obtain a where a: "unat p = 4096 * a"
    unfolding is_aligned_def aligned_iff by (metis mod_0_imp_dvd dvdE)
  have "unat p < 2 ^ LENGTH(32)" by (rule unsigned_less)
  with a show ?thesis by simp
qed

lemma unat_in_page:
  assumes "is_aligned p" "x < 4096"
  shows "unat (p + of_nat x) = unat p + x"
proof -
  obtain a where "unat p = 4096 * a" "a < 1048576" using aligned_unat [OF assms(1)] by blast
  with assms(2) show ?thesis by (simp add: unat_plus_if' unat_of_nat_word)
qed

lemma unat_entry:
  assumes "is_aligned p" "unat i < 1024"
  shows "unat (entry p i) = unat p + 4 * unat i"
proof -
  have e: "entry p i = p + of_nat (4 * unat i)" by (simp add: entry_def)
  show ?thesis unfolding e using assms(2) by (intro unat_in_page [OF assms(1)]) simp
qed

lemma entry_inj:
  assumes "is_aligned p" "is_aligned q" "unat i < 1024" "unat j < 1024" "entry p i = entry q j"
  shows "p = q \<and> i = j"
proof -
  obtain a b where ab: "unat p = 4096 * a" "unat q = 4096 * b"
    using aligned_unat assms(1,2) by blast
  have "4096 * a + 4 * unat i = 4096 * b + 4 * unat j"
    using assms ab by (metis unat_entry)
  then have eq: "1024 * a + unat i = 1024 * b + unat j" by linarith
  then have "(1024 * a + unat i) div 1024 = (1024 * b + unat j) div 1024" by (rule arg_cong)
  then have "a = b" using assms(3,4) by simp
  with eq ab have "unat p = unat q" "unat i = unat j" by simp_all
  then show ?thesis by (metis unsigned_word_eqI)
qed

lemma mload32_mstore_entry:
  assumes "is_aligned p" "is_aligned q" "unat i < 1024" "unat j < 1024"
  shows "mload32 (entry p i) (mstore (entry q j) (le32 v) m) =
           (if p = q \<and> i = j then v else mload32 (entry p i) m)"
proof (cases "entry p i = entry q j")
  case True
  with entry_inj [OF assms] show ?thesis by (simp add: mload32_mstore)
next
  case False
  have al: "unat (entry p i) mod 4 = 0" "unat (entry q j) mod 4 = 0"
    using aligned_unat [OF assms(1)] aligned_unat [OF assms(2)] assms(3,4)
    by (auto simp: unat_entry assms(1,2))
  have "length (le32 v) \<le> unat (entry p i + of_nat t - entry q j)" if "t < 4" for t
    using words_apart [OF al False that] by simp
  with False show ?thesis by (auto simp: mload32_def mload_mstore_other)
qed

section \<open>What the hardware reads\<close>

definition present :: "uint32 \<Rightarrow> bool" where "present e \<longleftrightarrow> e AND PTE_P \<noteq> 0"

definition pde :: "kmem \<Rightarrow> uint32 \<Rightarrow> uint32 \<Rightarrow> uint32" where
  "pde k pgdir i = mload32 (entry pgdir i) (mem k)"

definition table :: "kmem \<Rightarrow> uint32 \<Rightarrow> uint32 \<Rightarrow> uint32" where
  "table k pgdir i = P2V (PTE_ADDR (pde k pgdir i))"

definition tables :: "kmem \<Rightarrow> uint32 \<Rightarrow> uint32 set" where
  "tables k pgdir = {table k pgdir i |i. unat i < 1024 \<and> present (pde k pgdir i)}"

definition trans_va :: "kmem \<Rightarrow> uint32 \<Rightarrow> uint32 \<Rightarrow> uint32 option" where
  "trans_va k pgdir va =
     (if present (pde k pgdir (PDX va)) then
        let e = mload32 (entry (table k pgdir (PDX va)) (PTX va)) (mem k)
        in if present e then Some e else None
      else None)"

definition pt_ok :: "uint32 \<Rightarrow> kmem \<Rightarrow> uint32 \<Rightarrow> uint32 list \<Rightarrow> bool" where
  "pt_ok kend k pgdir fs \<longleftrightarrow>
     free_pages kend k fs \<and> valid_page kend pgdir \<and> pgdir \<notin> set fs \<and>
     (\<forall>i. unat i < 1024 \<longrightarrow> present (pde k pgdir i) \<longrightarrow>
        valid_page kend (table k pgdir i) \<and> table k pgdir i \<noteq> 0 \<and>
        table k pgdir i \<noteq> pgdir \<and> table k pgdir i \<notin> set fs) \<and>
     (\<forall>i j. unat i < 1024 \<longrightarrow> unat j < 1024 \<longrightarrow> present (pde k pgdir i) \<longrightarrow> present (pde k pgdir j) \<longrightarrow>
        table k pgdir i = table k pgdir j \<longrightarrow> i = j)"

text \<open>Memory that agrees on a page.\<close>

definition agree :: "memory \<Rightarrow> memory \<Rightarrow> uint32 \<Rightarrow> bool" where
  "agree m m' q \<longleftrightarrow> (\<forall>x<4096. m' (q + of_nat x) = m (q + of_nat x))"

lemma agree_refl [simp]: "agree m m q" by (simp add: agree_def)

lemma agree_trans: "agree m m' q \<Longrightarrow> agree m' m'' q \<Longrightarrow> agree m m'' q"
  by (simp add: agree_def)

lemma valid_aligned: "valid_page kend p \<Longrightarrow> is_aligned p"
  by (simp add: valid_page_def is_aligned_def PGSIZE_def)

lemma agree_mload32:
  assumes "agree m m' q" "is_aligned q" "unat i < 1024"
  shows "mload32 (entry q i) m' = mload32 (entry q i) m"
proof -
  have "entry q i + of_nat t = q + of_nat (4 * unat i + t)" for t
    by (simp add: entry_def)
  moreover have "4 * unat i + t < 4096" if "t < 4" for t using assms(3) that by simp
  ultimately have "m' (entry q i + of_nat t) = m (entry q i + of_nat t)" if "t < 4" for t
    using assms(1) that unfolding agree_def by metis
  then have "mload (entry q i) 4 m' = mload (entry q i) 4 m" by (simp add: mload_def)
  then show ?thesis by (simp add: mload32_def)
qed

lemma mstore_agree:
  assumes "is_aligned p" "is_aligned q" "p \<noteq> q" "off + length bs \<le> 4096"
  shows "agree m (mstore (p + of_nat off) bs m) q"
  unfolding agree_def
proof (intro allI impI)
  fix x :: nat assume x: "x < 4096"
  obtain a b where ab: "unat p = 4096 * a" "a < 1048576" "unat q = 4096 * b" "b < 1048576"
    using aligned_unat assms(1,2) by meson
  have ne: "a \<noteq> b" using ab assms(3) by (metis unsigned_word_eqI)
  have qx: "unat (q + of_nat x) = 4096 * b + x" using unat_in_page [OF assms(2) x] ab by simp
  show "mstore (p + of_nat off) bs m (q + of_nat x) = m (q + of_nat x)"
  proof (cases "length bs = 0")
    case True
    then show ?thesis by (simp add: mstore_def)
  next
    case False
    then have "0 < length bs" by simp
    then have "off < 4096" using assms(4) by linarith
    then have po: "unat (p + of_nat off) = 4096 * a + off"
      using unat_in_page [OF assms(1), of off] ab by simp
    have "length bs \<le> unat (q + of_nat x - (p + of_nat off))"
    proof (cases "a < b")
      case True
      then have "a + 1 \<le> b" by simp
      then have "4096 * a + off + length bs \<le> 4096 * b + x" using assms(4) by linarith
      then show ?thesis by (simp add: unat_sub_if' qx po)
    next
      case F: False
      with ne have "b + 1 \<le> a" by simp
      then have "4096 * b + x < 4096 * a + off" using x by linarith
      then have "unat (q + of_nat x - (p + of_nat off)) = 4096 * b + x + 2 ^ 32 - (4096 * a + off)"
        by (simp add: unat_sub_if' qx po)
      then show ?thesis using ab(2) assms(4) by simp
    qed
    then show ?thesis by (simp add: mstore_def)
  qed
qed

lemma store_entry_agree:
  assumes "is_aligned p" "is_aligned q" "p \<noteq> q" "unat i < 1024"
  shows "agree m (mstore (entry p i) (le32 v) m) q"
proof -
  have "entry p i = p + of_nat (4 * unat i)" by (simp add: entry_def)
  then show ?thesis using mstore_agree [OF assms(1-3), of "4 * unat i" "le32 v"] assms(4) by simp
qed

lemma chain_agree:
  "\<forall>p\<in>set ps. is_aligned p \<and> agree m m' p \<Longrightarrow> chain m' a ps = chain m a ps"
proof (induction ps arbitrary: a)
  case (Cons p ps)
  then have "mload32 (entry p 0) m' = mload32 (entry p 0) m" by (intro agree_mload32) auto
  with Cons show ?case by (auto simp: entry_def)
qed simp

lemma free_pages_agree:
  assumes "free_pages kend k fs" "\<forall>p\<in>set fs. agree (mem k) m' p"
  shows "free_pages kend (k\<lparr>mem := m'\<rparr>) fs"
proof -
  have "\<forall>p\<in>set fs. is_aligned p \<and> agree (mem k) m' p"
    using assms valid_aligned by (auto simp: free_pages_def)
  from chain_agree [OF this] assms(1) show ?thesis by (simp add: free_pages_def)
qed

section \<open>Setting an entry of a table\<close>

lemma pt_okD:
  assumes "pt_ok kend k pgdir fs"
  shows "free_pages kend k fs" "is_aligned pgdir" "pgdir \<notin> set fs"
    "\<And>p. p \<in> set fs \<Longrightarrow> is_aligned p \<and> p \<noteq> 0"
    "\<And>i. unat i < 1024 \<Longrightarrow> present (pde k pgdir i) \<Longrightarrow>
       is_aligned (table k pgdir i) \<and> table k pgdir i \<noteq> 0 \<and> table k pgdir i \<noteq> pgdir \<and> table k pgdir i \<notin> set fs"
    "\<And>i j. unat i < 1024 \<Longrightarrow> unat j < 1024 \<Longrightarrow> present (pde k pgdir i) \<Longrightarrow> present (pde k pgdir j) \<Longrightarrow>
       table k pgdir i = table k pgdir j \<Longrightarrow> i = j"
proof -
  have f: "free_pages kend k fs" using assms by (simp add: pt_ok_def)
  show "is_aligned p \<and> p \<noteq> 0" if "p \<in> set fs" for p
    using kpages.page_nonzero [OF f that] kpages.pages_valid [OF f] that by (auto simp: valid_aligned)
qed (use assms in \<open>auto simp: pt_ok_def valid_aligned\<close>)

lemma pte_nonzero:
  assumes "is_aligned t" "t \<noteq> 0" "unat i < 1024"
  shows "entry t i \<noteq> 0"
proof
  assume "entry t i = 0"
  then have "unat t + 4 * unat i = 0" using unat_entry [OF assms(1,3)] by simp
  then have "unat t = 0" by simp
  with assms(2) show False by (simp add: unat_eq_0)
qed

definition set_pte :: "uint32 \<Rightarrow> uint32 \<Rightarrow> uint32 \<Rightarrow> kmem \<Rightarrow> kmem" where
  "set_pte pgdir va e k = k\<lparr>mem := mstore (entry (table k pgdir (PDX va)) (PTX va)) (le32 e) (mem k)\<rparr>"

lemma set_pte_pde:
  assumes "pt_ok kend k pgdir fs" "present (pde k pgdir (PDX va))" "unat i < 1024"
  shows "pde (set_pte pgdir va e k) pgdir i = pde k pgdir i"
    "table (set_pte pgdir va e k) pgdir i = table k pgdir i"
proof -
  note ok = pt_okD [OF assms(1)]
  show p: "pde (set_pte pgdir va e k) pgdir i = pde k pgdir i"
    using ok(2) ok(5) [OF index_less(1) assms(2)] assms(3) index_less
    by (auto simp: pde_def set_pte_def mload32_mstore_entry)
  then show "table (set_pte pgdir va e k) pgdir i = table k pgdir i" by (simp add: table_def)
qed

lemma set_pte_ok:
  assumes "pt_ok kend k pgdir fs" "present (pde k pgdir (PDX va))"
  shows "pt_ok kend (set_pte pgdir va e k) pgdir fs"
proof -
  note ok = pt_okD [OF assms(1)]
  have t: "is_aligned (table k pgdir (PDX va))" "table k pgdir (PDX va) \<notin> set fs"
    using ok(5) [OF index_less(1) assms(2)] by auto
  have "free_pages kend (set_pte pgdir va e k) fs"
    unfolding set_pte_def
    by (rule free_pages_agree [OF ok(1)]) (use t ok(4) in \<open>auto intro!: store_entry_agree index_less\<close>)
  with assms(1) show ?thesis
    unfolding pt_ok_def using set_pte_pde [OF assms] by simp
qed

lemma set_pte_trans:
  assumes "pt_ok kend k pgdir fs" "present (pde k pgdir (PDX va))"
  shows "trans_va (set_pte pgdir va e k) pgdir x =
     (if PDX x = PDX va \<and> PTX x = PTX va then (if present e then Some e else None) else trans_va k pgdir x)"
proof (cases "present (pde k pgdir (PDX x))")
  case False
  with assms show ?thesis
    using set_pte_pde [OF assms index_less(1), of e x] by (auto simp: trans_va_def)
next
  case True
  note ok = pt_okD [OF assms(1)]
  have "mload32 (entry (table k pgdir (PDX x)) (PTX x)) (mem (set_pte pgdir va e k)) =
     (if table k pgdir (PDX x) = table k pgdir (PDX va) \<and> PTX x = PTX va then e
      else mload32 (entry (table k pgdir (PDX x)) (PTX x)) (mem k))"
    using ok(5) [OF index_less(1) assms(2)] ok(5) [OF index_less(1) True] index_less
    by (simp add: set_pte_def mload32_mstore_entry)
  moreover have "table k pgdir (PDX x) = table k pgdir (PDX va) \<longleftrightarrow> PDX x = PDX va"
    using ok(6) [OF index_less(1) index_less(1) True assms(2)] by auto
  ultimately show ?thesis
    using set_pte_pde [OF assms index_less(1), of e x] True by (auto simp: trans_va_def Let_def)
qed

section \<open>Adding a table\<close>

definition add_table :: "uint32 \<Rightarrow> uint32 \<Rightarrow> uint32 \<Rightarrow> kmem \<Rightarrow> kmem" where
  "add_table pgdir va t k =
     k\<lparr>mem := mstore (entry pgdir (PDX va)) (le32 (V2P t OR PTE_P OR PTE_W OR PTE_U))
              (mstore t (replicate 4096 0) (mem k))\<rparr>"

lemma V2P_aligned: "is_aligned t \<Longrightarrow> V2P t mod 4096 = 0"
proof -
  assume "is_aligned t"
  then obtain a where a: "unat t = 4096 * a" using aligned_unat by blast
  have "unat (t - 0x80000000) mod 4096 = 0"
    using a by (auto simp: unat_sub_if')
  then show ?thesis by (simp add: V2P_def KERNBASE_def aligned_iff)
qed

lemma P2V_V2P [simp]: "P2V (V2P t) = t" by (simp add: P2V_def V2P_def)

lemma frame_of_entry:
  assumes "is_aligned t" "f < 4096"
  shows "P2V (PTE_ADDR (V2P t OR f)) = t"
  using PTE_ADDR_or [OF V2P_aligned [OF assms(1)] assms(2)] by simp

lemma or_7: "(x :: uint32) OR PTE_P OR PTE_W OR PTE_U = x OR 7"
  by (simp add: or.assoc)

lemma zero_page_entry:
  assumes "is_aligned t" "unat i < 1024"
  shows "mload32 (entry t i) (mstore t (replicate 4096 0) m) = 0"
proof -
  have "entry t i + of_nat s - t = of_nat (4 * unat i + s)" for s by (simp add: entry_def)
  moreover have "unat (of_nat (4 * unat i + s) :: uint32) < 4096" if "s < 4" for s
  proof -
    have l: "4 * unat i + s < 4096" using assms(2) that by simp
    then have "unat (of_nat (4 * unat i + s) :: uint32) = 4 * unat i + s" by (intro unat_of_nat_word) simp
    with l show ?thesis by simp
  qed
  ultimately have "mstore t (replicate 4096 0) m (entry t i + of_nat s) = 0" if "s < 4" for s
    using that by (simp add: mstore_def del: of_nat_add of_nat_mult)
  then have "mload (entry t i) 4 (mstore t (replicate 4096 0) m) = replicate 4 0"
    by (auto simp: mload_def intro: nth_equalityI)
  then show ?thesis by (simp add: mload32_def rd32_def mk32_def numeral_eq_Suc)
qed

lemma add_table_agree:
  assumes "is_aligned pgdir" "is_aligned t" "is_aligned q" "q \<noteq> pgdir" "q \<noteq> t"
  shows "agree (mem k) (mem (add_table pgdir va t k)) q"
proof -
  have "agree (mem k) (mstore t (replicate 4096 0) (mem k)) q"
    using mstore_agree [of t q 0 "replicate 4096 0" "mem k"] assms by simp
  moreover have "agree (mstore t (replicate 4096 0) (mem k)) (mem (add_table pgdir va t k)) q"
    unfolding add_table_def using store_entry_agree [of pgdir q "PDX va"] assms index_less by simp
  ultimately show ?thesis by (rule agree_trans)
qed

lemma add_table_pde:
  assumes "is_aligned pgdir" "is_aligned t" "t \<noteq> pgdir" "unat i < 1024"
  shows "pde (add_table pgdir va t k) pgdir i = (if i = PDX va then V2P t OR 7 else pde k pgdir i)"
    "table (add_table pgdir va t k) pgdir i = (if i = PDX va then t else table k pgdir i)"
proof -
  have "mload32 (entry pgdir i) (mstore t (replicate 4096 0) (mem k)) = mload32 (entry pgdir i) (mem k)"
    using mstore_agree [of t pgdir 0 "replicate 4096 0" "mem k"] assms by (intro agree_mload32) auto
  then show p: "pde (add_table pgdir va t k) pgdir i = (if i = PDX va then V2P t OR 7 else pde k pgdir i)"
    using assms index_less by (simp add: pde_def add_table_def mload32_mstore_entry or_7)
  show "table (add_table pgdir va t k) pgdir i = (if i = PDX va then t else table k pgdir i)"
    using frame_of_entry [OF assms(2), of 7] p by (simp add: table_def)
qed

lemma present_7: "present (x OR 7)"
proof -
  have "bit ((x OR 7) AND PTE_P) 0" by (simp add: bit_simps)
  then show ?thesis unfolding present_def by (metis bit_0_eq bot_apply bot_bool_def)
qed

lemma not_present_0 [simp]: "\<not> present 0" by (simp add: present_def)

lemma add_table_zero:
  assumes "is_aligned pgdir" "is_aligned t" "t \<noteq> pgdir" "unat j < 1024"
  shows "mload32 (entry t j) (mem (add_table pgdir va t k)) = 0"
  using assms index_less zero_page_entry by (simp add: add_table_def mload32_mstore_entry)

lemma add_table_trans:
  assumes ok: "pt_ok kend k pgdir fs" and t: "is_aligned t" "t \<noteq> pgdir" "t \<notin> tables k pgdir"
    and np: "\<not> present (pde k pgdir (PDX va))"
  shows "trans_va (add_table pgdir va t k) pgdir x = trans_va k pgdir x"
proof -
  note o = pt_okD [OF ok]
  show ?thesis
  proof (cases "PDX x = PDX va")
    case True
    then show ?thesis
      using add_table_pde [OF o(2) t(1,2) index_less(1)] add_table_zero [OF o(2) t(1,2) index_less(2)] np
      by (simp add: trans_va_def)
  next
    case False
    show ?thesis
    proof (cases "present (pde k pgdir (PDX x))")
      case True
      then have "table k pgdir (PDX x) \<in> tables k pgdir" using index_less by (auto simp: tables_def)
      then have "table k pgdir (PDX x) \<noteq> t" using t(3) by auto
      then have "agree (mem k) (mem (add_table pgdir va t k)) (table k pgdir (PDX x))"
        using o(5) [OF index_less(1) True] by (intro add_table_agree [OF o(2) t(1)]) auto
      then have "mload32 (entry (table k pgdir (PDX x)) (PTX x)) (mem (add_table pgdir va t k)) =
          mload32 (entry (table k pgdir (PDX x)) (PTX x)) (mem k)"
        using o(5) [OF index_less(1) True] index_less by (intro agree_mload32) auto
      with False True show ?thesis
        using add_table_pde [OF o(2) t(1,2) index_less(1)] by (simp add: trans_va_def)
    next
      case np': False
      with False show ?thesis
        using add_table_pde [OF o(2) t(1,2) index_less(1)] by (simp add: trans_va_def)
    qed
  qed
qed

lemma pt_ok_tables: "pt_ok kend k pgdir fs \<Longrightarrow> t \<in> set fs \<Longrightarrow> t \<notin> tables k pgdir"
  using pt_okD(5) by (fastforce simp: tables_def)

lemma add_table_ok:
  assumes ok: "pt_ok kend k pgdir (t # fs)" and f: "free_pages kend k1 fs" "mem k1 = mem k"
  shows "pt_ok kend (add_table pgdir va t k1) pgdir fs"
proof -
  note o = pt_okD [OF ok]
  have t: "is_aligned t" "t \<noteq> 0" "t \<noteq> pgdir" "valid_page kend t" "t \<notin> set fs" "t \<notin> tables k pgdir"
    using o(3,4) ok pt_ok_tables [OF ok, of t] by (auto simp: pt_ok_def free_pages_def)
  have same: "pde k1 pgdir i = pde k pgdir i" "table k1 pgdir i = table k pgdir i" for i
    using f(2) by (simp_all add: pde_def table_def)
  have "free_pages kend (k1\<lparr>mem := mem (add_table pgdir va t k1)\<rparr>) fs"
    by (rule free_pages_agree [OF f(1)])
      (use t o in \<open>auto intro!: add_table_agree\<close>)
  then have fp: "free_pages kend (add_table pgdir va t k1) fs" by (simp add: add_table_def)
  have nt: "table k pgdir i \<noteq> t" if "unat i < 1024" "present (pde k pgdir i)" for i
    using t(6) that by (auto simp: tables_def)
  note eqs = add_table_pde [OF o(2) t(1,3), where k = k1 and va = va, unfolded same]
  show ?thesis
    unfolding pt_ok_def
  proof (intro conjI allI impI)
    show "free_pages kend (add_table pgdir va t k1) fs" by (rule fp)
    show "valid_page kend pgdir" "pgdir \<notin> set fs" using ok by (auto simp: pt_ok_def)
  next
    fix i assume i: "unat i < 1024" "present (pde (add_table pgdir va t k1) pgdir i)"
    then show "valid_page kend (table (add_table pgdir va t k1) pgdir i)"
      and "table (add_table pgdir va t k1) pgdir i \<noteq> 0"
      and "table (add_table pgdir va t k1) pgdir i \<noteq> pgdir"
      and "table (add_table pgdir va t k1) pgdir i \<notin> set fs"
      using t ok by (auto simp: eqs pt_ok_def split: if_splits)
  next
    fix i j
    assume "unat i < 1024" "unat j < 1024" "present (pde (add_table pgdir va t k1) pgdir i)"
      "present (pde (add_table pgdir va t k1) pgdir j)"
      "table (add_table pgdir va t k1) pgdir i = table (add_table pgdir va t k1) pgdir j"
    then show "i = j" using nt o(6) [of i j] by (auto simp: eqs split: if_splits)
  qed
qed

section \<open>Page numbers\<close>

lemma PGROUNDDOWN_sub: "PGROUNDDOWN x = x - x mod 4096"
  using page_offset [of x] by (simp add: algebra_simps)

lemma unat_PGROUNDDOWN: "unat (PGROUNDDOWN x) = 4096 * (unat x div 4096)"
proof -
  have "unat (x - x mod 4096) = unat x - unat x mod 4096"
    by (subst unat_sub) (auto simp: word_le_nat_alt unat_offset)
  then show ?thesis by (simp add: PGROUNDDOWN_sub minus_mod_eq_mult_div)
qed

lemma PGROUNDDOWN_aligned [simp]: "is_aligned (PGROUNDDOWN x)"
  by (simp add: is_aligned_def aligned_iff unat_PGROUNDDOWN)

lemma PGROUNDDOWN_id: "is_aligned a \<Longrightarrow> PGROUNDDOWN a = a"
  by (simp add: PGROUNDDOWN_sub is_aligned_def)

lemma index_bits: "bit (PDX x) n \<longleftrightarrow> n < 10 \<and> bit x (22 + n)" "bit (PTX x) n \<longleftrightarrow> n < 10 \<and> bit x (12 + n)"
proof -
  have m: "(0x3FF :: uint32) = mask 10" by (simp add: mask_eq_exp_minus_1)
  show "bit (PDX x) n \<longleftrightarrow> n < 10 \<and> bit x (22 + n)" "bit (PTX x) n \<longleftrightarrow> n < 10 \<and> bit x (12 + n)"
    unfolding PDX_def PTX_def m by (auto simp: bit_simps)
qed

lemma round_bits: "bit (PGROUNDDOWN x) n \<longleftrightarrow> 12 \<le> n \<and> bit x n"
proof -
  have "PGROUNDDOWN x = x AND NOT (mask 12)" by (simp add: PGROUNDDOWN_def PGSIZE_def mask_eq_exp_minus_1)
  then show ?thesis by (auto simp: bit_simps dest: bit_imp_le_length)
qed

lemma same_page: "PDX x = PDX y \<and> PTX x = PTX y \<longleftrightarrow> PGROUNDDOWN x = PGROUNDDOWN y"
proof
  assume e: "PDX x = PDX y \<and> PTX x = PTX y"
  show "PGROUNDDOWN x = PGROUNDDOWN y"
  proof (rule bit_word_eqI)
    fix n assume n: "n < LENGTH(32)"
    consider "n < 12" | "12 \<le> n" "n < 22" | "22 \<le> n" by linarith
    then show "bit (PGROUNDDOWN x) n \<longleftrightarrow> bit (PGROUNDDOWN y) n"
    proof cases
      case 2
      then have "bit x n = bit y n"
        using index_bits(2) [of x "n - 12"] index_bits(2) [of y "n - 12"] e by auto
      then show ?thesis by (simp add: round_bits)
    next
      case 3
      then have "bit x n = bit y n"
        using index_bits(1) [of x "n - 22"] index_bits(1) [of y "n - 22"] e n by auto
      then show ?thesis by (simp add: round_bits)
    qed (simp add: round_bits)
  qed
next
  assume e: "PGROUNDDOWN x = PGROUNDDOWN y"
  have b: "bit x n = bit y n" if "12 \<le> n" for n
    using round_bits [of x n] round_bits [of y n] e that by simp
  show "PDX x = PDX y \<and> PTX x = PTX y"
    by (auto intro!: bit_word_eqI simp: index_bits b)
qed

definition pgno :: "uint32 \<Rightarrow> uint32 \<Rightarrow> nat" where
  "pgno a x = unat (PGROUNDDOWN x - a) div 4096"

lemma aligned_diff:
  assumes "is_aligned p" "is_aligned a"
  shows "is_aligned (p - a)"
proof -
  obtain m n where "unat p = 4096 * m" "unat a = 4096 * n" using aligned_unat assms by meson
  then have "unat (p - a) mod 4096 = 0" by (auto simp: unat_sub_if') 
  then show ?thesis by (simp add: is_aligned_def aligned_iff)
qed

lemma pgno_unat: "is_aligned a \<Longrightarrow> unat (PGROUNDDOWN x - a) = 4096 * pgno a x \<and> pgno a x < 1048576"
proof -
  assume "is_aligned a"
  then obtain d where "unat (PGROUNDDOWN x - a) = 4096 * d" "d < 1048576"
    using aligned_unat [OF aligned_diff [OF PGROUNDDOWN_aligned]] by blast
  then show ?thesis by (simp add: pgno_def)
qed

lemma pgno_0: "is_aligned a \<Longrightarrow> pgno a x = 0 \<longleftrightarrow> PGROUNDDOWN x = a"
proof -
  assume "is_aligned a"
  then have "pgno a x = 0 \<longleftrightarrow> unat (PGROUNDDOWN x - a) = 0" using pgno_unat [of a x] by simp
  then show ?thesis by (simp add: unat_eq_0)
qed

lemma aligned_next: "is_aligned a \<Longrightarrow> is_aligned (a + PGSIZE)"
  using aligned_diff [of a "- 4096"] by (simp add: PGSIZE_def is_aligned_def)

lemma pgno_Suc:
  assumes "is_aligned a"
  shows "pgno a x = (if PGROUNDDOWN x = a then 0 else Suc (pgno (a + PGSIZE) x))"
    "PGROUNDDOWN x = a \<Longrightarrow> pgno (a + PGSIZE) x = 1048575"
proof -
  let ?w = "PGROUNDDOWN x - a"
  have s: "PGROUNDDOWN x - (a + PGSIZE) = ?w - 4096" by (simp add: PGSIZE_def)
  show "PGROUNDDOWN x = a \<Longrightarrow> pgno (a + PGSIZE) x = 1048575" by (simp add: pgno_def PGSIZE_def)
  show "pgno a x = (if PGROUNDDOWN x = a then 0 else Suc (pgno (a + PGSIZE) x))"
  proof (cases "PGROUNDDOWN x = a")
    case True
    then show ?thesis using pgno_0 [OF assms] by simp
  next
    case False
    then have "0 < pgno a x" using pgno_0 [OF assms, of x] by simp
    moreover have w: "unat ?w = 4096 * pgno a x" using pgno_unat [OF assms] by simp
    ultimately have "unat (?w - 4096) = 4096 * pgno a x - 4096"
      by (subst unat_sub) (auto simp: word_le_nat_alt)
    then have "pgno (a + PGSIZE) x = pgno a x - 1" unfolding pgno_def [of "a + PGSIZE"] s by simp
    with False \<open>0 < pgno a x\<close> show ?thesis by simp
  qed
qed

lemma aligned_at: "is_aligned a \<Longrightarrow> is_aligned (page_at a i)"
  by (induction i arbitrary: a) (use aligned_next in \<open>auto simp flip: page_at_Suc\<close>)

lemma pgno_at:
  assumes "is_aligned a" "i < 1048576"
  shows "pgno a (page_at a i) = i"
proof -
  have "unat (of_nat (4096 * i) :: uint32) = 4096 * i" using assms(2) by (intro unat_of_nat_word) simp
  then show ?thesis
    unfolding pgno_def PGROUNDDOWN_id [OF aligned_at [OF assms(1)]] by (simp add: page_at_def)
qed

section \<open>Mapping pages\<close>

text \<open>A step that only takes pages from the free list for tables, and writes only to the tables.\<close>

definition grows :: "uint32 \<Rightarrow> uint32 \<Rightarrow> kmem \<Rightarrow> uint32 list \<Rightarrow> kmem \<Rightarrow> uint32 list \<Rightarrow> bool" where
  "grows kend pgdir k fs k' fs' \<longleftrightarrow>
     pt_ok kend k' pgdir fs' \<and>
     set fs' \<subseteq> set fs \<and> tables k' pgdir \<subseteq> tables k pgdir \<union> set fs \<and>
     (\<forall>q. is_aligned q \<longrightarrow> q \<noteq> pgdir \<longrightarrow> q \<notin> tables k pgdir \<longrightarrow> q \<notin> set fs \<longrightarrow> agree (mem k) (mem k') q)"

lemma grows_trans:
  assumes "grows kend pgdir k fs k1 fs1" "grows kend pgdir k1 fs1 k2 fs2"
  shows "grows kend pgdir k fs k2 fs2"
  unfolding grows_def
proof (intro conjI allI impI)
  show "pt_ok kend k2 pgdir fs2" "set fs2 \<subseteq> set fs" "tables k2 pgdir \<subseteq> tables k pgdir \<union> set fs"
    using assms by (auto simp: grows_def)
next
  fix q assume q: "is_aligned q" "q \<noteq> pgdir" "q \<notin> tables k pgdir" "q \<notin> set fs"
  then have "q \<notin> tables k1 pgdir" "q \<notin> set fs1" using assms(1) by (auto simp: grows_def)
  with q assms show "agree (mem k) (mem k2) q" unfolding grows_def by (blast intro: agree_trans)
qed

lemma trans_va_mem: "mem k = mem k' \<Longrightarrow> trans_va k pgdir x = trans_va k' pgdir x"
  by (simp add: trans_va_def table_def pde_def)

lemma entry_PDX: "pgdir + 4 * i = entry pgdir i" by (simp add: entry_def)

lemmas access_simps = load32_def store32_def fill_page_def

lemma walk_present:
  assumes "present (pde k pgdir (PDX va))"
  shows "walkpgdir pgdir va alloc k sch = Ret (entry (table k pgdir (PDX va)) (PTX va)) k sch"
  using assms by (simp add: walkpgdir_def Let_def access_simps entry_PDX pde_def present_def table_def)

lemma walk_absent:
  assumes "\<not> present (pde k pgdir (PDX va))"
  shows "walkpgdir pgdir va False k sch = Ret 0 k sch"
  using assms by (simp add: walkpgdir_def Let_def access_simps entry_PDX pde_def present_def)

lemma walk_new:
  assumes ok: "pt_ok kend k pgdir (t # fs)" and np: "\<not> present (pde k pgdir (PDX va))"
  shows "\<exists>k'. walkpgdir pgdir va True k sch = Ret (entry (table k' pgdir (PDX va)) (PTX va)) k' sch \<and>
     present (pde k' pgdir (PDX va)) \<and> grows kend pgdir k (t # fs) k' fs \<and>
     (\<forall>x. trans_va k' pgdir x = trans_va k pgdir x)"
proof -
  note o = pt_okD [OF ok]
  have t: "is_aligned t" "t \<noteq> 0" "t \<noteq> pgdir" "t \<notin> tables k pgdir"
    using o(3,4) pt_ok_tables [OF ok, of t] by auto
  obtain k1 where k1: "kalloc k sch = Ret t k1 sch" "free_pages kend k1 fs" "mem k1 = mem k"
    using kalloc_free_pages [OF o(1), of sch] by auto
  let ?k = "add_table pgdir va t k1"
  have same: "pde k1 pgdir i = pde k pgdir i" "table k1 pgdir i = table k pgdir i"
    "trans_va k1 pgdir x = trans_va k pgdir x" "tables k1 pgdir = tables k pgdir" for i x
    using k1(3) by (simp_all add: pde_def table_def trans_va_def tables_def Let_def)
  note eqs = add_table_pde [OF o(2) t(1,3), where k = k1 and va = va, unfolded same]
  have run: "walkpgdir pgdir va True k sch = Ret (entry t (PTX va)) ?k sch"
    using np k1(1) t(2)
    by (simp add: walkpgdir_def Let_def access_simps entry_PDX pde_def present_def add_table_def)
  have ok': "pt_ok kend ?k pgdir fs" by (rule add_table_ok [OF ok k1(2,3)])
  have "trans_va ?k pgdir x = trans_va k pgdir x" for x
  proof -
    have "trans_va ?k pgdir x = trans_va (add_table pgdir va t k) pgdir x"
      by (rule trans_va_mem) (simp add: add_table_def k1(3))
    also have "\<dots> = trans_va k pgdir x" by (rule add_table_trans [OF ok t(1,3,4) np])
    finally show ?thesis .
  qed
  moreover have "tables ?k pgdir \<subseteq> tables k pgdir \<union> set (t # fs)"
    unfolding tables_def using eqs by fastforce
  moreover have "agree (mem k) (mem ?k) q"
    if "is_aligned q" "q \<noteq> pgdir" "q \<notin> set (t # fs)" for q
    using add_table_agree [OF o(2) t(1) that(1,2), of k1 va] that(3) k1(3) by simp
  ultimately have "grows kend pgdir k (t # fs) ?k fs" using ok' by (auto simp: grows_def)
  moreover have "present (pde ?k pgdir (PDX va))" "table ?k pgdir (PDX va) = t"
    using eqs [OF index_less(1)] present_7 by simp_all
  ultimately show ?thesis using run \<open>\<And>x. trans_va ?k pgdir x = trans_va k pgdir x\<close> by auto
qed

lemma walk_alloc:
  assumes ok: "pt_ok kend k pgdir fs" and ne: "fs \<noteq> []"
  shows "\<exists>k' fs'. walkpgdir pgdir va True k sch = Ret (entry (table k' pgdir (PDX va)) (PTX va)) k' sch \<and>
     present (pde k' pgdir (PDX va)) \<and> grows kend pgdir k fs k' fs' \<and> length fs \<le> Suc (length fs') \<and>
     (\<forall>x. trans_va k' pgdir x = trans_va k pgdir x)"
proof (cases "present (pde k pgdir (PDX va))")
  case True
  have "grows kend pgdir k fs k fs" using ok by (simp add: grows_def)
  with walk_present [OF True, of True sch] True show ?thesis
    by (intro exI [of _ k] exI [of _ fs]) simp
next
  case False
  obtain t fs' where "fs = t # fs'" using ne by (cases fs) auto
  with walk_new [OF _ False, of kend t fs' sch] ok show ?thesis
    by (metis length_Cons order_refl)
qed

lemma set_pte_grows:
  assumes ok: "pt_ok kend k pgdir fs" and p: "present (pde k pgdir (PDX va))"
  shows "grows kend pgdir k fs (set_pte pgdir va e k) fs"
proof -
  note t = pt_okD(5) [OF ok index_less(1) p]
  have tab: "tables (set_pte pgdir va e k) pgdir = tables k pgdir"
    unfolding tables_def using set_pte_pde [OF ok p, of _ e] by (intro Collect_cong ex_cong1) auto
  have "table k pgdir (PDX va) \<in> tables k pgdir" using p index_less by (auto simp: tables_def)
  then have "agree (mem k) (mem (set_pte pgdir va e k)) q" if "is_aligned q" "q \<notin> tables k pgdir" for q
    unfolding set_pte_def using t that by (auto intro!: store_entry_agree index_less)
  with set_pte_ok [OF ok p] tab show ?thesis by (auto simp: grows_def)
qed

lemma trans_None_pte:
  "trans_va k pgdir va = None \<Longrightarrow> present (pde k pgdir (PDX va)) \<Longrightarrow>
   mload32 (entry (table k pgdir (PDX va)) (PTX va)) (mem k) AND PTE_P = 0"
  by (auto simp: trans_va_def present_def Let_def split: if_splits)

lemma present_or: "present (pa OR perm OR PTE_P)"
  using PTE_present by (simp add: present_def)

text \<open>One round of the loop of \<^verbatim>\<open>mappages\<close>.\<close>

lemma map_round:
  assumes ok: "pt_ok kend k pgdir fs" and ne: "fs \<noteq> []" and free: "trans_va k pgdir a = None"
  shows "\<exists>k' fs'. map_loop n pgdir a pa perm k sch =
       (case n of 0 \<Rightarrow> Ret 0 k' sch | Suc m \<Rightarrow> map_loop m pgdir (a + PGSIZE) (pa + PGSIZE) perm k' sch) \<and>
     grows kend pgdir k fs k' fs' \<and> length fs \<le> Suc (length fs') \<and>
     (\<forall>x. trans_va k' pgdir x =
        (if PGROUNDDOWN x = PGROUNDDOWN a then Some (pa OR perm OR PTE_P) else trans_va k pgdir x))"
proof -
  obtain k1 fs1 where w: "walkpgdir pgdir a True k sch = Ret (entry (table k1 pgdir (PDX a)) (PTX a)) k1 sch"
    "present (pde k1 pgdir (PDX a))" "grows kend pgdir k fs k1 fs1" "length fs \<le> Suc (length fs1)"
    "\<forall>x. trans_va k1 pgdir x = trans_va k pgdir x"
    using walk_alloc [OF ok ne] by blast
  have ok1: "pt_ok kend k1 pgdir fs1" using w(3) by (simp add: grows_def)
  have nz: "entry (table k1 pgdir (PDX a)) (PTX a) \<noteq> 0"
    using pt_okD(5) [OF ok1 index_less(1) w(2)] index_less(2) by (intro pte_nonzero) auto
  have z: "mload32 (entry (table k1 pgdir (PDX a)) (PTX a)) (mem k1) AND PTE_P = 0"
    using trans_None_pte [OF _ w(2)] w(5) free by simp
  let ?k = "set_pte pgdir a (pa OR perm OR PTE_P) k1"
  have run: "map_loop n pgdir a pa perm k sch =
      (case n of 0 \<Rightarrow> Ret 0 ?k sch | Suc m \<Rightarrow> map_loop m pgdir (a + PGSIZE) (pa + PGSIZE) perm ?k sch)"
    using w(1) nz z
    by (subst map_loop.simps) (simp add: access_simps set_pte_def del: map_loop.simps split: nat.split)
  show ?thesis
    using run grows_trans [OF w(3) set_pte_grows [OF ok1 w(2)]] w(4,5)
      set_pte_trans [OF ok1 w(2), of "pa OR perm OR PTE_P"] present_or [of pa perm]
    by (intro exI [of _ ?k] exI [of _ fs1]) (simp add: same_page del: map_loop.simps)
qed

lemma map_loop_maps:
  assumes "pt_ok kend k pgdir fs" "n < length fs" "n < 1048576" "is_aligned a"
    and "\<forall>i\<le>n. trans_va k pgdir (page_at a i) = None"
  shows "\<exists>k' fs'. map_loop n pgdir a pa perm k sch = Ret 0 k' sch \<and>
     grows kend pgdir k fs k' fs' \<and> length fs \<le> length fs' + Suc n \<and>
     (\<forall>x. trans_va k' pgdir x =
        (if pgno a x \<le> n then Some (page_at pa (pgno a x) OR perm OR PTE_P) else trans_va k pgdir x))"
  using assms
proof (induction n arbitrary: a pa k fs)
  case 0
  have "fs \<noteq> []" "trans_va k pgdir a = None" using "0.prems"(2,5) by auto
  from map_round [OF "0.prems"(1) this, of 0 pa perm sch] obtain k' fs' where
    k': "map_loop 0 pgdir a pa perm k sch = Ret 0 k' sch" "grows kend pgdir k fs k' fs'"
    "length fs \<le> Suc (length fs')"
    "\<forall>x. trans_va k' pgdir x =
       (if PGROUNDDOWN x = PGROUNDDOWN a then Some (pa OR perm OR PTE_P) else trans_va k pgdir x)"
    by (auto simp del: map_loop.simps)
  then show ?case
    using pgno_Suc(1) [OF "0.prems"(4)] PGROUNDDOWN_id [OF "0.prems"(4)]
    by (intro exI [of _ k'] exI [of _ fs']) (simp del: map_loop.simps)
next
  case (Suc n)
  have ne: "fs \<noteq> []" and fr: "trans_va k pgdir a = None" using Suc.prems(2,5) by (auto dest: spec [of _ 0])
  from map_round [OF Suc.prems(1) ne fr, of "Suc n" pa perm sch] obtain k1 fs1 where
    k1: "map_loop (Suc n) pgdir a pa perm k sch = map_loop n pgdir (a + PGSIZE) (pa + PGSIZE) perm k1 sch"
    "grows kend pgdir k fs k1 fs1" "length fs \<le> Suc (length fs1)"
    "\<forall>x. trans_va k1 pgdir x =
       (if PGROUNDDOWN x = a then Some (pa OR perm OR PTE_P) else trans_va k pgdir x)"
    unfolding PGROUNDDOWN_id [OF Suc.prems(4)] by (auto simp del: map_loop.simps)
  note al = Suc.prems(4) aligned_next [OF Suc.prems(4)]
  have "trans_va k1 pgdir (page_at (a + PGSIZE) i) = None" if "i \<le> n" for i
  proof -
    have "pgno a (page_at a (Suc i)) = Suc i" using that Suc.prems(3) by (intro pgno_at [OF al(1)]) simp
    then have "PGROUNDDOWN (page_at a (Suc i)) \<noteq> a" using pgno_0 [OF al(1)] by (metis nat.distinct(1))
    then show ?thesis using k1(4) Suc.prems(5) that by (simp add: page_at_Suc)
  qed
  moreover have "pt_ok kend k1 pgdir fs1" using k1(2) by (simp add: grows_def)
  moreover have "n < length fs1" "n < 1048576" using Suc.prems(2,3) k1(3) by simp_all
  ultimately obtain k2 fs2 where k2: "map_loop n pgdir (a + PGSIZE) (pa + PGSIZE) perm k1 sch = Ret 0 k2 sch"
    "grows kend pgdir k1 fs1 k2 fs2" "length fs1 \<le> length fs2 + Suc n"
    "\<forall>x. trans_va k2 pgdir x = (if pgno (a + PGSIZE) x \<le> n
       then Some (page_at (pa + PGSIZE) (pgno (a + PGSIZE) x) OR perm OR PTE_P) else trans_va k1 pgdir x)"
    using Suc.IH [OF _ _ _ al(2)] by blast
  have "trans_va k2 pgdir x =
      (if pgno a x \<le> Suc n then Some (page_at pa (pgno a x) OR perm OR PTE_P) else trans_va k pgdir x)" for x
  proof (cases "PGROUNDDOWN x = a")
    case True
    then show ?thesis using k2(4) k1(4) pgno_Suc [OF al(1), of x] Suc.prems(3) by simp
  next
    case False
    then show ?thesis using k2(4) k1(4) pgno_Suc(1) [OF al(1), of x] by (simp add: page_at_Suc)
  qed
  then show ?case
    using k1(1,3) k2(1,3) grows_trans [OF k1(2) k2(2)]
    by (intro exI [of _ k2] exI [of _ fs2]) (simp del: map_loop.simps)
qed

text \<open>\<^verbatim>\<open>mappages\<close> on a range of pages that are not mapped, with enough pages for the tables it may need:
  the hardware then translates every page of the range to its frame, and every other page as before.\<close>

lemma mappages_maps:
  assumes "pt_ok kend k pgdir fs" "n = pgno (PGROUNDDOWN va) (va + sz - 1)" "n < length fs"
    and "\<forall>i\<le>n. trans_va k pgdir (page_at (PGROUNDDOWN va) i) = None"
  shows "\<exists>k' fs'. mappages pgdir va sz pa perm k sch = Ret 0 k' sch \<and> pt_ok kend k' pgdir fs' \<and>
     (\<forall>x. trans_va k' pgdir x = (if pgno (PGROUNDDOWN va) x \<le> n
        then Some (page_at pa (pgno (PGROUNDDOWN va) x) OR perm OR PTE_P) else trans_va k pgdir x))"
proof -
  have "n < 1048576" using pgno_unat [OF PGROUNDDOWN_aligned] assms(2) by simp
  from map_loop_maps [OF assms(1,3) this PGROUNDDOWN_aligned assms(4), of pa perm sch]
  show ?thesis
    using assms(2) by (auto simp: mappages_def Let_def pgno_def grows_def simp del: map_loop.simps)
qed

section \<open>User memory\<close>

definition frame_of :: "uint32 \<Rightarrow> uint32" where "frame_of e = P2V (PTE_ADDR e)"

definition user_va :: "kmem \<Rightarrow> uint32 \<Rightarrow> uint32 \<Rightarrow> uint32 option" where
  "user_va k pgdir x = (case trans_va k pgdir x of
     Some e \<Rightarrow> if e AND PTE_U \<noteq> 0 then Some (frame_of e) else None | None \<Rightarrow> None)"

text \<open>The byte a process reads at an address, if it may read there.\<close>

definition umem :: "kmem \<Rightarrow> uint32 \<Rightarrow> uint32 \<Rightarrow> uchar option" where
  "umem k pgdir x = map_option (\<lambda>q. mem k (q + x mod 4096)) (user_va k pgdir x)"

text \<open>The pages of a process are not page tables, not free, and not shared.\<close>

definition user_ok :: "uint32 \<Rightarrow> kmem \<Rightarrow> uint32 \<Rightarrow> uint32 list \<Rightarrow> bool" where
  "user_ok kend k pgdir fs \<longleftrightarrow>
     pt_ok kend k pgdir fs \<and>
     (\<forall>x q. user_va k pgdir x = Some q \<longrightarrow>
        is_aligned q \<and> q \<noteq> 0 \<and> q \<noteq> pgdir \<and> q \<notin> tables k pgdir \<and> q \<notin> set fs) \<and>
     (\<forall>x y q. user_va k pgdir x = Some q \<longrightarrow> user_va k pgdir y = Some q \<longrightarrow> PGROUNDDOWN x = PGROUNDDOWN y)"

lemma user_okD:
  assumes "user_ok kend k pgdir fs"
  shows "pt_ok kend k pgdir fs"
    "\<And>x q. user_va k pgdir x = Some q \<Longrightarrow>
       is_aligned q \<and> q \<noteq> 0 \<and> q \<noteq> pgdir \<and> q \<notin> tables k pgdir \<and> q \<notin> set fs"
    "\<And>x y q. user_va k pgdir x = Some q \<Longrightarrow> user_va k pgdir y = Some q \<Longrightarrow> PGROUNDDOWN x = PGROUNDDOWN y"
  using assms unfolding user_ok_def by blast+

lemma offset_nat: "(x :: uint32) mod 4096 = of_nat (unat x mod 4096)"
  by (simp flip: unat_offset)

lemma agree_at: "agree m m' q \<Longrightarrow> m' (q + x mod 4096) = m (q + x mod 4096)"
  unfolding agree_def offset_nat by simp

text \<open>Writing to a page that is no table and not free changes neither the tables nor the free list.\<close>

lemma frame_write:
  assumes ok: "pt_ok kend k pgdir fs" and p: "p \<noteq> pgdir" "p \<notin> tables k pgdir" "p \<notin> set fs"
    and m: "\<And>q. is_aligned q \<Longrightarrow> q \<noteq> p \<Longrightarrow> agree (mem k) m' q"
  shows "pt_ok kend (k\<lparr>mem := m'\<rparr>) pgdir fs" "tables (k\<lparr>mem := m'\<rparr>) pgdir = tables k pgdir"
    "trans_va (k\<lparr>mem := m'\<rparr>) pgdir x = trans_va k pgdir x"
proof -
  note o = pt_okD [OF ok]
  have pd: "pde (k\<lparr>mem := m'\<rparr>) pgdir i = pde k pgdir i" if "unat i < 1024" for i
    using agree_mload32 [OF m [OF o(2)] o(2) that] p(1) by (simp add: pde_def)
  then have tb: "table (k\<lparr>mem := m'\<rparr>) pgdir i = table k pgdir i" if "unat i < 1024" for i
    using that by (simp add: table_def)
  have "free_pages kend (k\<lparr>mem := m'\<rparr>) fs"
    by (rule free_pages_agree [OF o(1)]) (use o(4) p(3) m in auto)
  with ok show "pt_ok kend (k\<lparr>mem := m'\<rparr>) pgdir fs" unfolding pt_ok_def using pd tb by simp
  show "tables (k\<lparr>mem := m'\<rparr>) pgdir = tables k pgdir"
    unfolding tables_def using pd tb by (intro Collect_cong ex_cong1) auto
  show "trans_va (k\<lparr>mem := m'\<rparr>) pgdir x = trans_va k pgdir x"
  proof (cases "present (pde k pgdir (PDX x))")
    case True
    then have "table k pgdir (PDX x) \<noteq> p" using p(2) index_less(1) by (auto simp: tables_def)
    then have "mload32 (entry (table k pgdir (PDX x)) (PTX x)) m' =
        mload32 (entry (table k pgdir (PDX x)) (PTX x)) (mem k)"
      using o(5) [OF index_less(1) True] m index_less(2) by (intro agree_mload32) auto
    then show ?thesis using pd [OF index_less(1)] tb [OF index_less(1)] by (simp add: trans_va_def)
  next
    case False
    then show ?thesis using pd [OF index_less(1)] by (simp add: trans_va_def)
  qed
qed

lemma kalloc_pt_ok:
  assumes ok: "pt_ok kend k pgdir (p # fs)"
  shows "\<exists>k'. kalloc k sch = Ret p k' sch \<and> mem k' = mem k \<and> pt_ok kend k' pgdir fs"
proof -
  obtain k1 where k1: "kalloc k sch = Ret p k1 sch" "free_pages kend k1 fs" "mem k1 = mem k"
    using kalloc_free_pages [OF pt_okD(1) [OF ok], of sch] by auto
  then have "pde k1 pgdir i = pde k pgdir i" "table k1 pgdir i = table k pgdir i" for i
    by (simp_all add: pde_def table_def)
  with ok k1 show ?thesis by (auto simp: pt_ok_def)
qed

lemma mappages_one:
  assumes "is_aligned a"
  shows "mappages pgdir a PGSIZE pa perm = map_loop 0 pgdir a pa perm"
proof -
  have "PGROUNDDOWN (a + PGSIZE - 1) = a"
  proof -
    obtain n where n: "unat a = 4096 * n" "n < 1048576" using aligned_unat [OF assms] by blast
    have "a + PGSIZE - 1 = a + of_nat 4095" by (simp add: PGSIZE_def)
    then have "unat (a + PGSIZE - 1) = 4096 * n + 4095"
      using unat_in_page [OF assms, of 4095] n(1) by (simp only: numeral_less_iff semiring_norm)
    then have "unat (PGROUNDDOWN (a + PGSIZE - 1)) = unat a" using n by (simp add: unat_PGROUNDDOWN)
    then show ?thesis by (metis unsigned_word_eqI)
  qed
  then show ?thesis unfolding mappages_def PGROUNDDOWN_id [OF assms] Let_def by (simp del: map_loop.simps)
qed

lemma user_bit: "((x :: uint32) OR 7) AND PTE_U \<noteq> 0"
proof -
  have "bit ((x OR 7) AND 4) 2" by (simp add: bit_simps numeral_eq_Suc)
  then show ?thesis by (metis bit_0_eq bot_apply bot_bool_def)
qed

lemma user_entry: "(x :: uint32) OR (PTE_W OR PTE_U) OR PTE_P = x OR 7"
  by (simp add: or.assoc)

text \<open>One round of the loop of \<^verbatim>\<open>allocuvm\<close>.\<close>

lemma alloc_round:
  assumes uo: "user_ok kend k pgdir (p # fs)" and ne: "fs \<noteq> []" and a: "is_aligned a"
    and fr: "trans_va k pgdir a = None"
  shows "\<exists>k' fs'. alloc_loop kend pgdir oldsz newsz (a # as) k sch = alloc_loop kend pgdir oldsz newsz as k' sch \<and>
     user_ok kend k' pgdir fs' \<and> length fs \<le> Suc (length fs') \<and>
     (\<forall>x. trans_va k' pgdir x = (if PGROUNDDOWN x = a then Some (V2P p OR 7) else trans_va k pgdir x)) \<and>
     (\<forall>x. umem k' pgdir x = (if PGROUNDDOWN x = a then Some 0 else umem k pgdir x))"
proof -
  note ok = user_okD(1) [OF uo]
  have p: "is_aligned p" "p \<noteq> 0" "p \<noteq> pgdir" "p \<notin> tables k pgdir" "p \<notin> set fs"
    using pt_okD(3,4) [OF ok] pt_ok_tables [OF ok, of p] ok by (auto simp: pt_ok_def free_pages_def)
  obtain k1 where k1: "kalloc k sch = Ret p k1 sch" "mem k1 = mem k" "pt_ok kend k1 pgdir fs"
    using kalloc_pt_ok [OF ok] by blast
  have tab1: "tables k1 pgdir = tables k pgdir" using k1(2) by (simp add: tables_def table_def pde_def)
  let ?m = "mstore p (replicate 4096 0) (mem k1)"
  let ?k2 = "k1\<lparr>mem := ?m\<rparr>"
  have ag: "agree (mem k1) ?m q" if "is_aligned q" "q \<noteq> p" for q
    using mstore_agree [of p q 0 "replicate 4096 0" "mem k1"] p(1) that by simp
  note fw = frame_write [OF k1(3) p(3) p(4)[folded tab1] p(5) ag]
  have tr2: "trans_va ?k2 pgdir x = trans_va k pgdir x" for x
    using fw(3) trans_va_mem [OF k1(2)] by simp
  have "trans_va ?k2 pgdir a = None" using tr2 fr by simp
  from map_round [OF fw(1) ne this, of 0 "V2P p" "PTE_W OR PTE_U" sch] obtain k3 fs3 where
    k3: "map_loop 0 pgdir a (V2P p) (PTE_W OR PTE_U) ?k2 sch = Ret 0 k3 sch"
    "grows kend pgdir ?k2 fs k3 fs3" "length fs \<le> Suc (length fs3)"
    "\<forall>x. trans_va k3 pgdir x =
       (if PGROUNDDOWN x = a then Some (V2P p OR 7) else trans_va k pgdir x)"
    unfolding PGROUNDDOWN_id [OF a] user_entry tr2 by (auto simp del: map_loop.simps)
  have run: "alloc_loop kend pgdir oldsz newsz (a # as) k sch = alloc_loop kend pgdir oldsz newsz as k3 sch"
    using k1(1) p(2) k3(1) by (simp add: mappages_one [OF a] access_simps del: map_loop.simps)
  have uv: "user_va k3 pgdir x = (if PGROUNDDOWN x = a then Some p else user_va k pgdir x)" for x
    using k3(4) frame_of_entry [OF p(1), of 7] user_bit by (simp add: user_va_def frame_of_def)
  have sub: "tables k3 pgdir \<subseteq> tables k pgdir \<union> set fs" "set fs3 \<subseteq> set fs"
    using k3(2) fw(2) tab1 by (auto simp: grows_def)
  have old: "agree (mem k) (mem k3) q" if "user_va k pgdir x = Some q" for x q
  proof -
    have q: "is_aligned q" "q \<noteq> pgdir" "q \<notin> tables k pgdir" "q \<notin> set (p # fs)"
      using user_okD(2) [OF uo that] by auto
    then have "agree ?m (mem k3) q" using k3(2) fw(2) tab1 by (auto simp: grows_def)
    then show ?thesis using ag [OF q(1)] q(4) k1(2) by (auto intro: agree_trans)
  qed
  have new: "mem k3 (p + x mod 4096) = 0" for x
  proof -
    have "agree ?m (mem k3) p" using k3(2) fw(2) tab1 p by (auto simp: grows_def)
    then have "mem k3 (p + x mod 4096) = ?m (p + x mod 4096)" by (rule agree_at)
    also have "\<dots> = 0" by (simp add: mstore_def unat_offset)
    finally show ?thesis .
  qed
  have "umem k3 pgdir x = (if PGROUNDDOWN x = a then Some 0 else umem k pgdir x)" for x
    using new old agree_at by (auto simp: umem_def uv map_option_case split: option.splits)
  moreover have "user_ok kend k3 pgdir fs3"
    unfolding user_ok_def
  proof (intro conjI allI impI)
    show "pt_ok kend k3 pgdir fs3" using k3(2) by (simp add: grows_def)
  next
    fix x q assume "user_va k3 pgdir x = Some q"
    then show "is_aligned q" "q \<noteq> 0" "q \<noteq> pgdir" "q \<notin> tables k3 pgdir" "q \<notin> set fs3"
      using user_okD(2) [OF uo, of x q] p sub by (auto simp: uv split: if_splits)
  next
    fix x y q assume "user_va k3 pgdir x = Some q" "user_va k3 pgdir y = Some q"
    then show "PGROUNDDOWN x = PGROUNDDOWN y"
      using user_okD(2) [OF uo, of _ p] user_okD(3) [OF uo, of x q y] by (auto simp: uv split: if_splits)
  qed
  ultimately show ?thesis using run k3(3,4) by blast
qed

lemma page_list_at: "page_list a sz = map (page_at a) [0..<length (page_list a sz)]"
  by (simp add: page_list_def page_at_def)

lemma pages_Cons: "map (page_at a) [0..<Suc n] = a # map (page_at (a + PGSIZE)) [0..<n]"
  by (simp add: page_at_Suc upt_conv_Cons map_Suc_upt [symmetric] comp_def del: upt_Suc map_Suc_upt)

lemma pages_step: "0 < d \<Longrightarrow> (d + 4095) div 4096 = Suc ((d - 4096 + 4095) div (4096 :: nat))"
proof (cases "4096 \<le> d")
  case True
  then have "d + 4095 = (d - 4096 + 4095) + 4096" by simp
  then show ?thesis by (metis div_add_self2 Suc_eq_plus1 zero_neq_numeral)
next
  case False
  assume "0 < d"
  with False have "(d + 4095) div 4096 = 1" by linarith
  with False show ?thesis by simp
qed

text \<open>The list of pages is what the loop counter of the code runs through.\<close>

lemma page_list_step:
  assumes "unat sz \<le> 2 ^ 32 - 4096"
  shows "page_list a sz = (if a < sz then a # page_list (a + PGSIZE) sz else [])"
proof (cases "a < sz")
  case True
  then have l: "unat a < unat sz" by (simp add: word_less_nat_alt)
  then have "unat (a + PGSIZE) = unat a + 4096" using assms by (simp add: PGSIZE_def unat_plus_if')
  then have "length (page_list a sz) = Suc (length (page_list (a + PGSIZE) sz))"
    using l pages_step [of "unat sz - unat a"] by (simp add: page_list_def)
  then have "page_list a sz = a # map (page_at (a + PGSIZE)) [0..<length (page_list (a + PGSIZE) sz)]"
    by (metis page_list_at pages_Cons)
  then show ?thesis using True page_list_at [of "a + PGSIZE" sz] by simp
next
  case False
  then have "unat sz \<le> unat a" by (simp add: word_less_nat_alt)
  with False show ?thesis by (simp add: page_list_def)
qed

lemma pgno_range:
  assumes "is_aligned a" "unat sz < 2 ^ 31"
  shows "pgno a x < length (page_list a sz) \<longleftrightarrow> a \<le> PGROUNDDOWN x \<and> PGROUNDDOWN x < sz"
proof -
  obtain m n where mn: "unat a = 4096 * m" "unat (PGROUNDDOWN x) = 4096 * n" "m < 1048576" "n < 1048576"
    using aligned_unat assms(1) PGROUNDDOWN_aligned by meson
  define N where "N = (unat sz - unat a + 4095) div 4096"
  have N: "4096 * N \<le> unat sz - unat a + 4095" "unat sz - unat a \<le> 4096 * N" by (auto simp: N_def)
  have len: "length (page_list a sz) = N" by (simp add: page_list_def N_def)
  have le: "a \<le> PGROUNDDOWN x \<longleftrightarrow> m \<le> n" "PGROUNDDOWN x < sz \<longleftrightarrow> 4096 * n < unat sz"
    using mn by (simp_all add: word_le_nat_alt word_less_nat_alt)
  show ?thesis
  proof (cases "m \<le> n")
    case True
    then have "unat (PGROUNDDOWN x - a) = 4096 * (n - m)"
      using mn by (simp add: unat_sub word_le_nat_alt diff_mult_distrib2)
    then have "pgno a x = n - m" by (simp add: pgno_def)
    moreover have "n - m < N \<longleftrightarrow> 4096 * n < unat sz" using N True mn(1) by linarith
    ultimately show ?thesis using le len True by simp
  next
    case False
    then have "unat (PGROUNDDOWN x - a) = 2 ^ 32 + 4096 * n - 4096 * m"
      using mn by (simp add: unat_sub_if')
    moreover have "2 ^ 32 + 4096 * n - 4096 * m = 4096 * (1048576 + n - m)" by simp
    ultimately have "pgno a x = 1048576 + n - m" by (simp add: pgno_def)
    moreover have "N + m \<le> 1048576"
    proof (cases "unat sz \<le> unat a")
      case True
      then show ?thesis using mn(3) by (simp add: N_def)
    next
      case False
      then have "4096 * N + 4096 * m \<le> unat sz + 4095" using N(1) mn(1) by linarith
      moreover have "unat sz < 2147483648" using assms(2) by simp
      ultimately show ?thesis by linarith
    qed
    ultimately show ?thesis using le len False by simp
  qed
qed

lemma alloc_loop_maps:
  assumes "user_ok kend k pgdir fs" "2 * n \<le> length fs" "n \<le> 1048575" "is_aligned a"
    and "\<forall>i<n. trans_va k pgdir (page_at a i) = None"
  shows "\<exists>k' fs'. alloc_loop kend pgdir oldsz newsz (map (page_at a) [0..<n]) k sch = Ret newsz k' sch \<and>
     user_ok kend k' pgdir fs' \<and>
     (\<forall>x. umem k' pgdir x = (if pgno a x < n then Some 0 else umem k pgdir x))"
  using assms
proof (induction n arbitrary: a k fs)
  case 0
  then show ?case by auto
next
  case (Suc n)
  note al = Suc.prems(4) aligned_next [OF Suc.prems(4)]
  obtain p p' fs'' where "fs = p # p' # fs''" using Suc.prems(2) by (cases fs; cases "tl fs") auto
  then obtain fs' where fs: "fs = p # fs'" "fs' \<noteq> []" by blast
  have "trans_va k pgdir a = None" using Suc.prems(5) by (auto dest: spec [of _ 0])
  from alloc_round [OF Suc.prems(1) [unfolded fs(1)] fs(2) al(1) this,
      of oldsz newsz "map (page_at (a + PGSIZE)) [0..<n]" sch] obtain k1 fs1 where
    k1: "alloc_loop kend pgdir oldsz newsz (map (page_at a) [0..<Suc n]) k sch =
       alloc_loop kend pgdir oldsz newsz (map (page_at (a + PGSIZE)) [0..<n]) k1 sch"
    "user_ok kend k1 pgdir fs1" "length fs' \<le> Suc (length fs1)"
    "\<forall>x. trans_va k1 pgdir x = (if PGROUNDDOWN x = a then Some (V2P p OR 7) else trans_va k pgdir x)"
    "\<forall>x. umem k1 pgdir x = (if PGROUNDDOWN x = a then Some 0 else umem k pgdir x)"
    unfolding pages_Cons by blast
  have "trans_va k1 pgdir (page_at (a + PGSIZE) i) = None" if "i < n" for i
  proof -
    have "pgno a (page_at a (Suc i)) = Suc i" using that Suc.prems(3) by (intro pgno_at [OF al(1)]) simp
    then have "PGROUNDDOWN (page_at a (Suc i)) \<noteq> a" using pgno_0 [OF al(1)] by (metis nat.distinct(1))
    then show ?thesis using k1(4) Suc.prems(5) that by (simp add: page_at_Suc)
  qed
  moreover have "2 * n \<le> length fs1" "n \<le> 1048575" using Suc.prems(2,3) k1(3) fs(1) by simp_all
  ultimately obtain k2 fs2 where k2:
    "alloc_loop kend pgdir oldsz newsz (map (page_at (a + PGSIZE)) [0..<n]) k1 sch = Ret newsz k2 sch"
    "user_ok kend k2 pgdir fs2"
    "\<forall>x. umem k2 pgdir x = (if pgno (a + PGSIZE) x < n then Some 0 else umem k1 pgdir x)"
    using Suc.IH [OF k1(2) _ _ al(2)] by blast
  have "umem k2 pgdir x = (if pgno a x < Suc n then Some 0 else umem k pgdir x)" for x
    using k2(3) k1(5) pgno_Suc [OF al(1), of x] by simp
  then show ?case using k1(1) k2(1,2) by auto
qed

lemma PGROUNDUP_aligned: "is_aligned (PGROUNDUP x)"
  using PGROUNDDOWN_aligned [of "x + PGSIZE - 1"] by (simp add: PGROUNDUP_def PGROUNDDOWN_def)

lemma pgno_page_list:
  assumes "is_aligned a" "unat sz < 2 ^ 31" "i < length (page_list a sz)"
  shows "a \<le> PGROUNDDOWN (page_at a i) \<and> PGROUNDDOWN (page_at a i) < sz"
proof -
  have "length (page_list a sz) \<le> 1048576" using assms(2) by (simp add: page_list_def)
  then have "pgno a (page_at a i) = i" using assms(3) by (intro pgno_at [OF assms(1)]) simp
  then show ?thesis using pgno_range [OF assms(1,2), of "page_at a i"] assms(3) by simp
qed

section \<open>Copying out\<close>

lemma trans_page: "PGROUNDDOWN x = PGROUNDDOWN y \<Longrightarrow> user_va k pgdir x = user_va k pgdir y"
  using same_page [of x y] by (simp add: user_va_def trans_va_def)

lemma uva2ka_run:
  assumes ok: "pt_ok kend k pgdir fs" and u: "user_va k pgdir x = Some q"
  shows "uva2ka pgdir x k sch = Ret q k sch"
proof -
  have p: "present (pde k pgdir (PDX x))"
    using u by (auto simp: user_va_def trans_va_def split: if_splits)
  have "entry (table k pgdir (PDX x)) (PTX x) \<noteq> 0"
    using pt_okD(5) [OF ok index_less(1) p] index_less(2) by (intro pte_nonzero) auto
  with u p show ?thesis
    by (auto simp: uva2ka_def walk_present access_simps user_va_def trans_va_def frame_of_def
        present_def Let_def split: if_splits)
qed

lemma uva2ka_no_table:
  "\<not> present (pde k pgdir (PDX x)) \<Longrightarrow> uva2ka pgdir x k sch = Fail (OutOfBounds ''null page table entry'')"
  by (simp add: uva2ka_def walk_absent)

lemma word_split: "(x :: uint32) = PGROUNDDOWN x + x mod 4096"
  by (simp add: PGROUNDDOWN_sub)

lemma same_page_offset:
  assumes "unat (x - va) < 4096 - unat va mod 4096"
  shows "PGROUNDDOWN x = PGROUNDDOWN va"
proof -
  have "x = PGROUNDDOWN va + of_nat (unat va mod 4096 + unat (x - va))"
    using word_split [of va] offset_nat [of va] by (simp add: algebra_simps)
  moreover have l: "unat va mod 4096 + unat (x - va) < 4096" using assms by linarith
  ultimately have "unat x = 4096 * (unat va div 4096) + (unat va mod 4096 + unat (x - va))"
    using unat_in_page [OF PGROUNDDOWN_aligned l] unat_PGROUNDDOWN by metis
  then have "unat x div 4096 = unat va div 4096 + (unat va mod 4096 + unat (x - va)) div 4096"
    by (metis div_mult_self4 zero_neq_numeral)
  with l have "unat x div 4096 = unat va div 4096" by simp
  then have "unat (PGROUNDDOWN x) = unat (PGROUNDDOWN va)" by (simp add: unat_PGROUNDDOWN)
  then show ?thesis by (metis unsigned_word_eqI)
qed

lemma page_diff:
  assumes "PGROUNDDOWN x = PGROUNDDOWN va"
  shows "q + x mod 4096 - (q + va mod 4096) = x - va"
proof -
  have "x - va = (PGROUNDDOWN x + x mod 4096) - (PGROUNDDOWN va + va mod 4096)"
    by (simp only: word_split [symmetric])
  then show ?thesis using assms by simp
qed

text \<open>Writing within one page of the process.\<close>

lemma user_write:
  assumes uo: "user_ok kend k pgdir fs" and u: "user_va k pgdir va = Some q"
    and bs: "length bs \<le> 4096 - unat va mod 4096"
    and k': "k' = k\<lparr>mem := mstore (q + va mod 4096) bs (mem k)\<rparr>"
  shows "user_ok kend k' pgdir fs"
    "umem k' pgdir x = (if unat (x - va) < length bs then Some (bs ! unat (x - va)) else umem k pgdir x)"
proof -
  have q: "is_aligned q" "q \<noteq> pgdir" "q \<notin> tables k pgdir" "q \<notin> set fs"
    using user_okD(2) [OF uo u] by auto
  have "unat va mod 4096 < 4096" by simp
  then have l: "unat va mod 4096 + length bs \<le> 4096" using bs by linarith
  have ag: "agree (mem k) (mstore (q + va mod 4096) bs (mem k)) r" if "is_aligned r" "r \<noteq> q" for r
    using mstore_agree [OF q(1) that(1) that(2) [symmetric] l] by (simp add: offset_nat)
  have fw: "pt_ok kend k' pgdir fs" "tables k' pgdir = tables k pgdir"
    "trans_va k' pgdir y = trans_va k pgdir y" for y
    unfolding k' using frame_write [OF user_okD(1) [OF uo] q(2-4) ag] by blast+
  have uv: "user_va k' pgdir y = user_va k pgdir y" for y using fw(3) by (simp add: user_va_def)
  have mk: "mem k' = mstore (q + va mod 4096) bs (mem k)" by (simp add: k')
  show "user_ok kend k' pgdir fs"
    unfolding user_ok_def uv fw(2) using fw(1) user_okD [OF uo] by blast
  show "umem k' pgdir x = (if unat (x - va) < length bs then Some (bs ! unat (x - va)) else umem k pgdir x)"
  proof (cases "PGROUNDDOWN x = PGROUNDDOWN va")
    case True
    then have "user_va k pgdir x = Some q" using trans_page u by metis
    then show ?thesis using page_diff [OF True, of q] by (simp add: umem_def uv mk mstore_def)
  next
    case False
    then have "\<not> unat (x - va) < length bs" using same_page_offset [of x va] bs by linarith
    moreover have "umem k' pgdir x = umem k pgdir x"
    proof (cases "user_va k pgdir x")
      case (Some r)
      then have "r \<noteq> q" using user_okD(3) [OF uo _ u] False by blast
      moreover have "is_aligned r" using user_okD(2) [OF uo Some] by blast
      ultimately have "mem k' (r + x mod 4096) = mem k (r + x mod 4096)"
        unfolding mk using agree_at [OF ag] by blast
      then show ?thesis by (simp add: umem_def uv Some)
    qed (simp add: umem_def uv)
    ultimately show ?thesis by simp
  qed
qed

lemma chunk_eq: "chunk va len = min (4096 - unat va mod 4096) len"
  by (simp add: chunk_def unat_chunk)

lemma next_page: "PGROUNDDOWN va + PGSIZE = va + of_nat (4096 - unat va mod 4096)"
proof -
  have "unat va mod 4096 \<le> 4096" by (simp add: less_imp_le)
  then have "(of_nat (4096 - unat va mod 4096) :: uint32) = 4096 - of_nat (unat va mod 4096)"
    by (simp add: of_nat_diff)
  then show ?thesis using word_split [of va] by (simp add: PGSIZE_def offset_nat algebra_simps)
qed

lemma copyout_round:
  assumes uo: "user_ok kend k pgdir fs" and ne: "buf \<noteq> []" and m: "umem k pgdir va \<noteq> None"
  shows "\<exists>k'. copyout pgdir va buf k sch =
       copyout pgdir (PGROUNDDOWN va + PGSIZE) (drop (chunk va (length buf)) buf) k' sch \<and>
     user_ok kend k' pgdir fs \<and>
     (\<forall>x. umem k' pgdir x =
       (if unat (x - va) < chunk va (length buf) then Some (buf ! unat (x - va)) else umem k pgdir x))"
proof -
  obtain q where q: "user_va k pgdir va = Some q" using m by (auto simp: umem_def)
  have "user_va k pgdir (PGROUNDDOWN va) = Some q"
    using trans_page [of "PGROUNDDOWN va" va] PGROUNDDOWN_id [OF PGROUNDDOWN_aligned] q by simp
  then have run: "uva2ka pgdir (PGROUNDDOWN va) k sch = Ret q k sch"
    by (rule uva2ka_run [OF user_okD(1) [OF uo]])
  let ?bs = "take (chunk va (length buf)) buf"
  let ?k = "k\<lparr>mem := mstore (q + va mod 4096) ?bs (mem k)\<rparr>"
  have len: "length ?bs = chunk va (length buf)" "length ?bs \<le> 4096 - unat va mod 4096"
    by (simp_all add: chunk_eq)
  have "copyout pgdir va buf k sch =
      copyout pgdir (PGROUNDDOWN va + PGSIZE) (drop (chunk va (length buf)) buf) ?k sch"
    using run ne user_okD(2) [OF uo q]
    by (subst copyout.simps) (simp add: Let_def access_simps page_offset)
  then show ?thesis
    using user_write [OF uo q len(2) refl, unfolded len(1)]
    by (intro exI [of _ ?k]) (simp del: length_take)
qed

lemma copyout_run:
  assumes "user_ok kend k pgdir fs" "length buf < 2 ^ 32"
    and "\<forall>i<length buf. umem k pgdir (va + of_nat i) \<noteq> None"
  shows "\<exists>k'. copyout pgdir va buf k sch = Ret 0 k' sch \<and> user_ok kend k' pgdir fs \<and>
     (\<forall>x. umem k' pgdir x =
       (if unat (x - va) < length buf then Some (buf ! unat (x - va)) else umem k pgdir x))"
  using assms
proof (induction "length buf" arbitrary: va buf k rule: less_induct)
  case less
  show ?case
  proof (cases "buf = []")
    case True
    then show ?thesis using less.prems(1) by (auto simp: copyout.simps)
  next
    case False
    let ?n = "chunk va (length buf)"
    have "umem k pgdir va \<noteq> None" using less.prems(3) False by (auto dest: spec [of _ 0])
    from copyout_round [OF less.prems(1) False this, of sch] obtain k1 where
      k1: "copyout pgdir va buf k sch = copyout pgdir (PGROUNDDOWN va + PGSIZE) (drop ?n buf) k1 sch"
      "user_ok kend k1 pgdir fs"
      "\<forall>x. umem k1 pgdir x = (if unat (x - va) < ?n then Some (buf ! unat (x - va)) else umem k pgdir x)"
      by blast
    show ?thesis
    proof (cases "length buf \<le> 4096 - unat va mod 4096")
      case True
      then have "?n = length buf" by (simp add: chunk_eq)
      with k1 show ?thesis by (auto simp: copyout.simps [of _ _ "[]"])
    next
      case long: False
      then have n: "?n = 4096 - unat va mod 4096" "?n < length buf" by (simp_all add: chunk_eq)
      have va': "PGROUNDDOWN va + PGSIZE = va + of_nat ?n" by (simp add: next_page n(1))
      have "umem k1 pgdir (va + of_nat ?n + of_nat i) \<noteq> None" if "i < length buf - ?n" for i
      proof -
        have "?n + i < length buf" using that n(2) by linarith
        then have "umem k pgdir (va + of_nat (?n + i)) \<noteq> None" using less.prems(3) by blast
        then show ?thesis using k1(3) by (simp add: add.assoc)
      qed
      then have "\<exists>k'. copyout pgdir (va + of_nat ?n) (drop ?n buf) k1 sch = Ret 0 k' sch \<and> user_ok kend k' pgdir fs \<and>
          (\<forall>x. umem k' pgdir x = (if unat (x - (va + of_nat ?n)) < length (drop ?n buf)
             then Some (drop ?n buf ! unat (x - (va + of_nat ?n))) else umem k1 pgdir x))"
        using less.prems(2) n(2) chunk_pos [of "length buf" va] False
        by (intro less.hyps [OF _ k1(2)]) auto
      then obtain k2 where k2: "copyout pgdir (va + of_nat ?n) (drop ?n buf) k1 sch = Ret 0 k2 sch"
        "user_ok kend k2 pgdir fs"
        "\<forall>x. umem k2 pgdir x = (if unat (x - (va + of_nat ?n)) < length buf - ?n
             then Some (drop ?n buf ! unat (x - (va + of_nat ?n))) else umem k1 pgdir x)"
        by auto
      have "umem k2 pgdir x =
          (if unat (x - va) < length buf then Some (buf ! unat (x - va)) else umem k pgdir x)" for x
      proof -
        have n32: "unat (of_nat ?n :: uint32) = ?n" using n(2) less.prems(2) by (intro unat_of_nat_word) simp
        have d: "x - (va + of_nat ?n) = (x - va) - of_nat ?n" by simp
        have s: "unat (x - (va + of_nat ?n)) =
            (if ?n \<le> unat (x - va) then unat (x - va) - ?n else unat (x - va) + 2 ^ 32 - ?n)"
          unfolding d by (simp add: unat_sub_if' n32)
        show ?thesis
        proof (cases "?n \<le> unat (x - va)")
          case True
          then show ?thesis using k2(3) k1(3) s n(2) by (auto simp: nth_drop)
        next
          case False
          then have "\<not> unat (x - (va + of_nat ?n)) < length buf - ?n" using s less.prems(2) by simp
          then show ?thesis using k2(3) k1(3) False n(2) by auto
        qed
      qed
      then show ?thesis using k1(1) k2(1,2) va' by auto
    qed
  qed
qed

section \<open>The loop of deallocuvm ends\<close>

lemma kfree_fault: "kfree kend v k sch = Fail f \<Longrightarrow> f \<noteq> OutOfBounds m"
  by (auto simp: kfree_def when_locking_def lock_acquire_def lock_release_def requirek_def split: if_splits)

lemma unat_PDX: "unat (PDX a) = unat a div 4194304"
proof -
  have m: "(0x3FF :: uint32) = mask 10" by (simp add: mask_eq_exp_minus_1)
  have "PDX a = take_bit 10 (drop_bit 22 a)" unfolding PDX_def m by (simp add: take_bit_eq_mask)
  also have "\<dots> = (a div 4194304) mod 1024" by (simp add: take_bit_eq_mod drop_bit_eq_div)
  finally have "unat (PDX a) = (unat a div 4194304) mod 1024"
    by (simp add: unat_mod_distrib unat_div_distrib)
  moreover have "unat a < 2 ^ LENGTH(32)" by (rule unsigned_less)
  ultimately show ?thesis by simp
qed

lemma next_table:
  assumes "is_aligned a" "unat a < 2 ^ 31"
  shows "is_aligned (PGADDR (PDX a + 1) 0 0)" "unat a + 4096 \<le> unat (PGADDR (PDX a + 1) 0 0)"
proof -
  obtain m where m: "unat a = 4096 * m" using aligned_unat [OF assms(1)] by blast
  have d: "unat (PDX a) < 512" using assms(2) by (simp add: unat_PDX) 
  then have s: "unat (PDX a + 1) = unat a div 4194304 + 1" by (simp add: unat_PDX [symmetric] unat_plus_if')
  have "PGADDR (PDX a + 1) 0 0 = of_nat (4194304 * unat (PDX a + 1))"
    by (simp add: PGADDR_def push_bit_eq_mult)
  moreover have "4194304 * unat (PDX a + 1) < 2 ^ 32" using s d unat_PDX [of a] by simp
  ultimately have u: "unat (PGADDR (PDX a + 1) 0 0) = 4194304 * (unat a div 4194304 + 1)"
    unfolding s by (simp only: unat_of_nat_word)
  then have "unat (PGADDR (PDX a + 1) 0 0) mod 4096 = 0" by simp
  then show "is_aligned (PGADDR (PDX a + 1) 0 0)" by (simp add: is_aligned_def aligned_iff)
  show "unat a + 4096 \<le> unat (PGADDR (PDX a + 1) 0 0)"
  proof -
    have "4096 * m div 4194304 = m div 1024" using div_mult_mult1 [of 4096 m 1024] by simp
    moreover have "m < 1024 * (m div 1024) + 1024"
      using mult_div_mod_eq [of 1024 m] mod_less_divisor [of 1024 m] by linarith
    ultimately show ?thesis unfolding u m by simp
  qed
qed

lemma dealloc_fuel:
  assumes "is_aligned a" "unat oldsz \<le> 2 ^ 31" "unat oldsz \<le> unat a + 4096 * n"
  shows "dealloc_loop (Suc n) kend pgdir a oldsz k sch \<noteq> Fail (OutOfBounds ''fuel'')"
  using assms
proof (induction n arbitrary: a k sch)
  case 0
  then show ?case by (simp add: word_less_nat_alt)
next
  case (Suc n)
  show ?case
  proof (cases "a < oldsz")
    case False
    then show ?thesis by simp
  next
    case True
    then have a: "unat a < 2 ^ 31" using Suc.prems(2) by (simp add: word_less_nat_alt)
    have nx: "unat (a + PGSIZE) = unat a + 4096" using a by (simp add: PGSIZE_def unat_plus_if')
    have page: "dealloc_loop (Suc n) kend pgdir (a + PGSIZE) oldsz k' sch' \<noteq> Fail (OutOfBounds ''fuel'')" for k' sch'
      using Suc.prems nx by (intro Suc.IH aligned_next) auto
    have tbl: "dealloc_loop (Suc n) kend pgdir (PGADDR (PDX a + 1) 0 0) oldsz k' sch' \<noteq> Fail (OutOfBounds ''fuel'')"
      for k' sch'
      using Suc.prems next_table [OF Suc.prems(1) a] by (intro Suc.IH) auto
    show ?thesis
    proof (cases "present (pde k pgdir (PDX a))")
      case p: True
      show ?thesis
        using True page tbl
        by (subst dealloc_loop.simps)
          (auto simp: walk_present [OF p] access_simps bnd_def thn_def Let_def simp del: dealloc_loop.simps
            split: outcome.splits dest: kfree_fault)
    next
      case np: False
      then show ?thesis
        using True tbl by (subst dealloc_loop.simps) (simp add: walk_absent del: dealloc_loop.simps)
    qed
  qed
qed

text \<open>The fuel of \<^verbatim>\<open>deallocuvm\<close> is enough for every size that a process can have.\<close>

lemma deallocuvm_fuel:
  assumes "oldsz \<le> KERNBASE"
  shows "deallocuvm kend pgdir oldsz newsz k sch \<noteq> Fail (OutOfBounds ''fuel'')"
proof -
  have "unat oldsz \<le> 2 ^ 31" using assms by (simp add: word_le_nat_alt KERNBASE_def)
  then have "dealloc_loop (Suc (2 ^ 20)) kend pgdir (PGROUNDUP newsz) oldsz k sch \<noteq> Fail (OutOfBounds ''fuel'')"
    by (intro dealloc_fuel PGROUNDUP_aligned) simp_all
  then show ?thesis
    by (auto simp: deallocuvm_def thn_def bnd_def simp del: dealloc_loop.simps split: outcome.splits)
qed

section \<open>Properties\<close>

text \<open>C11: growing an address space. With enough free pages and nothing mapped in the range,
  \<open>allocuvm\<close> returns the new size; the process then reads zero in every page that begins between the rounded
  old size and the new size, reads what it read before everywhere else, and its pages are still neither
  page tables nor free nor shared.\<close>

theorem allocuvm_grows:
  assumes "user_ok kend k pgdir fs" "oldsz \<le> newsz" "newsz < KERNBASE"
    and "2 * length (page_list (PGROUNDUP oldsz) newsz) \<le> length fs"
    and "\<forall>x. PGROUNDUP oldsz \<le> PGROUNDDOWN x \<and> PGROUNDDOWN x < newsz \<longrightarrow> trans_va k pgdir x = None"
  shows "\<exists>k' fs'. allocuvm kend pgdir oldsz newsz k sch = Ret newsz k' sch \<and> user_ok kend k' pgdir fs' \<and>
     (\<forall>x. umem k' pgdir x =
        (if PGROUNDUP oldsz \<le> PGROUNDDOWN x \<and> PGROUNDDOWN x < newsz then Some 0 else umem k pgdir x))"
proof -
  let ?a = "PGROUNDUP oldsz" and ?n = "length (page_list (PGROUNDUP oldsz) newsz)"
  have sz: "unat newsz < 2 ^ 31" using assms(3) by (simp add: word_less_nat_alt KERNBASE_def)
  then have n: "?n \<le> 1048575" by (simp add: page_list_def)
  have "\<forall>i<?n. trans_va k pgdir (page_at ?a i) = None"
    using pgno_page_list [OF PGROUNDUP_aligned sz] assms(5) by blast
  from alloc_loop_maps [OF assms(1,4) n PGROUNDUP_aligned this, of oldsz newsz sch]
  moreover have "allocuvm kend pgdir oldsz newsz = alloc_loop kend pgdir oldsz newsz (page_list ?a newsz)"
    using leD [OF assms(2)] leD [where y = KERNBASE and x = newsz] assms(3)
    by (simp add: allocuvm_def) (metis not_le)
  ultimately show ?thesis
    unfolding page_list_at [of ?a newsz, symmetric] pgno_range [OF PGROUNDUP_aligned sz] by simp
qed

text \<open>C12: copying to user memory. If the process may access the whole range, \<open>copyout\<close> returns 0 and
  the process then reads the buffer there and what it read before everywhere else, also where the range
  crosses pages that are not adjacent in physical memory.\<close>

theorem copyout_writes:
  assumes "user_ok kend k pgdir fs" "length buf < 2 ^ 32"
    and "\<forall>i<length buf. umem k pgdir (va + of_nat i) \<noteq> None"
  shows "\<exists>k'. copyout pgdir va buf k sch = Ret 0 k' sch \<and> user_ok kend k' pgdir fs \<and>
     (\<forall>x. umem k' pgdir x =
        (if unat (x - va) < length buf then Some (buf ! unat (x - va)) else umem k pgdir x))"
  by (rule copyout_run [OF assms])

text \<open>A machine with an empty page directory and two free pages, for the witnesses.\<close>

definition empty_space :: kmem where
  "empty_space = after_kfree 0x80102000 (after_kfree 0x80103000 page_state)"

lemma empty_space_free: "free_pages 0x80100000 empty_space [0x80102000, 0x80103000]"
proof -
  have v: "valid_page 0x80100000 0x80103000" "valid_page 0x80100000 0x80102000"
    by (simp_all add: valid_page_def PGSIZE_def V2P_def KERNBASE_def PHYSTOP_def)
  have "free_pages 0x80100000 (after_kfree 0x80103000 page_state) [0x80103000]"
    using kfree_free_pages [OF page_state_free v(1)] by simp
  from kfree_free_pages [OF this v(2)] show ?thesis by (simp add: empty_space_def)
qed

lemma empty_space_pde:
  assumes "unat i < 1024"
  shows "pde empty_space 0x80101000 i = 0"
proof -
  have st: "agree m (mstore p bs m) 0x80101000"
    if "is_aligned p" "p \<noteq> 0x80101000" "length bs \<le> 4096" for p bs m
    using mstore_agree [of p "0x80101000" 0 bs m] that by (simp add: is_aligned_def)
  have "agree m (mem (after_kfree p k)) 0x80101000"
    if "is_aligned p" "p \<noteq> 0x80101000" "agree m (mem k) 0x80101000" for p k m
  proof -
    let ?m = "mstore p (replicate 4096 1) (mem k)"
    have "agree (mem k) ?m 0x80101000" by (intro st that) simp
    moreover have "agree ?m (mem (after_kfree p k)) 0x80101000"
      using st [OF that(1,2), of "le32 (freelist k)" ?m] by (simp add: after_kfree_def)
    ultimately show ?thesis using that(3) agree_trans by blast
  qed
  then have "agree (\<lambda>_. 0) (mem empty_space) 0x80101000"
    by (simp add: empty_space_def page_state_def is_aligned_def)
  moreover have "is_aligned 0x80101000" by (simp add: is_aligned_def)
  ultimately have "pde empty_space 0x80101000 i = mload32 (entry 0x80101000 i) (\<lambda>_. 0)"
    unfolding pde_def using assms by (rule agree_mload32)
  also have "\<dots> = 0" by (simp add: mload32_def mload_def rd32_def mk32_def numeral_eq_Suc)
  finally show ?thesis .
qed

lemma empty_space_trans: "trans_va empty_space 0x80101000 x = None"
  by (simp add: trans_va_def empty_space_pde [OF index_less(1)])

lemma empty_space_ok: "user_ok 0x80100000 empty_space 0x80101000 [0x80102000, 0x80103000]"
  using empty_space_free empty_space_pde empty_space_trans
  by (simp add: user_ok_def pt_ok_def user_va_def valid_page_def PGSIZE_def V2P_def KERNBASE_def PHYSTOP_def)

lemma one_page: "PGROUNDUP 0 = 0" "page_list 0 4096 = map (page_at 0) [0..<1]"
  by (simp_all add: PGROUNDUP_def PGSIZE_def page_list_def page_at_def)

theorem allocuvm_grows_witness:
  "\<exists>k' fs'. allocuvm 0x80100000 0x80101000 0 4096 empty_space [] = Ret 4096 k' [] \<and>
     user_ok 0x80100000 k' 0x80101000 fs' \<and> umem k' 0x80101000 17 = Some 0 \<and> umem empty_space 0x80101000 17 = None"
proof -
  have "\<exists>k' fs'. allocuvm 0x80100000 0x80101000 0 4096 empty_space [] = Ret 4096 k' [] \<and>
      user_ok 0x80100000 k' 0x80101000 fs' \<and>
      (\<forall>x. umem k' 0x80101000 x = (if PGROUNDUP 0 \<le> PGROUNDDOWN x \<and> PGROUNDDOWN x < 4096 then Some 0
         else umem empty_space 0x80101000 x))"
    by (rule allocuvm_grows [OF empty_space_ok])
      (simp_all add: one_page empty_space_trans KERNBASE_def)
  moreover have "PGROUNDDOWN 17 = 0" by (simp add: PGROUNDDOWN_def PGSIZE_def)
  moreover have "umem empty_space 0x80101000 17 = None"
    by (simp add: umem_def user_va_def empty_space_trans)
  ultimately show ?thesis by (auto simp: one_page)
qed

theorem copyout_writes_witness:
  "\<exists>k k' fs. user_ok 0x80100000 k 0x80101000 fs \<and> copyout 0x80101000 16 [7, 8, 9] k [] = Ret 0 k' [] \<and>
     umem k' 0x80101000 17 = Some 8 \<and> umem k' 0x80101000 19 = Some 0"
proof -
  have al: "is_aligned 0" by (simp add: is_aligned_def)
  obtain k fs where k: "user_ok 0x80100000 k 0x80101000 fs"
    "\<forall>x. umem k 0x80101000 x = (if pgno 0 x < 1 then Some 0 else umem empty_space 0x80101000 x)"
    using alloc_loop_maps [OF empty_space_ok _ _ al, of 1 0 4096 "[]"] empty_space_trans by auto
  have z: "umem k 0x80101000 x = Some 0" if "unat x < 4096" for x
  proof -
    have "unat (PGROUNDDOWN x) = 0" using that by (simp add: unat_PGROUNDDOWN)
    then show ?thesis using k(2) by (simp add: pgno_def)
  qed
  have "\<forall>i<length [7, 8, 9 :: uchar]. umem k 0x80101000 (16 + of_nat i) \<noteq> None"
  proof (intro allI impI)
    fix i assume "i < length [7, 8, 9 :: uchar]"
    then have "i = 0 \<or> i = 1 \<or> i = 2" by auto
    then show "umem k 0x80101000 (16 + of_nat i) \<noteq> None" by (auto simp: z)
  qed
  from copyout_writes [OF k(1) _ this, of "[]"] obtain k' where
    "copyout 0x80101000 16 [7, 8, 9] k [] = Ret 0 k' []"
    "\<forall>x. umem k' 0x80101000 x = (if unat (x - 16) < length [7, 8, 9 :: uchar]
       then Some ([7, 8, 9] ! unat (x - 16)) else umem k 0x80101000 x)"
    by auto
  moreover from this(2) have "umem k' 0x80101000 17 = Some 8" "umem k' 0x80101000 19 = Some 0"
    by (simp_all add: z)
  ultimately show ?thesis using k(1) by blast
qed

end
