(* ===== verification/Spec2Isabelle.thy ===== *)
theory Spec2Isabelle
  imports Printf Sysfile Spinlock Content Console ShellRun Grep Vm
begin

text \<open>
  A verification development for the xv6 kernel with a network stack (the sources under \<^verbatim>\<open>src/\<close>).

  \<^bold>\<open>The program.\<close> The kernel has four parts that meet in the system calls. The network stack goes from the card
  driver through Ethernet, ARP, IP, ICMP and TCP to sockets. The file system goes from the disk through the buffer
  cache, the log, inodes and directories to path names. Memory is handed out in pages and mapped by page tables.
  Pipes, the console and the table of open files connect these to processes. The shell and \<^verbatim>\<open>grep\<close> are user programs.

  \<^bold>\<open>The model of kernel code.\<close> An operation is a function of type \<open>('s, 'a) km\<close> (theory \<open>Prelude\<close>) from the state and a
  schedule to an outcome: it returns, it fails (a panic, or an access that C leaves undefined), or it is asleep. The
  schedule says what the rest of the system does during each sleep. Integers have the width of the C types. A pointer
  into a table is an index, other pointers are addresses in a byte-addressed memory.

  \<^bold>\<open>Theories and sources.\<close>
  \<^item> \<open>Printf\<close>: \<^verbatim>\<open>printint\<close>, \<^verbatim>\<open>cprintf\<close> (\<^verbatim>\<open>console.c\<close>), \<^verbatim>\<open>printf.c\<close>. The digit buffer is never overrun.
  \<^item> \<open>NetUtils\<close>: \<^verbatim>\<open>netutils.c\<close>. Byte order, \<^verbatim>\<open>inet_addr\<close> as the inverse of printing, the checksum of RFC 1071.
  \<^item> \<open>BQueue\<close>: \<^verbatim>\<open>queue.c\<close>. The circular buffer implements the locale \<open>bounded_fifo\<close>.
  \<^item> \<open>Kalloc\<close>: \<^verbatim>\<open>kalloc.c\<close>. The free list in memory implements the locale \<open>page_allocator\<close>.
  \<^item> \<open>Vm\<close>: \<^verbatim>\<open>vm.c\<close>, \<^verbatim>\<open>mmu.h\<close>, \<^verbatim>\<open>memlayout.h\<close>. Page tables; what a process reads after \<^verbatim>\<open>allocuvm\<close> and \<^verbatim>\<open>copyout\<close>.
  \<^item> \<open>NetState\<close>: the structs of the network stack, their byte layout, and the global state \<open>net\<close>.
  \<^item> \<open>Nic\<close>, \<open>NetRx\<close>: \<^verbatim>\<open>pci.c\<close>, \<^verbatim>\<open>rtl8139.c\<close>, \<^verbatim>\<open>ether_receive\<close>, \<^verbatim>\<open>ip_receive\<close>. A frame is taken apart into its
    payload; packets that lie in one piece in the receive ring are passed up.
  \<^item> \<open>Arp\<close>: \<^verbatim>\<open>ether.c\<close>, \<^verbatim>\<open>arp.c\<close>. Resolution, and one live entry per address as an invariant.
  \<^item> \<open>Ip\<close>: \<^verbatim>\<open>ip.c\<close>, \<^verbatim>\<open>icmp.c\<close>. Datagrams and the echo round trip.
  \<^item> \<open>Tcp\<close>, \<open>Socket\<close>: \<^verbatim>\<open>tcp.c\<close>, \<^verbatim>\<open>utils.c\<close>, \<^verbatim>\<open>socket.c\<close>, \<^verbatim>\<open>sysnet.c\<close>, the table of \<^verbatim>\<open>file.c\<close>. What every valid
    segment of a connection does to the stream, the send window, the handshake, ports, and two accesses outside an array.
  \<^item> \<open>Str\<close>: \<^verbatim>\<open>string.c\<close>, \<^verbatim>\<open>ulib.c\<close>. Overlapping copies, termination of copied strings.
  \<^item> \<open>Sleeplock\<close>, \<open>FsState\<close>: \<^verbatim>\<open>sleeplock.c\<close> with the locale \<open>lock_view\<close>, and the state of the file system.
  \<^item> \<open>Bio\<close>, \<open>Bcache\<close>: \<^verbatim>\<open>bio.c\<close>, \<^verbatim>\<open>memide.c\<close>. One buffer per block; the cache is transparent.
  \<^item> \<open>Log\<close>, \<open>Crash\<close>: \<^verbatim>\<open>log.c\<close>. The order of disk writes, and atomicity under repeated power failures.
  \<^item> \<open>Inode\<close>, \<open>Dir\<close>, \<open>Tx\<close>, \<open>Content\<close>: \<^verbatim>\<open>fs.c\<close>. The bit map, and that \<^verbatim>\<open>readi\<close> returns what \<^verbatim>\<open>writei\<close> wrote.
  \<^item> \<open>Pipe\<close>: \<^verbatim>\<open>pipe.c\<close>. A pipe implements the locale \<open>byte_stream\<close>; a sleeping writer is woken.
  \<^item> \<open>Syscall\<close>, \<open>Sysfile\<close>: \<^verbatim>\<open>syscall.c\<close>, \<^verbatim>\<open>sysfile.c\<close>, \<^verbatim>\<open>file.c\<close>. Arguments lie in user memory; the
    handlers; opening and closing a socket.
  \<^item> \<open>Spinlock\<close>: \<^verbatim>\<open>spinlock.c\<close>. Mutual exclusion under every interleaving of the processors.
  \<^item> \<open>Console\<close>: \<^verbatim>\<open>console.c\<close>, \<^verbatim>\<open>uart.c\<close>. The screen stays in bounds; a reader gets the edited line.
  \<^item> \<open>Shell\<close>, \<open>ShellRun\<close>, \<open>Grep\<close>: \<^verbatim>\<open>sh.c\<close>, \<^verbatim>\<open>grep.c\<close>. Parsing inverts printing, descriptors of started programs,
    and the lines that \<^verbatim>\<open>grep\<close> selects from the part of its input that it keeps.

  \<^bold>\<open>Bounds and fuel.\<close> The parser of the shell takes fuel, and \<open>parsecmd_total\<close> shows that it never runs out. Walking
  the ring of buffers takes the number of its cells, and \<open>freerange\<close> the number of pages of the address space.
  \<open>dealloc_loop\<close> takes one more than that number; \<open>deallocuvm_fuel\<close> shows that it does not run out for sizes up to
  \<open>KERNBASE\<close>. The loops of \<^verbatim>\<open>tcp_tx\<close> and \<^verbatim>\<open>nicintr\<close> depend on the peer and on the card and may not end: they take a number
  of rounds as an argument, and running out of it is not a return. Loops of \<^verbatim>\<open>string.c\<close> that look for a NUL are
  partial, with \<open>None\<close> for not returning.

  \<^bold>\<open>Parameters.\<close> The card's answers, the linker's addresses \<open>kend\<close> and \<open>data\<close>, the contents of uninitialised stack memory,
  the table of devices, and \<^verbatim>\<open>exec\<close> in \<^verbatim>\<open>sys_exec\<close> are arguments of the definitions that use them.

  \<^bold>\<open>Not modelled.\<close>
  \<^item> Processes (\<^verbatim>\<open>proc.c\<close>, \<^verbatim>\<open>sysproc.c\<close>, \<^verbatim>\<open>exec.c\<close>, \<^verbatim>\<open>swtch.S\<close>): the scheduler switches stacks in assembly. Other
    components use \<^verbatim>\<open>sleep\<close> and \<^verbatim>\<open>wakeup\<close> through the outcome of being asleep, so that lost wake-ups inside the
    scheduler are outside the model.
  \<^item> Of \<^verbatim>\<open>vm.c\<close>, \<^verbatim>\<open>loaduvm\<close>, which combines page tables with the file system, and the routines that load registers.
    \<^verbatim>\<open>setupkvm\<close>, \<^verbatim>\<open>copyuvm\<close>, \<^verbatim>\<open>freevm\<close>, \<^verbatim>\<open>inituvm\<close> and \<^verbatim>\<open>clearpteu\<close> are defined, but no property is proved of them, and of
    \<^verbatim>\<open>deallocuvm\<close> only that its loop ends.
  \<^item> Traps, boot code, interrupt controllers and the IDE driver (\<^verbatim>\<open>trap.c\<close>, \<^verbatim>\<open>main.c\<close>, \<^verbatim>\<open>mp.c\<close>, \<^verbatim>\<open>lapic.c\<close>,
    \<^verbatim>\<open>ioapic.c\<close>, \<^verbatim>\<open>picirq.c\<close>, \<^verbatim>\<open>ide.c\<close>, the assembly files): assembly and effects on device registers.
  \<^item> The keyboard decoder \<^verbatim>\<open>kbd.c\<close>, the user allocator \<^verbatim>\<open>umalloc.c\<close>, the host program \<^verbatim>\<open>mkfs.c\<close>, the other user
    programs and the test programs.
\<close>

end
